(* ===== verification/Prelude.thy ===== *)
theory Prelude
  imports Main "HOL-Library.Word"
begin

text \<open>
  Shared vocabulary of the development: the machine integers of the two 32-bit processors
  (68030 and T425, both with a 32-bit \<open>long\<close> and 8-bit \<open>char\<close>), byte strings, C's truncating
  division, little-endian 16/32-bit fields, and the generic list and word lemmas the
  components use. Facts that unfold C-level helpers are collected in \<open>c_defs\<close>, facts on
  byte fields in \<open>byte_fields\<close>.
\<close>

named_theorems c_defs \<open>definitions of small C helpers, unfolded by component proofs\<close>
named_theorems byte_fields \<open>reading and writing little-endian fields\<close>

unbundle bit_operations_syntax

type_synonym u8 = "8 word"
type_synonym u16 = "16 word"
type_synonym u32 = "32 word"
type_synonym u64 = "64 word"
type_synonym bytes = "8 word list"

section \<open>C integer arithmetic\<close>

text \<open>Signed division of C truncates towards zero.\<close>

definition cdiv :: "int \<Rightarrow> int \<Rightarrow> int" where
  "cdiv a b = (if (a < 0) = (b < 0) then \<bar>a\<bar> div \<bar>b\<bar> else - (\<bar>a\<bar> div \<bar>b\<bar>))"

text \<open>A value a signed 32-bit \<open>long\<close> (or \<open>int\<close>) can hold; outside it C overflows.\<close>

definition in_long :: "int \<Rightarrow> bool" where
  "in_long x \<longleftrightarrow> - (2 ^ 31) \<le> x \<and> x < 2 ^ 31"

lemma cdiv_nonneg [simp]: "0 \<le> a \<Longrightarrow> 0 < b \<Longrightarrow> cdiv a b = a div b"
  by (simp add: cdiv_def)

lemma cdiv_nonneg_bounds: "0 \<le> a \<Longrightarrow> 0 < b \<Longrightarrow> 0 \<le> cdiv a b \<and> cdiv a b \<le> a"
  using int_div_less_self [of a b] div_by_1 [of a]
  by (cases "a = 0 \<or> b = 1") (auto simp: pos_imp_zdiv_nonneg_iff)

lemma sint_nonneg_unat: "0 \<le> sint (v :: u32) \<Longrightarrow> sint v = int (unat v)"
  using uint_sint [of v] sint_lt [of v] by (simp add: take_bit_int_eq_self)

section \<open>Little-endian fields\<close>

definition g4_bytes :: "u8 \<Rightarrow> u8 \<Rightarrow> u8 \<Rightarrow> u8 \<Rightarrow> u32" where
  "g4_bytes b0 b1 b2 b3 =
     ucast b0 OR push_bit 8 (ucast b1) OR push_bit 16 (ucast b2) OR push_bit 24 (ucast b3)"

definition lo8 :: "u32 \<Rightarrow> u8" where
  "lo8 v = ucast v"

definition le16 :: "u16 \<Rightarrow> bytes" where
  "le16 v = [ucast v, ucast (drop_bit 8 v)]"

definition g2_bytes :: "u8 \<Rightarrow> u8 \<Rightarrow> u16" where
  "g2_bytes b0 b1 = ucast b0 OR push_bit 8 (ucast b1)"

definition le32 :: "u32 \<Rightarrow> bytes" where
  "le32 v = [ucast v, ucast (drop_bit 8 v), ucast (drop_bit 16 v), ucast (drop_bit 24 v)]"

lemma bit_u8_high: "8 \<le> n \<Longrightarrow> \<not> bit (a :: u8) n"
  using bit_imp_le_length [of a n] by auto

lemma unat_u8_le: "unat (x :: u8) \<le> 255"
  using unsigned_less [of x, where 'a = nat] by simp

lemma unat_ucast_u8 [simp]: "unat (ucast (x :: u8) :: u32) = unat x"
  using unat_u8_le [of x] by (simp add: unsigned_ucast_eq take_bit_nat_eq_self_iff)

lemma length_le16 [simp]: "length (le16 v) = 2"
  by (simp add: le16_def)

lemma length_le32 [simp]: "length (le32 v) = 4"
  by (simp add: le32_def)

lemma g2_le16 [byte_fields]: "g2_bytes (ucast v) (ucast (drop_bit 8 v)) = v"
  by (rule bit_word_eqI) (auto simp: g2_bytes_def bit_simps)

lemma g4_le32 [byte_fields]:
  "g4_bytes (ucast v) (ucast (drop_bit 8 v)) (ucast (drop_bit 16 v)) (ucast (drop_bit 24 v)) = v"
proof (rule bit_word_eqI)
  fix n assume n: "n < LENGTH(32)"
  consider "n < 8" | "8 \<le> n" "n < 16" | "16 \<le> n" "n < 24" | "24 \<le> n"
    by linarith
  then show "bit (g4_bytes (ucast v) (ucast (drop_bit 8 v)) (ucast (drop_bit 16 v))
      (ucast (drop_bit 24 v))) n = bit v n"
    using n by cases (auto simp: g4_bytes_def bit_simps less_diff_conv2)
qed

lemma le32_g4 [byte_fields]: "le32 (g4_bytes a b c d) = [a, b, c, d]"
  by (auto simp: le32_def g4_bytes_def bit_simps bit_u8_high intro!: bit_word_eqI)

lemma le16_g2 [byte_fields]: "le16 (g2_bytes a b) = [a, b]"
  by (auto simp: le16_def g2_bytes_def bit_simps bit_u8_high intro!: bit_word_eqI)

section \<open>Lists\<close>

text \<open>\<open>remove_at i xs\<close>: the array with element \<open>i\<close> moved out and the rest shifted down
  (C's \<open>memmove(q + i, q + i + 1, \<dots>)\<close>).\<close>

definition remove_at :: "nat \<Rightarrow> 'a list \<Rightarrow> 'a list" where
  "remove_at i xs = take i xs @ drop (Suc i) xs"

text \<open>\<open>swap_last i xs\<close>: element \<open>i\<close> is overwritten by the last one and the array shrinks
  (C's \<open>a[i] = a[--n]\<close>).\<close>

definition swap_last :: "nat \<Rightarrow> 'a list \<Rightarrow> 'a list" where
  "swap_last i xs = butlast (xs[i := last xs])"

lemma length_remove_at [simp]: "i < length xs \<Longrightarrow> length (remove_at i xs) = length xs - 1"
  by (simp add: remove_at_def)

lemma set_remove_at: "set (remove_at i xs) \<subseteq> set xs"
  by (auto simp: remove_at_def dest: in_set_takeD in_set_dropD)

lemma remove_at_mset: "i < length xs \<Longrightarrow> set xs = insert (xs ! i) (set (remove_at i xs))"
  using id_take_nth_drop [of i xs]
  by (auto simp: remove_at_def) (metis Un_iff insert_iff list.set(2) set_append)+

lemma length_swap_last [simp]: "length (swap_last i xs) = length xs - 1"
  by (simp add: swap_last_def)

lemma swap_last_nth:
  assumes "i < length xs" and "k < length xs - 1"
  shows "swap_last i xs ! k = (if k = i then last xs else xs ! k)"
  using assms by (simp add: swap_last_def nth_butlast)

lemma filter_all: "(\<And>x. x \<in> set xs \<Longrightarrow> P x) \<Longrightarrow> filter P xs = xs"
  by (simp add: filter_id_conv)

lemma distinct_map_remove1: "distinct (map f qs) \<Longrightarrow> distinct (map f (remove1 q qs))"
  by (metis distinct_map distinct_remove1 inj_on_subset set_remove1_subset)

section \<open>Blocks and padding\<close>

text \<open>The whole \<open>k\<close>-byte blocks of a message, and the padding that the hash functions share.\<close>

function blocks :: "nat \<Rightarrow> bytes \<Rightarrow> bytes list" where
  "blocks k m = (if k = 0 \<or> length m < k then [] else take k m # blocks k (drop k m))"
  by pat_completeness auto
termination by (relation "measure (\<lambda>(k, m). length m)") auto

declare blocks.simps [simp del]

lemma blocks_short [simp]: "length m < k \<Longrightarrow> blocks k m = []"
  by (simp add: blocks.simps)

lemma blocks_append: "k dvd length a \<Longrightarrow> blocks k (a @ b) = blocks k a @ blocks k b"
proof (induction k a rule: blocks.induct)
  case (1 k a)
  show ?case
  proof (cases "k = 0 \<or> length a < k")
    case True
    then have "k = 0 \<or> a = []" using 1(2) by (metis dvd_imp_le length_0_conv linorder_not_less neq0_conv)
    then show ?thesis by (cases "k = 0") (simp_all add: blocks.simps [of 0])
  next
    case False
    then have "k dvd length (drop k a)" using 1(2) by (simp add: dvd_diff_nat)
    with 1(1) [OF False] False show ?thesis
      by (simp add: blocks.simps [of k a] blocks.simps [of k "a @ b"])
  qed
qed

lemma blocks_one: "length m = k \<Longrightarrow> 0 < k \<Longrightarrow> blocks k m = [m]"
  by (simp add: blocks.simps [of k m])

text \<open>The big-endian representation of a number in \<open>k\<close> bytes, and the 32-bit case.\<close>

definition be_bytes :: "nat \<Rightarrow> nat \<Rightarrow> bytes" where
  "be_bytes k n = map (\<lambda>i. of_nat (n div 256 ^ (k - 1 - i))) [0..<k]"

definition be4 :: "u32 \<Rightarrow> bytes" where
  "be4 v = map (\<lambda>i. ucast (drop_bit (24 - 8 * i) v)) [0..<4]"

lemma length_be4 [simp]: "length (be4 v) = 4"
  by (simp add: be4_def)

text \<open>\<open>memcpy (dst + off, src, length src)\<close>\<close>

definition blit :: "bytes \<Rightarrow> nat \<Rightarrow> bytes \<Rightarrow> bytes" where
  "blit dst off src = take off dst @ src @ drop (off + length src) dst"

lemma length_blit [simp]: "off + length src \<le> length dst \<Longrightarrow> length (blit dst off src) = length dst"
  by (simp add: blit_def)

lemma byte_of_nat: "bit (of_nat (8 * n div 256 ^ j) :: u8) i \<longleftrightarrow> i < 8 \<and> 3 \<le> 8 * j + i \<and> bit n (8 * j + i - 3)"
proof -
  have "8 * n div 256 ^ j = drop_bit (8 * j) (push_bit 3 n)"
    by (simp add: drop_bit_eq_div push_bit_eq_mult power_mult) (simp only: mult.commute)
  then show ?thesis by (auto simp: bit_simps)
qed

lemma lo_byte: "j < 4 \<Longrightarrow> ucast (drop_bit (8 * j) (push_bit 3 (of_nat n :: u32))) = (of_nat (8 * n div 256 ^ j) :: u8)"
  by (rule bit_word_eqI) (unfold byte_of_nat, auto simp: bit_simps)

lemma hi_byte:
  assumes "n < 2 ^ 32" and "j < 4"
  shows "ucast (drop_bit (8 * j) (drop_bit 29 (of_nat n :: u32))) = (of_nat (8 * n div 256 ^ (4 + j)) :: u8)"
proof (rule bit_word_eqI)
  fix i assume "i < LENGTH(8)"
  have small: "k < 32" if b: "bit n k" for k
  proof -
    have "take_bit 32 n = n" using assms(1) by (simp add: take_bit_nat_eq_self)
    then show ?thesis using b by (metis bit_take_bit_iff)
  qed
  then show "bit (ucast (drop_bit (8 * j) (drop_bit 29 (of_nat n :: u32))) :: u8) i =
      bit (of_nat (8 * n div 256 ^ (4 + j)) :: u8) i"
    unfolding byte_of_nat using \<open>i < LENGTH(8)\<close> assms(2)
    by (auto simp: bit_simps algebra_simps dest: small)
qed

lemma length_field:
  assumes "n < 2 ^ 32"
  shows "be4 (drop_bit 29 (of_nat n)) @ be4 (push_bit 3 (of_nat n)) = be_bytes 8 (8 * n)"
proof -
  have u: "[0..<4] = [0, 1, 2, 3]" "[0..<8] = [0, 1, 2, 3, 4, 5, 6, 7]" by (simp_all add: upt_rec)
  show ?thesis
    using lo_byte [of 0 n] lo_byte [of 1 n] lo_byte [of 2 n] lo_byte [of 3 n]
      hi_byte [OF assms, of 0] hi_byte [OF assms, of 1] hi_byte [OF assms, of 2] hi_byte [OF assms, of 3]
    by (simp add: be4_def be_bytes_def u)
qed

text \<open>\<open>r\<close> bytes of a block of \<open>k\<close> are used and the one bit and the length field leave room for
  \<open>l\<close>: the zeros that fill this block, or this one and the next.\<close>

lemma pad_zeros:
  assumes "k dvd n - r" and "r \<le> n" and "r < k" and "l < k"
  shows "nat ((int l - int n) mod int k) = (if r \<le> l then l - r else k + l - r)"
proof -
  obtain q where q: "n - r = k * q" using assms(1) by blast
  then have n: "int n = int r + int k * int q" using assms(2) by (metis le_add_diff_inverse of_nat_add of_nat_mult)
  have "(int l - int n) mod int k = (int l - int r + int k * (- int q)) mod int k" by (simp add: n diff_diff_eq)
  also have "\<dots> = (int l - int r) mod int k" by (rule mod_mult_self2)
  also have "\<dots> = int (if r \<le> l then l - r else k + l - r)"
  proof (cases "r \<le> l")
    case True
    then show ?thesis using assms(4) by (simp add: mod_pos_pos_trivial)
  next
    case False
    have "(int l - int r) mod int k = (int l - int r + int k) mod int k" by (rule mod_add_self2 [symmetric])
    also have "\<dots> = int l - int r + int k" using False assms(3) by (intro mod_pos_pos_trivial) auto
    finally show ?thesis using False assms(3) by simp
  qed
  finally show ?thesis by (simp only: nat_int)
qed

section \<open>Decimal strings\<close>

text \<open>\<open>atoi\<close> of the C library: white space, a sign, then digits up to the first other character.\<close>

definition is_digit :: "char \<Rightarrow> bool" where
  "is_digit c \<longleftrightarrow> 48 \<le> (of_char c :: nat) \<and> (of_char c :: nat) \<le> 57"

definition digit_val :: "char \<Rightarrow> int" where
  "digit_val c = int (of_char c) - 48"

definition is_space :: "char \<Rightarrow> bool" where
  "is_space c \<longleftrightarrow> c = CHR '' '' \<or> (9 \<le> (of_char c :: nat) \<and> (of_char c :: nat) \<le> 13)"

definition digits_val :: "string \<Rightarrow> int" where
  "digits_val s = foldl (\<lambda>a c. 10 * a + digit_val c) 0 (takeWhile is_digit s)"

definition atoi :: "string \<Rightarrow> int" where
  "atoi s = (case dropWhile is_space s of
     [] \<Rightarrow> 0
   | c # cs \<Rightarrow> if c = CHR ''-'' then - digits_val cs else if c = CHR ''+'' then digits_val cs else digits_val (c # cs))"

end
