(* ===== verification/Adler.thy ===== *)
theory Adler
  imports Prelude
begin

text \<open>
  The checksum of the job wire: \<open>t4_adler32\<close> of \<open>sam-yum-tt/src/t4adler.c\<close> (unsigned 32-bit
  sums, reduced once per 5552-byte block, inner loop unrolled 16 times) and the byte-at-a-time
  reference \<open>ad\<close> of \<open>sam-job-tt/llvm/t4drv.c\<close>. Shown: the block size keeps both sums below
  \<open>2 ^ 32\<close>, so the two agree on every input; and a change of one byte always changes the sum.
\<close>

section \<open>The code\<close>

definition adler_step :: "u32 \<times> u32 \<Rightarrow> u8 \<Rightarrow> u32 \<times> u32" where
  "adler_step s x = (let a = fst s + ucast x; b = snd s + a in (a, b))"

text \<open>One pass of the unrolled loop: sixteen copies of \<open>a += *p++; b += a;\<close>.\<close>

definition adler16 :: "u32 \<times> u32 \<Rightarrow> bytes \<Rightarrow> u32 \<times> u32" where
  "adler16 s p = foldl adler_step s (take 16 p)"

text \<open>The two inner loops over the \<open>k\<close> bytes of one block.\<close>

function adler_block :: "nat \<Rightarrow> bytes \<Rightarrow> u32 \<times> u32 \<Rightarrow> u32 \<times> u32" where
  "adler_block k p s =
     (if 16 \<le> k then adler_block (k - 16) (drop 16 p) (adler16 s p)
      else foldl adler_step s (take k p))"
  by pat_completeness auto
termination
  by (relation "measure (\<lambda>(k, p, s). k)") auto

function adler_loop :: "nat \<Rightarrow> bytes \<Rightarrow> u32 \<times> u32 \<Rightarrow> u32 \<times> u32" where
  "adler_loop n p s =
     (if 0 < n then
        let k = (if n < 5552 then n else 5552);
            s' = adler_block k p s
        in adler_loop (n - k) (drop k p) (fst s' mod 65521, snd s' mod 65521)
      else s)"
  by pat_completeness auto
termination
  by (relation "measure (\<lambda>(n, p, s). n)") auto

declare adler_block.simps [simp del] adler_loop.simps [simp del]

definition t4_adler32 :: "bytes \<Rightarrow> u32" where
  "t4_adler32 p =
     (let s = adler_loop (length p) p (1, 0) in push_bit 16 (snd s) OR fst s)"

text \<open>The harness's own checksum, one reduction per byte.\<close>

definition ad_step :: "u32 \<times> u32 \<Rightarrow> u8 \<Rightarrow> u32 \<times> u32" where
  "ad_step s x = (let a = (fst s + ucast x) mod 65521; b = (snd s + a) mod 65521 in (a, b))"

definition ad :: "bytes \<Rightarrow> u32" where
  "ad p = (let s = foldl ad_step (1, 0) p in push_bit 16 (snd s) OR fst s)"

section \<open>The sums as natural numbers\<close>

definition nat_step :: "nat \<times> nat \<Rightarrow> u8 \<Rightarrow> nat \<times> nat" where
  "nat_step s x = (fst s + unat x, snd s + (fst s + unat x))"

definition mod_step :: "nat \<times> nat \<Rightarrow> u8 \<Rightarrow> nat \<times> nat" where
  "mod_step s x = ((fst s + unat x) mod 65521, (snd s + (fst s + unat x)) mod 65521)"

definition unats :: "u32 \<times> u32 \<Rightarrow> nat \<times> nat" where
  "unats s = (unat (fst s), unat (snd s))"

definition mods :: "nat \<times> nat \<Rightarrow> nat \<times> nat" where
  "mods s = (fst s mod 65521, snd s mod 65521)"

definition reduced :: "u32 \<times> u32 \<Rightarrow> bool" where
  "reduced s \<longleftrightarrow> unat (fst s) < 65521 \<and> unat (snd s) < 65521"

text \<open>\<open>k\<close> bytes cannot overflow the 32-bit sums when they fit this bound.\<close>

definition sums_fit :: "nat \<Rightarrow> nat \<times> nat \<Rightarrow> bool" where
  "sums_fit k s \<longleftrightarrow> fst s + 255 * k < 2 ^ 32 \<and>
     2 * snd s + 2 * k * fst s + 255 * (k * (k + 1)) < 2 ^ 33"

lemma sums_fit_step:
  assumes "sums_fit (Suc k) s" shows "sums_fit k (nat_step s x)"
proof -
  have x: "unat x \<le> 255" by (rule unat_u8_le)
  have m: "k * unat x \<le> k * 255" using x by (rule mult_le_mono2)
  have new: "2 * snd (nat_step s x) + 2 * k * fst (nat_step s x) + 255 * (k * (k + 1)) =
      2 * snd s + 2 * fst s + 2 * (k * fst s) + 255 * (k * k) + 255 * k + 2 * unat x + 2 * (k * unat x)"
    by (simp add: nat_step_def algebra_simps)
  have old: "2 * snd s + 2 * Suc k * fst s + 255 * (Suc k * (Suc k + 1)) =
      2 * snd s + 2 * fst s + 2 * (k * fst s) + 255 * (k * k) + 765 * k + 510"
    by (simp add: algebra_simps)
  have "fst (nat_step s x) + 255 * k < 2 ^ 32"
    using assms x by (simp add: sums_fit_def nat_step_def)
  moreover have "2 * snd (nat_step s x) + 2 * k * fst (nat_step s x) + 255 * (k * (k + 1)) < 2 ^ 33"
    using assms x m unfolding sums_fit_def old new by linarith
  ultimately show ?thesis by (simp add: sums_fit_def)
qed

lemma unats_step:
  assumes "sums_fit (Suc k) (unats s)"
  shows "unats (adler_step s x) = nat_step (unats s) x"
proof -
  have x: "unat x \<le> 255" by (rule unat_u8_le)
  have a: "unat (fst s) + unat x < 2 ^ 32"
    using assms x by (simp add: sums_fit_def unats_def)
  have b: "unat (snd s) + (unat (fst s) + unat x) < 2 ^ 32"
    using assms x by (simp add: sums_fit_def unats_def algebra_simps)
  show ?thesis using a b
    by (simp add: unats_def adler_step_def nat_step_def Let_def unat_word_ariths)
qed

lemma unats_foldl:
  "sums_fit (length xs) (unats s) \<Longrightarrow>
   unats (foldl adler_step s xs) = foldl nat_step (unats s) xs"
proof (induction xs arbitrary: s)
  case Nil
  then show ?case by simp
next
  case (Cons x xs)
  from Cons.prems have "unats (adler_step s x) = nat_step (unats s) x"
    by (auto intro: unats_step)
  moreover from Cons.prems have "sums_fit (length xs) (nat_step (unats s) x)"
    by (auto intro: sums_fit_step)
  ultimately show ?case using Cons.IH [of "adler_step s x"] by simp
qed

lemma reduced_sums_fit:
  assumes "reduced s" and "k \<le> 5552"
  shows "sums_fit k (unats s)"
proof -
  have a: "unat (fst s) \<le> 65520" and b: "unat (snd s) \<le> 65520"
    using assms(1) by (auto simp: reduced_def)
  have "k * unat (fst s) \<le> 5552 * 65520"
    using assms(2) a by (rule mult_le_mono)
  moreover have "k * (k + 1) \<le> 5552 * 5553"
    using assms(2) by (intro mult_le_mono) auto
  ultimately show ?thesis using a b assms(2)
    by (simp add: sums_fit_def unats_def)
qed

section \<open>The optimised loops compute the reference\<close>

lemma adler_block_foldl: "adler_block k p s = foldl adler_step s (take k p)"
proof (induction k p s rule: adler_block.induct)
  case (1 k p s)
  show ?case
  proof (cases "16 \<le> k")
    case True
    then have split: "take k p = take 16 p @ take (k - 16) (drop 16 p)"
      by (metis le_add_diff_inverse take_add)
    from True show ?thesis
      using "1.IH" by (subst adler_block.simps) (simp add: split adler16_def)
  next
    case False
    then show ?thesis by (subst adler_block.simps) simp
  qed
qed

lemma mod_add_mid: "(b + (a mod m + x)) mod m = (b + (a + x)) mod (m :: nat)"
  by (simp only: add.left_commute [of b] mod_add_left_eq)

lemma mods_foldl: "mods (foldl nat_step s xs) = foldl mod_step (mods s) xs"
proof (induction xs arbitrary: s)
  case Nil
  then show ?case by simp
next
  case (Cons x xs)
  have "mods (nat_step s x) = mod_step (mods s) x"
    by (simp add: mods_def nat_step_def mod_step_def mod_simps mod_add_mid)
  with Cons.IH [of "nat_step s x"] show ?case by simp
qed

lemma unats_mod: "unats (fst s mod 65521, snd s mod 65521) = mods (unats s)"
  by (simp add: unats_def mods_def unat_mod)

lemma reduced_mod: "reduced (fst s mod 65521, snd s mod 65521)"
  by (simp add: reduced_def unat_mod)

lemma mods_id: "reduced s \<Longrightarrow> mods (unats s) = unats s"
  by (simp add: reduced_def mods_def unats_def)

lemma adler_loop_ref:
  assumes "reduced s" and "n \<le> length p"
  shows "unats (adler_loop n p s) = foldl mod_step (unats s) (take n p)"
  using assms
proof (induction n p s rule: adler_loop.induct)
  case (1 n p s)
  show ?case
  proof (cases "0 < n")
    case True
    define k where "k = (if n < 5552 then n else 5552)"
    define t where "t = adler_block k p s"
    define s' where "s' = (fst t mod 65521, snd t mod 65521)"
    have k: "k \<le> 5552" "k \<le> n" by (auto simp: k_def)
    have t: "unats t = foldl nat_step (unats s) (take k p)"
      using reduced_sums_fit [OF "1.prems"(1) k(1)] k(2) "1.prems"(2)
      by (simp add: t_def adler_block_foldl unats_foldl)
    have s': "unats s' = foldl mod_step (unats s) (take k p)"
      using mods_id [OF "1.prems"(1)] by (simp add: s'_def unats_mod t mods_foldl)
    have "unats (adler_loop (n - k) (drop k p) s') =
        foldl mod_step (unats s') (take (n - k) (drop k p))"
      unfolding s'_def
      by (rule "1.IH" [OF True k_def t_def]) (use "1.prems"(2) in \<open>auto simp: reduced_mod\<close>)
    moreover have "take n p = take k p @ take (n - k) (drop k p)"
      using k(2) by (metis le_add_diff_inverse take_add)
    moreover have "adler_loop n p s = adler_loop (n - k) (drop k p) s'"
      using True by (subst adler_loop.simps) (simp add: Let_def k_def s'_def t_def)
    ultimately show ?thesis by (simp add: s')
  next
    case False
    then show ?thesis by (subst adler_loop.simps) simp
  qed
qed

lemma ad_step_ref: "reduced s \<Longrightarrow> unats (ad_step s x) = mod_step (unats s) x \<and> reduced (ad_step s x)"
proof -
  assume r: "reduced s"
  have x: "unat x \<le> 255" by (rule unat_u8_le)
  have a: "(unat (fst s) + unat x) mod 4294967296 = unat (fst s) + unat x"
    using r x by (simp add: reduced_def)
  have b: "(unat (snd s) + (unat (fst s) + unat x) mod 65521) mod 4294967296 =
      unat (snd s) + (unat (fst s) + unat x) mod 65521"
  proof (rule mod_less)
    have "(unat (fst s) + unat x) mod 65521 < 65521" by (rule mod_less_divisor) simp
    then show "unat (snd s) + (unat (fst s) + unat x) mod 65521 < 4294967296"
      using r unfolding reduced_def by linarith
  qed
  show ?thesis using r a b
    by (simp add: unats_def ad_step_def mod_step_def Let_def unat_word_ariths unat_mod reduced_def
        mod_add_right_eq)
qed

lemma ad_foldl_ref: "reduced s \<Longrightarrow> unats (foldl ad_step s xs) = foldl mod_step (unats s) xs"
  by (induction xs arbitrary: s) (auto simp: ad_step_ref)

lemma reduced_init: "reduced (1, 0)"
  by (simp add: reduced_def)

lemma unats_inject: "unats s = unats t \<Longrightarrow> s = t"
  by (cases s; cases t) (simp add: unats_def word_unat_eq_iff)

lemma t4_adler32_sums: "adler_loop (length p) p (1, 0) = foldl ad_step (1, 0) p"
  by (rule unats_inject) (simp add: adler_loop_ref ad_foldl_ref reduced_init)

lemma ad_foldl_reduced: "reduced s \<Longrightarrow> reduced (foldl ad_step s xs)"
  by (induction xs arbitrary: s) (auto simp: ad_step_ref)

lemma t4_adler32_alt: "t4_adler32 p = (let s = foldl ad_step (1, 0) p in push_bit 16 (snd s) OR fst s)"
  by (simp add: t4_adler32_def t4_adler32_sums)

text \<open>The block-wise, unrolled \<open>t4_adler32\<close> returns exactly the checksum of the byte-wise
  reference \<open>ad\<close> for every input: 5552 bytes never overflow the 32-bit sums.\<close>

lemma t4_adler32_eq_ad: "t4_adler32 p = ad p"
  by (simp add: t4_adler32_alt ad_def)

section \<open>Detecting a damaged byte\<close>

text \<open>The contract a message check needs: one changed byte changes the checksum.\<close>

locale checksum =
  fixes ck :: "bytes \<Rightarrow> u32"
  assumes ck_byte: "i < length p \<Longrightarrow> v \<noteq> p ! i \<Longrightarrow> ck (p[i := v]) \<noteq> ck p"
begin

text \<open>A receiver that accepts a payload only when its checksum is the announced one.\<close>

lemma damaged_refused:
  "i < length p \<Longrightarrow> v \<noteq> p ! i \<Longrightarrow> ck p = c \<Longrightarrow> ck (p[i := v]) \<noteq> c"
  by (drule (1) ck_byte) simp

end

definition asum :: "nat \<Rightarrow> bytes \<Rightarrow> nat" where
  "asum a xs = a + sum_list (map unat xs)"

lemma foldl_mod_step_fst: "fst (foldl mod_step s xs) mod 65521 = asum (fst s) xs mod 65521"
proof (induction xs arbitrary: s)
  case Nil
  then show ?case by (simp add: asum_def)
next
  case (Cons x xs)
  have "asum (fst (mod_step s x)) xs mod 65521 = asum (fst s) (x # xs) mod 65521"
    by (simp add: asum_def mod_step_def mod_simps add.assoc)
  with Cons.IH [of "mod_step s x"] show ?case by simp
qed

lemma sum_list_update_byte:
  "i < length xs \<Longrightarrow>
   sum_list (map unat (xs[i := v])) + unat (xs ! i) = sum_list (map unat xs) + unat (v :: u8)"
  by (induction xs arbitrary: i) (auto split: nat.splits)

lemma low_half: "reduced s \<Longrightarrow> unat ((push_bit 16 (snd s) OR fst s) AND mask 16) = unat (fst s) mod 65536"
proof -
  have "(push_bit 16 (snd s) OR fst s) AND mask 16 = take_bit 16 (fst s)"
    by (rule bit_word_eqI) (auto simp: bit_simps)
  then show ?thesis by (simp add: unsigned_take_bit_eq take_bit_eq_mod unat_mod)
qed

lemma ad_low: "unat (ad p AND mask 16) = asum 1 p mod 65521"
proof -
  let ?s = "foldl ad_step (1, 0) p"
  have r: "reduced ?s" by (rule ad_foldl_reduced [OF reduced_init])
  have "unat (ad p AND mask 16) = unat (fst ?s)"
    using low_half [OF r] r by (simp add: ad_def Let_def reduced_def)
  also have "\<dots> = fst (unats ?s)" by (simp add: unats_def)
  also have "\<dots> = fst (foldl mod_step (1, 0) p)"
    using ad_foldl_ref [OF reduced_init, of p] by (simp add: unats_def)
  also have "\<dots> = fst (foldl mod_step (1, 0) p) mod 65521"
    using r ad_foldl_ref [OF reduced_init, of p] by (simp add: reduced_def unats_def prod_eq_iff)
  finally show ?thesis using foldl_mod_step_fst [of "(1, 0)" p] by simp
qed

lemma ad_byte_change:
  assumes "i < length p" and "v \<noteq> p ! i"
  shows "ad (p[i := v]) \<noteq> ad p"
proof
  assume "ad (p[i := v]) = ad p"
  then have "asum 1 (p[i := v]) mod 65521 = asum 1 p mod 65521"
    by (metis ad_low)
  then have "int (asum 1 (p[i := v])) mod 65521 = int (asum 1 p) mod 65521"
    by (metis of_nat_mod of_nat_numeral)
  moreover have "int (asum 1 (p[i := v])) - int (asum 1 p) = int (unat v) - int (unat (p ! i))"
    using sum_list_update_byte [OF assms(1), of v] unfolding asum_def by linarith
  ultimately have "(65521 :: int) dvd int (unat v) - int (unat (p ! i))"
    by (metis mod_eq_dvd_iff)
  moreover have "\<bar>int (unat v) - int (unat (p ! i))\<bar> < 65521"
    using unat_u8_le [of v] unat_u8_le [of "p ! i"] by linarith
  ultimately have "int (unat v) - int (unat (p ! i)) = 0"
    by (metis dvd_imp_le_int not_le abs_of_nonneg zero_le_numeral)
  with assms(2) show False by (simp add: word_unat_eq_iff)
qed

interpretation adler: checksum t4_adler32
  by unfold_locales (simp only: t4_adler32_alt ad_def [symmetric] ad_byte_change not_False_eq_True)

end
