(* ===== verification/F25519.thy ===== *)
theory F25519
  imports Prelude
begin

text \<open>
  Field arithmetic modulo \<open>2 ^ 255 - 19\<close> as the T425 runs it:
  \<open>src/x25519bench/fe32/f25519.c\<close>, eight 32-bit words per element, with the transputer's
  multiply-accumulate. Byte arrays are lists of 32 bytes, the word arrays \<open>w8\<close> lists of eight
  words; a loop over the words with a carry is a recursion over the list. The lemmas give the
  integer each routine computes modulo the prime, for every input below \<open>2 ^ 256\<close>.
\<close>

section \<open>The code\<close>

definition mac :: "u32 \<Rightarrow> u32 \<Rightarrow> u32 \<Rightarrow> u32 \<times> u32" where
  "mac x y c = (let t = ucast x * ucast y + ucast c :: u64 in (ucast t, ucast (drop_bit 32 t)))"

definition load :: "bytes \<Rightarrow> u32 list" where
  "load b = map (\<lambda>i. g4_bytes (b ! (4 * i)) (b ! (4 * i + 1)) (b ! (4 * i + 2)) (b ! (4 * i + 3)))
     [0..<8]"

definition store :: "u32 list \<Rightarrow> bytes" where
  "store w = concat (map le32 w)"

fun add_small :: "u32 list \<Rightarrow> u32 \<Rightarrow> u32 list \<times> u32" where
  "add_small [] k = ([], k)"
| "add_small (x # xs) k =
     (let s = x + k; r = add_small xs (if s < x then 1 else 0) in (s # fst r, snd r))"

fun sub_small :: "u32 list \<Rightarrow> u32 \<Rightarrow> u32 list \<times> u32" where
  "sub_small [] k = ([], k)"
| "sub_small (x # xs) k =
     (let d = x - k; r = sub_small xs (if x < k then 1 else 0) in (d # fst r, snd r))"

definition fold_pass :: "u32 list \<times> u32 \<Rightarrow> u32 list \<times> u32" where
  "fold_pass wc =
     (let m = mac (snd wc) 38 0; r = add_small (fst wc) (fst m) in (fst r, snd m + snd r))"

definition fold_carry :: "u32 list \<Rightarrow> u32 \<Rightarrow> u32 list" where
  "fold_carry w c = fst (fold_pass (fold_pass (fold_pass (w, c))))"

definition f25519_load :: "u32 \<Rightarrow> bytes" where
  "f25519_load c = le32 c @ replicate 28 0"

definition f25519_select :: "bytes \<Rightarrow> bytes \<Rightarrow> u8 \<Rightarrow> bytes" where
  "f25519_select zero one condition =
     map2 (\<lambda>z n. z XOR ((- condition) AND (n XOR z))) zero one"

fun add_loop :: "u32 list \<Rightarrow> u32 list \<Rightarrow> u32 \<Rightarrow> u32 list \<times> u32" where
  "add_loop (x # xs) (y # ys) c =
     (let s = x + c; c1 = (if s < c then 1 else 0);
          z = s + y; c2 = c1 + (if z < s then 1 else 0);
          r = add_loop xs ys c2
      in (z # fst r, snd r))"
| "add_loop _ _ c = ([], c)"

definition f25519_add :: "bytes \<Rightarrow> bytes \<Rightarrow> bytes" where
  "f25519_add a b = (let r = add_loop (load a) (load b) 0 in store (fold_carry (fst r) (snd r)))"

fun sub_loop :: "u32 list \<Rightarrow> u32 list \<Rightarrow> u32 \<Rightarrow> u32 list \<times> u32" where
  "sub_loop (x # xs) (y # ys) borrow =
     (let d = x - y; b2 = (if x < y then 1 else 0);
          z = d - borrow; b3 = b2 OR (if d < borrow then 1 else 0);
          r = sub_loop xs ys b3
      in (z # fst r, snd r))"
| "sub_loop _ _ borrow = ([], borrow)"

definition f25519_sub :: "bytes \<Rightarrow> bytes \<Rightarrow> bytes" where
  "f25519_sub a b =
     (let r = sub_loop (load a) (load b) 0;
          r1 = sub_small (fst r) (38 AND (0 - snd r));
          r2 = sub_small (fst r1) (38 AND (0 - snd r1))
      in store (fst r2))"

text \<open>The inner loop of the schoolbook product: \<open>x[i]\<close> times every \<open>y[j]\<close>, added into \<open>t[i + j]\<close>.\<close>

fun mul_inner :: "u32 \<Rightarrow> u32 list \<Rightarrow> u32 list \<Rightarrow> u32 \<Rightarrow> u32 list \<times> u32" where
  "mul_inner x (y # ys) (t # ts) c =
     (let m = mac x y c; lo = fst m + t; hi = snd m + (if lo < t then 1 else 0);
          r = mul_inner x ys ts hi
      in (lo # fst r, snd r))"
| "mul_inner x _ _ c = ([], c)"

definition mul_outer :: "u32 list \<Rightarrow> u32 list \<Rightarrow> u32 list \<Rightarrow> nat \<Rightarrow> u32 list" where
  "mul_outer x y t i =
     (let r = mul_inner (x ! i) y (take 8 (drop i t)) 0
      in take i t @ fst r @ snd r # drop (i + 9) t)"

text \<open>\<open>res = t_low + 38 * t_high\<close>, with the carry out of \<open>2 ^ 256\<close>.\<close>

fun reduce38 :: "u32 list \<Rightarrow> u32 list \<Rightarrow> u32 \<Rightarrow> u32 list \<times> u32" where
  "reduce38 (h # hs) (t # ts) c =
     (let m = mac h 38 c; lo = fst m + t; hi = snd m + (if lo < t then 1 else 0);
          r = reduce38 hs ts hi
      in (lo # fst r, snd r))"
| "reduce38 _ _ c = ([], c)"

definition f25519_mul_distinct :: "bytes \<Rightarrow> bytes \<Rightarrow> bytes" where
  "f25519_mul_distinct a b =
     (let x = load a; y = load b;
          t = foldl (mul_outer x y) (replicate 16 0) [0..<8];
          r = reduce38 (drop 8 t) (take 8 t) 0
      in store (fold_carry (fst r) (snd r)))"

definition f25519_mul :: "bytes \<Rightarrow> bytes \<Rightarrow> bytes" where
  "f25519_mul a b = (let tmp = f25519_mul_distinct a b in tmp)"

fun mul_c_loop :: "u32 list \<Rightarrow> u32 \<Rightarrow> u32 \<Rightarrow> u32 list \<times> u32" where
  "mul_c_loop [] b c = ([], c)"
| "mul_c_loop (x # xs) b c =
     (let m = mac x b c; r = mul_c_loop xs b (snd m) in (fst m # fst r, snd r))"

definition f25519_mul_c :: "bytes \<Rightarrow> u32 \<Rightarrow> bytes" where
  "f25519_mul_c a b = (let r = mul_c_loop (load a) b 0 in store (fold_carry (fst r) (snd r)))"

definition f25519_normalize :: "bytes \<Rightarrow> bytes" where
  "f25519_normalize x =
     (let w = load x;
          top = drop_bit 31 (w ! 7);
          w1 = w[7 := (w ! 7) AND 0x7fffffff];
          w2 = fst (add_small w1 (19 * top));
          t = fst (add_small w2 19);
          m = 0 - drop_bit 31 (t ! 7);
          t1 = t[7 := (t ! 7) AND 0x7fffffff]
      in store (map2 (\<lambda>ti wi. (ti AND m) OR (wi AND NOT m)) t1 w2))"

definition f25519_zero :: bytes where
  "f25519_zero = replicate 32 0"

definition f25519_one :: bytes where
  "f25519_one = 1 # replicate 31 0"

definition f25519_neg :: "bytes \<Rightarrow> bytes" where
  "f25519_neg a = f25519_sub f25519_zero a"

definition f25519_eq :: "bytes \<Rightarrow> bytes \<Rightarrow> u8" where
  "f25519_eq x y =
     (let nx = f25519_normalize x; ny = f25519_normalize y;
          sum = foldl (\<lambda>s d. s OR d) 0 (map2 (\<lambda>p q. p XOR q) nx ny);
          sum1 = sum OR drop_bit 4 sum;
          sum2 = sum1 OR drop_bit 2 sum1;
          sum3 = sum2 OR drop_bit 1 sum2
      in (sum3 XOR 1) AND 1)"

text \<open>\<open>exp2523\<close> writes its result to \<open>r\<close>; the caller's \<open>s\<close> is scratch space.\<close>

definition exp2523 :: "bytes \<Rightarrow> bytes" where
  "exp2523 x =
     (let r0 = f25519_mul_distinct x x; s0 = f25519_mul_distinct r0 x;
          s1 = ((\<lambda>s. f25519_mul_distinct (f25519_mul_distinct s s) x) ^^ 248) s0;
          r1 = f25519_mul_distinct s1 s1;
          s2 = f25519_mul_distinct r1 r1
      in f25519_mul_distinct s2 x)"

definition f25519_sqrt :: "bytes \<Rightarrow> bytes" where
  "f25519_sqrt a =
     (let x = f25519_mul_c a 2; v = exp2523 x;
          y = f25519_mul_distinct v v; ii = f25519_mul_distinct x y;
          y1 = f25519_load 1; ii1 = f25519_sub ii y1;
          x1 = f25519_mul_distinct v a
      in f25519_normalize (f25519_mul_distinct x1 ii1))"

definition f25519_inv_distinct :: "bytes \<Rightarrow> bytes" where
  "f25519_inv_distinct x =
     (let s0 = f25519_mul_distinct x x; r0 = f25519_mul_distinct s0 x;
          r1 = ((\<lambda>r. f25519_mul_distinct (f25519_mul_distinct r r) x) ^^ 248) r0;
          s1 = f25519_mul_distinct r1 r1;
          r2 = f25519_mul_distinct s1 s1;
          s2 = f25519_mul_distinct r2 x;
          r3 = f25519_mul_distinct s2 s2;
          s3 = f25519_mul_distinct r3 r3;
          r4 = f25519_mul_distinct s3 x;
          s4 = f25519_mul_distinct r4 r4
      in f25519_mul_distinct s4 x)"

definition f25519_inv :: "bytes \<Rightarrow> bytes" where
  "f25519_inv x = (let tmp = f25519_inv_distinct x in tmp)"

section \<open>Values\<close>

fun wval :: "u32 list \<Rightarrow> int" where
  "wval [] = 0"
| "wval (x # xs) = uint x + 2 ^ 32 * wval xs"

fun bval :: "bytes \<Rightarrow> int" where
  "bval [] = 0"
| "bval (b # bs) = uint b + 256 * bval bs"

definition P25519 :: int where
  "P25519 = 2 ^ 255 - 19"

lemma uint_u32_less: "uint (x :: u32) < 4294967296"
  using uint_bounded [of x] by simp

lemma wval_nonneg: "0 \<le> wval w"
  by (induction w) auto

lemma wval_bound: "wval w < 2 ^ (32 * length w)"
proof (induction w)
  case Nil
  then show ?case by simp
next
  case (Cons x xs)
  have "wval xs + 1 \<le> 2 ^ (32 * length xs)" using Cons by simp
  then have "2 ^ 32 * (wval xs + 1) \<le> 2 ^ 32 * (2 ^ (32 * length xs))"
    by (rule mult_left_mono) simp
  with uint_u32_less [of x] show ?case
    by (simp add: power_add algebra_simps)
qed

lemma wval_append: "wval (xs @ ys) = wval xs + 2 ^ (32 * length xs) * wval ys"
  by (induction xs) (simp_all add: algebra_simps power_add)

lemma wval_replicate0 [simp]: "wval (replicate n 0) = 0"
  by (induction n) simp_all

lemma bval_append: "bval (xs @ ys) = bval xs + 256 ^ length xs * bval ys"
  by (induction xs) (simp_all add: algebra_simps)

lemma bval_replicate0 [simp]: "bval (replicate n 0) = 0"
  by (induction n) simp_all

lemma uint_ucast_down: "uint (ucast (v :: u32) :: u8) = uint v mod 256"
  by (simp add: unsigned_ucast_eq take_bit_eq_mod)

lemma uint_drop_bit32: "uint (drop_bit n (v :: u32)) = uint v div 2 ^ n"
  using uint_u32_less [of v]
  by (subst unsigned_drop_bit_eq) (simp add: drop_bit_eq_div take_bit_int_eq_self)

lemma bval_le32: "bval (le32 v) = uint v"
proof -
  let ?V = "uint v"
  have d: "?V div 65536 = ?V div 256 div 256" "?V div 16777216 = ?V div 256 div 256 div 256"
    using zdiv_zmult2_eq [of 256 ?V 256] zdiv_zmult2_eq [of 256 ?V 65536]
      zdiv_zmult2_eq [of 256 "?V div 256" 256] by simp_all
  have "?V div 16777216 < 256" using uint_u32_less [of v] by (simp add: div_less_iff_less_mult)
  then have top: "?V div 256 div 256 div 256 mod 256 = ?V div 256 div 256 div 256"
    by (simp add: d pos_imp_zdiv_nonneg_iff)
  have m: "x mod 256 + 256 * (x div 256) = x" for x :: int by simp
  show ?thesis
    using m [of ?V] m [of "?V div 256"] m [of "?V div 256 div 256"]
    by (simp add: le32_def uint_ucast_down uint_drop_bit32 d top) linarith?
qed

lemma uint_g4: "uint (g4_bytes a b c d) = uint a + 256 * (uint b + 256 * (uint c + 256 * uint d))"
  using bval_le32 [of "g4_bytes a b c d"] by (simp add: le32_g4)

lemma bval_store: "bval (store w) = wval w"
  by (induction w) (simp_all add: store_def bval_append bval_le32)

lemma length_store [simp]: "length (store w) = 4 * length w"
  by (induction w) (simp_all add: store_def)

lemma list32_cases:
  assumes "length b = 4 * Suc n"
  obtains b0 b1 b2 b3 bs where "b = b0 # b1 # b2 # b3 # bs" and "length bs = 4 * n"
proof -
  from assms have "length b = Suc (Suc (Suc (Suc (4 * n))))" by simp
  with that show thesis by (auto simp: length_Suc_conv)
qed

lemma wval_words:
  "length b = 4 * n \<Longrightarrow>
   wval (map (\<lambda>i. g4_bytes (b ! (4 * i)) (b ! (4 * i + 1)) (b ! (4 * i + 2)) (b ! (4 * i + 3))) [0..<n])
     = bval b"
proof (induction n arbitrary: b)
  case 0
  then show ?case by simp
next
  case (Suc n)
  from Suc.prems obtain b0 b1 b2 b3 bs where b: "b = b0 # b1 # b2 # b3 # bs"
    and bs: "length bs = 4 * n" by (rule list32_cases)
  have "[0..<Suc n] = 0 # map Suc [0..<n]" by (simp add: map_Suc_upt upt_conv_Cons)
  with Suc.IH [OF bs] show ?case
    by (simp add: b uint_g4 comp_def algebra_simps numeral_eq_Suc del: upt_Suc)
qed

lemma wval_load: "length b = 32 \<Longrightarrow> wval (load b) = bval b"
  using wval_words [of b 8] by (simp only: load_def mult.commute)

lemma length_load [simp]: "length (load b) = 8"
  by (simp add: load_def)

lemma bval_bound: "length b = 32 \<Longrightarrow> bval b < 2 ^ 256"
  using wval_bound [of "load b"] by (simp add: wval_load)

lemma bval_nonneg: "0 \<le> bval b"
  by (induction b) auto

section \<open>Carries\<close>

lemma uint_add_carry:
  "uint (x + y) + 2 ^ 32 * (if x + y < x then 1 else 0) = uint x + uint (y :: u32)"
  using uint_u32_less [of x] uint_u32_less [of y]
  by (simp add: uint_plus_if' word_less_def)

lemma add_small_val:
  "wval (fst (add_small w k)) + 2 ^ (32 * length w) * uint (snd (add_small w k)) = wval w + uint k"
proof (induction w arbitrary: k)
  case Nil
  then show ?case by simp
next
  case (Cons x xs)
  let ?k = "if x + k < x then 1 else 0 :: u32"
  have "uint (x + k) + 2 ^ 32 * uint ?k = uint x + uint k"
    using uint_add_carry [of x k] by auto
  with Cons.IH [of ?k] show ?case
    by (simp add: Let_def power_add algebra_simps)
qed

lemma length_add_small [simp]: "length (fst (add_small w k)) = length w"
  by (induction w arbitrary: k) (simp_all add: Let_def)

lemma mac_val: "uint (fst (mac x y c)) + 2 ^ 32 * uint (snd (mac x y c)) = uint x * uint y + uint c"
proof -
  let ?t = "ucast x * ucast y + ucast c :: u64"
  have x: "uint x \<le> 4294967295" "uint y \<le> 4294967295" "uint c \<le> 4294967295"
    using uint_u32_less [of x] uint_u32_less [of y] uint_u32_less [of c] by simp_all
  have "uint x * uint y \<le> 4294967295 * 4294967295"
    using x by (intro mult_mono) auto
  then have fit: "uint x * uint y + uint c < 2 ^ 64" using x(3) by simp
  have up: "uint (ucast (z :: u32) :: u64) = uint z" for z
    using uint_u32_less [of z] by (simp add: unsigned_ucast_eq take_bit_int_eq_self)
  have m: "uint (ucast x * ucast y :: u64) = uint x * uint y"
  proof -
    have "uint x * uint y < 2 ^ 64" using fit uint_ge_0 [of c] by linarith
    then show ?thesis by (subst uint_mult_lem [THEN iffD1]) (simp_all add: up)
  qed
  have t: "uint ?t = uint x * uint y + uint c"
    using fit by (simp add: uint_plus_if' m up)
  have lo: "uint (ucast ?t :: u32) = uint ?t mod 4294967296"
    by (simp add: unsigned_ucast_eq take_bit_eq_mod)
  have hi: "uint (ucast (drop_bit 32 ?t) :: u32) = uint ?t div 4294967296"
  proof -
    have "uint ?t div 4294967296 < 4294967296"
      using fit by (simp add: t div_less_iff_less_mult)
    moreover have "uint (drop_bit 32 ?t) = uint ?t div 4294967296"
      using uint_lt2p [of ?t]
      by (subst unsigned_drop_bit_eq) (simp add: drop_bit_eq_div take_bit_int_eq_self del: uint_lt2p)
    ultimately show ?thesis
      by (simp add: unsigned_ucast_eq take_bit_int_eq_self pos_imp_zdiv_nonneg_iff)
  qed
  show ?thesis unfolding mac_def Let_def fst_conv snd_conv lo hi by (simp add: t)
qed

text \<open>A multiply-accumulate step with an addend: the 64-bit result never overflows.\<close>

lemma mac_add_val:
  assumes "m = mac x y c" and "lo = fst m + t" and "hi = snd m + (if lo < t then 1 else 0)"
  shows "uint lo + 2 ^ 32 * uint hi = uint x * uint y + uint c + uint t"
proof -
  let ?k = "if lo < t then 1 else 0 :: u32"
  have lo: "uint lo + 4294967296 * uint ?k = uint (fst m) + uint t"
    using uint_add_carry [of t "fst m"] by (auto simp: assms(2) add.commute)
  have m: "uint (fst m) + 4294967296 * uint (snd m) = uint x * uint y + uint c"
    using mac_val by (simp add: assms(1))
  have b: "uint x \<le> 4294967295" "uint y \<le> 4294967295" "uint c \<le> 4294967295" "uint t \<le> 4294967295"
    using uint_u32_less [of x] uint_u32_less [of y] uint_u32_less [of c] uint_u32_less [of t]
    by simp_all
  have "uint x * uint y \<le> 4294967295 * 4294967295"
    using b by (intro mult_mono) auto
  then have "uint (snd m) + uint ?k < 4294967296"
    using lo m b uint_u32_less [of lo] uint_ge_0 [of lo] by linarith
  then have "uint hi = uint (snd m) + uint ?k"
    by (simp add: assms(3) uint_plus_if')
  with lo m show ?thesis by (simp add: algebra_simps)
qed

section \<open>Folding a carry out of \<open>2 ^ 256\<close>\<close>

lemma wval8_bound: "length w = 8 \<Longrightarrow> wval w < 2 ^ 256"
  using wval_bound [of w] by simp

lemma fold_pass_val:
  assumes "length w = 8" and "38 * uint c < 2 ^ 32"
  shows "wval (fst (fold_pass (w, c))) + 2 ^ 256 * uint (snd (fold_pass (w, c))) = wval w + 38 * uint c"
    and "uint (snd (fold_pass (w, c))) \<in> {0, 1}" and "length (fst (fold_pass (w, c))) = 8"
proof -
  define m where "m = mac c 38 0"
  define r where "r = add_small w (fst m)"
  have m: "uint (fst m) + 4294967296 * uint (snd m) = 38 * uint c"
    using mac_val [of c 38 0] by (simp add: m_def)
  have c: "38 * uint c < 4294967296" using assms(2) by simp
  have hi0: "uint (snd m) = 0"
    using m c uint_ge_0 [of "fst m"] uint_ge_0 [of "snd m"] by linarith
  then have hi: "snd m = 0" and lo: "uint (fst m) = 38 * uint c"
    using m by (auto simp: word_eq_iff_unsigned [where 'a = int])
  have fp: "fold_pass (w, c) = (fst r, snd r)"
    by (simp add: fold_pass_def Let_def m_def [symmetric] r_def [symmetric] hi)
  have r: "wval (fst r) + 2 ^ 256 * uint (snd r) = wval w + 38 * uint c"
    using add_small_val [of w "fst m"] by (simp add: r_def lo assms(1))
  then show "wval (fst (fold_pass (w, c))) + 2 ^ 256 * uint (snd (fold_pass (w, c))) = wval w + 38 * uint c"
    by (simp add: fp)
  have "uint (snd r) < 2"
    using r assms wval8_bound [OF assms(1)] wval_nonneg [of "fst r"] by simp
  then have "uint (snd r) = 0 \<or> uint (snd r) = 1"
    using uint_ge_0 [of "snd r"] by linarith
  then show "uint (snd (fold_pass (w, c))) \<in> {0, 1}" by (auto simp: fp)
  show "length (fst (fold_pass (w, c))) = 8"
    by (simp add: fp r_def assms(1))
qed

lemma fold_carry_val:
  assumes "length w = 8" and "38 * uint c < 2 ^ 32"
  obtains k where "wval (fold_carry w c) = wval w + 38 * uint c - 2 * P25519 * k"
    and "length (fold_carry w c) = 8"
proof -
  define r1 where "r1 = fold_pass (w, c)"
  define r2 where "r2 = fold_pass r1"
  define r3 where "r3 = fold_pass r2"
  have f1: "wval (fst r1) + 2 ^ 256 * uint (snd r1) = wval w + 38 * uint c"
    "uint (snd r1) \<in> {0, 1}" "length (fst r1) = 8"
    using fold_pass_val [OF assms] by (simp_all add: r1_def)
  have f2: "wval (fst r2) + 2 ^ 256 * uint (snd r2) = wval (fst r1) + 38 * uint (snd r1)"
    "uint (snd r2) \<in> {0, 1}" "length (fst r2) = 8"
    using fold_pass_val [OF f1(3), of "snd r1"] f1(2) by (auto simp: r2_def)
  have f3: "wval (fst r3) + 2 ^ 256 * uint (snd r3) = wval (fst r2) + 38 * uint (snd r2)"
    "uint (snd r3) \<in> {0, 1}" "length (fst r3) = 8"
    using fold_pass_val [OF f2(3), of "snd r2"] f2(2) by (auto simp: r3_def)
  have k2: "uint (snd r2) = 0"
    using f1 f2 wval8_bound [OF assms(1)] wval8_bound [OF f1(3)] wval_nonneg [of "fst r2"] assms(2)
    by auto
  have k3: "uint (snd r3) = 0"
    using f2 f3 k2 wval8_bound [OF f2(3)] wval_nonneg [of "fst r3"] by auto
  have "fold_carry w c = fst r3"
    by (simp add: fold_carry_def r1_def r2_def r3_def)
  moreover have "wval (fst r3) = wval w + 38 * uint c - 2 * P25519 * uint (snd r1)"
    using f1 f2 f3 k2 k3 by (auto simp: P25519_def)
  ultimately show thesis using that f3(3) by metis
qed

lemma fold_carry_mod:
  assumes "length w = 8" and "38 * uint c < 2 ^ 32" and "wval w + 2 ^ 256 * uint c = V"
  shows "wval (fold_carry w c) mod P25519 = V mod P25519" and "length (fold_carry w c) = 8"
proof -
  obtain k where k: "wval (fold_carry w c) = wval w + 38 * uint c - 2 * P25519 * k"
    and l: "length (fold_carry w c) = 8" using fold_carry_val [OF assms(1,2)] .
  have "wval (fold_carry w c) = V + P25519 * (- 2 * uint c - 2 * k)"
    using assms(3) by (simp add: k P25519_def algebra_simps)
  then show "wval (fold_carry w c) mod P25519 = V mod P25519" by simp
  show "length (fold_carry w c) = 8" by (rule l)
qed

section \<open>Addition and subtraction\<close>

lemma add_loop_val:
  "length xs = length ys \<Longrightarrow> uint c \<le> 1 \<Longrightarrow>
   wval (fst (add_loop xs ys c)) + 2 ^ (32 * length xs) * uint (snd (add_loop xs ys c))
      = wval xs + wval ys + uint c \<and>
   uint (snd (add_loop xs ys c)) \<le> 1 \<and> length (fst (add_loop xs ys c)) = length xs"
proof (induction xs ys c rule: add_loop.induct)
  case (1 x xs y ys c)
  define z where "z = x + c + y"
  define k1 where "k1 = (if x + c < c then 1 else 0 :: u32)"
  define k2 where "k2 = (if z < x + c then 1 else 0 :: u32)"
  have s: "uint (x + c) + 4294967296 * uint k1 = uint x + uint c"
    using uint_add_carry [of c x] by (simp add: k1_def add.commute split: if_splits)
  have z: "uint z + 4294967296 * uint k2 = uint (x + c) + uint y"
    using uint_add_carry [of "x + c" y] by (simp add: k2_def z_def split: if_splits)
  have k: "uint (k1 + k2) = uint k1 + uint k2" by (simp add: k1_def k2_def)
  have sum: "uint z + 4294967296 * uint (k1 + k2) = uint x + uint y + uint c"
    using s z by (simp only: k distrib_left)
  have le: "uint (k1 + k2) \<le> 1"
    using sum "1.prems"(2) uint_u32_less [of x] uint_u32_less [of y] uint_ge_0 [of z] by linarith
  have step: "add_loop (x # xs) (y # ys) c =
      (z # fst (add_loop xs ys (k1 + k2)), snd (add_loop xs ys (k1 + k2)))"
    by (simp add: Let_def z_def k1_def k2_def)
  have "wval (fst (add_loop xs ys (k1 + k2))) +
      2 ^ (32 * length xs) * uint (snd (add_loop xs ys (k1 + k2))) = wval xs + wval ys + uint (k1 + k2) \<and>
      uint (snd (add_loop xs ys (k1 + k2))) \<le> 1 \<and> length (fst (add_loop xs ys (k1 + k2))) = length xs"
    using "1.IH" [OF refl refl refl refl] "1.prems"(1) le unfolding z_def k1_def k2_def by auto
  with sum show ?case unfolding step by (simp add: power_add algebra_simps)
qed simp_all

text \<open>What every arithmetic routine returns: 32 bytes.\<close>

lemma store_mod:
  assumes "wval w mod P25519 = V mod P25519" and "length w = 8"
  shows "bval (store w) mod P25519 = V mod P25519 \<and> length (store w) = 32"
  using assms by (simp add: bval_store)

lemma f25519_add_val:
  assumes "length a = 32" and "length b = 32"
  shows "bval (f25519_add a b) mod P25519 = (bval a + bval b) mod P25519 \<and> length (f25519_add a b) = 32"
proof -
  define r where "r = add_loop (load a) (load b) 0"
  have "wval (fst r) + 2 ^ 256 * uint (snd r) = bval a + bval b" "uint (snd r) \<le> 1" "length (fst r) = 8"
    using add_loop_val [of "load a" "load b" 0] assms by (simp_all add: r_def wval_load)
  then show ?thesis
    using fold_carry_mod [of "fst r" "snd r"] unfolding f25519_add_def r_def [symmetric] Let_def
    by (intro store_mod) simp_all
qed

lemma uint_sub_borrow: "uint (x - y) - 2 ^ 32 * (if x < y then 1 else 0) = uint x - uint (y :: u32)"
  by (simp add: uint_sub_if' word_less_def)

lemma sub_small_val:
  "wval (fst (sub_small w k)) - 2 ^ (32 * length w) * uint (snd (sub_small w k)) = wval w - uint k"
proof (induction w arbitrary: k)
  case Nil
  then show ?case by simp
next
  case (Cons x xs)
  let ?k = "if x < k then 1 else 0 :: u32"
  have "uint (x - k) - 2 ^ 32 * uint ?k = uint x - uint k"
    using uint_sub_borrow [of x k] by auto
  with Cons.IH [of ?k] show ?case
    by (simp add: Let_def power_add algebra_simps)
qed

lemma length_sub_small [simp]: "length (fst (sub_small w k)) = length w"
  by (induction w arbitrary: k) (simp_all add: Let_def)

lemma sub_loop_val:
  "length xs = length ys \<Longrightarrow> uint c \<le> 1 \<Longrightarrow>
   wval (fst (sub_loop xs ys c)) - 2 ^ (32 * length xs) * uint (snd (sub_loop xs ys c))
      = wval xs - wval ys - uint c \<and>
   uint (snd (sub_loop xs ys c)) \<le> 1 \<and> length (fst (sub_loop xs ys c)) = length xs"
proof (induction xs ys c rule: sub_loop.induct)
  case (1 x xs y ys c)
  define d where "d = x - y"
  define k1 where "k1 = (if x < y then 1 else 0 :: u32)"
  define k2 where "k2 = (if d < c then 1 else 0 :: u32)"
  have d: "uint d - 4294967296 * uint k1 = uint x - uint y"
    using uint_sub_borrow [of x y] by (simp add: d_def k1_def split: if_splits)
  have z: "uint (d - c) - 4294967296 * uint k2 = uint d - uint c"
    using uint_sub_borrow [of d c] by (simp add: k2_def split: if_splits)
  have one: "\<not> (x < y \<and> d < c)"
  proof
    assume a: "x < y \<and> d < c"
    then have "uint d < uint c" by (simp add: word_less_def)
    then have "uint d = 0" using "1.prems"(2) uint_ge_0 [of d] by linarith
    then have "uint x - uint y = - 4294967296" using d a by (simp add: k1_def)
    then show False using uint_u32_less [of y] uint_ge_0 [of x] by linarith
  qed
  have k: "uint (k1 OR k2) = uint k1 + uint k2" and le: "uint (k1 OR k2) \<le> 1"
    using one by (auto simp: k1_def k2_def)
  have sum: "uint (d - c) - 4294967296 * uint (k1 OR k2) = uint x - uint y - uint c"
    using d z by (simp only: k distrib_left)
  have step: "sub_loop (x # xs) (y # ys) c =
      ((d - c) # fst (sub_loop xs ys (k1 OR k2)), snd (sub_loop xs ys (k1 OR k2)))"
    by (simp add: Let_def d_def k1_def k2_def)
  have "wval (fst (sub_loop xs ys (k1 OR k2))) -
      2 ^ (32 * length xs) * uint (snd (sub_loop xs ys (k1 OR k2))) = wval xs - wval ys - uint (k1 OR k2) \<and>
      uint (snd (sub_loop xs ys (k1 OR k2))) \<le> 1 \<and> length (fst (sub_loop xs ys (k1 OR k2))) = length xs"
    using "1.IH" [OF refl refl refl refl] "1.prems"(1) le unfolding d_def k1_def k2_def by auto
  with sum show ?case unfolding step by (simp add: power_add algebra_simps)
qed simp_all

lemma mask38: "uint c \<le> 1 \<Longrightarrow> uint ((38 :: u32) AND - c) = 38 * uint c"
proof -
  assume "uint c \<le> 1"
  then have "uint c = 0 \<or> uint c = 1" using uint_ge_0 [of c] by linarith
  then have "c = 0 \<or> c = 1" by (auto simp: word_eq_iff_unsigned [where 'a = int])
  then show ?thesis by auto
qed

lemma sub38_borrow:
  assumes "length w = 8" and "uint c \<le> 1"
  shows "uint (snd (sub_small w (38 AND (0 - c)))) \<le> 1"
proof -
  let ?r = "sub_small w (38 AND (0 - c))"
  have "wval (fst ?r) - 2 ^ 256 * uint (snd ?r) = wval w - 38 * uint c"
    using sub_small_val [of w "38 AND (0 - c)"] by (simp add: assms mask38 [OF assms(2)])
  then show ?thesis
    using assms(2) wval_nonneg [of w] wval8_bound [of "fst ?r"] assms(1) by simp
qed

lemma f25519_sub_val:
  assumes "length a = 32" and "length b = 32"
  shows "bval (f25519_sub a b) mod P25519 = (bval a - bval b) mod P25519 \<and> length (f25519_sub a b) = 32"
proof -
  define r where "r = sub_loop (load a) (load b) 0"
  define r1 where "r1 = sub_small (fst r) (38 AND (0 - snd r))"
  define r2 where "r2 = sub_small (fst r1) (38 AND (0 - snd r1))"
  have r: "wval (fst r) - 2 ^ 256 * uint (snd r) = bval a - bval b" "uint (snd r) \<le> 1" "length (fst r) = 8"
    using sub_loop_val [of "load a" "load b" 0] assms by (simp_all add: r_def wval_load)
  have r1: "wval (fst r1) - 2 ^ 256 * uint (snd r1) = wval (fst r) - 38 * uint (snd r)"
    using sub_small_val [of "fst r" "38 AND (0 - snd r)"] r(3) by (simp add: r1_def mask38 [OF r(2)])
  have b1: "uint (snd r1) \<le> 1" using sub38_borrow [OF r(3,2)] by (simp add: r1_def)
  have l1: "length (fst r1) = 8" and l2: "length (fst r2) = 8" by (simp_all add: r1_def r2_def r(3))
  have r2: "wval (fst r2) - 2 ^ 256 * uint (snd r2) = wval (fst r1) - 38 * uint (snd r1)"
    using sub_small_val [of "fst r1" "38 AND (0 - snd r1)"] l1 by (simp add: r2_def mask38 [OF b1])
  have b2: "uint (snd r2) = 0"
  proof -
    have le: "uint (snd r2) \<le> 1" using sub38_borrow [OF l1 b1] by (simp add: r2_def)
    have c1: "uint (snd r1) = 0 \<or> uint (snd r1) = 1" and c2: "uint (snd r2) = 0 \<or> uint (snd r2) = 1"
      using b1 le uint_ge_0 [of "snd r1"] uint_ge_0 [of "snd r2"] by linarith+
    show ?thesis
      using c1 c2 r1 r2 r(2) wval8_bound [OF l2] wval_nonneg [of "fst r"] wval_nonneg [of "fst r1"]
      by (elim disjE) simp_all
  qed
  have "wval (fst r2) = (bval a - bval b) + P25519 * (2 * uint (snd r) + 2 * uint (snd r1))"
    using r(1) r1 r2 b2 by (simp add: P25519_def algebra_simps)
  then have "wval (fst r2) mod P25519 = (bval a - bval b) mod P25519" by simp
  moreover have "f25519_sub a b = store (fst r2)"
    by (simp add: f25519_sub_def Let_def r_def r1_def r2_def)
  ultimately show ?thesis using store_mod l2 by simp
qed

section \<open>Multiplication\<close>

lemma mul_inner_val:
  "length ys = length ts \<Longrightarrow>
   wval (fst (mul_inner x ys ts c)) + 2 ^ (32 * length ys) * uint (snd (mul_inner x ys ts c))
      = uint x * wval ys + wval ts + uint c \<and>
   length (fst (mul_inner x ys ts c)) = length ys"
proof (induction x ys ts c rule: mul_inner.induct)
  case (1 x y ys t ts c)
  define lo where "lo = fst (mac x y c) + t"
  define hi where "hi = snd (mac x y c) + (if lo < t then 1 else 0)"
  have e: "uint lo + 4294967296 * uint hi = uint x * uint y + uint c + uint t"
    using mac_add_val [OF refl lo_def hi_def] by simp
  have step: "mul_inner x (y # ys) (t # ts) c =
      (lo # fst (mul_inner x ys ts hi), snd (mul_inner x ys ts hi))"
    by (simp add: Let_def lo_def hi_def)
  have "wval (fst (mul_inner x ys ts hi)) + 2 ^ (32 * length ys) * uint (snd (mul_inner x ys ts hi))
      = uint x * wval ys + wval ts + uint hi \<and> length (fst (mul_inner x ys ts hi)) = length ys"
    using "1.IH" [OF refl refl refl] "1.prems" unfolding lo_def hi_def by auto
  with e show ?case unfolding step by (simp add: power_add algebra_simps)
qed simp_all

lemma reduce38_val:
  "length hs = length ts \<Longrightarrow>
   wval (fst (reduce38 hs ts c)) + 2 ^ (32 * length hs) * uint (snd (reduce38 hs ts c))
      = 38 * wval hs + wval ts + uint c \<and>
   length (fst (reduce38 hs ts c)) = length hs"
proof (induction hs ts c rule: reduce38.induct)
  case (1 h hs t ts c)
  define lo where "lo = fst (mac h 38 c) + t"
  define hi where "hi = snd (mac h 38 c) + (if lo < t then 1 else 0)"
  have e: "uint lo + 4294967296 * uint hi = uint h * 38 + uint c + uint t"
    using mac_add_val [OF refl lo_def hi_def] by simp
  have step: "reduce38 (h # hs) (t # ts) c =
      (lo # fst (reduce38 hs ts hi), snd (reduce38 hs ts hi))"
    by (simp add: Let_def lo_def hi_def)
  have "wval (fst (reduce38 hs ts hi)) + 2 ^ (32 * length hs) * uint (snd (reduce38 hs ts hi))
      = 38 * wval hs + wval ts + uint hi \<and> length (fst (reduce38 hs ts hi)) = length hs"
    using "1.IH" [OF refl refl refl] "1.prems" unfolding lo_def hi_def by auto
  with e show ?case unfolding step by (simp add: power_add algebra_simps)
qed simp_all

text \<open>Before row \<open>i\<close> the accumulator holds the product of the first \<open>i\<close> words; its upper words,
  which row \<open>i\<close> overwrites with its carry, are still zero.\<close>

definition mul_inv :: "u32 list \<Rightarrow> u32 list \<Rightarrow> nat \<Rightarrow> u32 list \<Rightarrow> bool" where
  "mul_inv x y i t \<longleftrightarrow> length t = 16 \<and> drop (i + 8) t = replicate (8 - i) 0 \<and>
     wval t = wval (take i x) * wval y"

lemma mul_outer_inv:
  assumes inv: "mul_inv x y i t" and i: "i < 8" and lx: "length x = 8" and ly: "length y = 8"
  shows "mul_inv x y (Suc i) (mul_outer x y t i)"
proof -
  define r where "r = mul_inner (x ! i) y (take 8 (drop i t)) 0"
  have len: "length t = 16" and zero: "drop (i + 8) t = replicate (8 - i) 0"
    and val: "wval t = wval (take i x) * wval y" using inv by (auto simp: mul_inv_def)
  have r: "wval (fst r) + 2 ^ 256 * uint (snd r) = uint (x ! i) * wval y + wval (take 8 (drop i t))"
    "length (fst r) = 8"
    using mul_inner_val [of y "take 8 (drop i t)" "x ! i" 0] len ly i by (simp_all add: r_def)
  have new: "mul_outer x y t i = take i t @ fst r @ snd r # drop (i + 9) t"
    by (simp add: mul_outer_def Let_def r_def)
  have "drop (i + 9) t = drop 1 (drop (i + 8) t)" by (simp add: add.commute)
  then have z9: "drop (i + 9) t = replicate (7 - i) 0" by (simp only: zero drop_replicate) simp
  have split_t: "t = take i t @ take 8 (drop i t) @ drop (i + 8) t"
    using append_take_drop_id [of 8 "drop i t"] append_take_drop_id [of i t]
    by (simp add: add.commute)
  have "wval t = wval (take i t) + 2 ^ (32 * i) * wval (take 8 (drop i t))"
    using i len by (subst split_t) (simp add: wval_append zero min_def)
  then have "wval (mul_outer x y t i) = wval t + 2 ^ (32 * i) * (uint (x ! i) * wval y)"
    using r len i by (simp add: new wval_append z9 min_def algebra_simps)
  also have "\<dots> = wval (take (Suc i) x) * wval y"
    using i lx by (simp add: val take_Suc_conv_app_nth wval_append min_def algebra_simps)
  finally have "wval (mul_outer x y t i) = wval (take (Suc i) x) * wval y" .
  moreover have "drop (Suc i + 8) (mul_outer x y t i) = replicate (8 - Suc i) 0"
    using r(2) len i by (simp add: new z9 min_def)
  moreover have "length (mul_outer x y t i) = 16"
    using r(2) len i by (simp add: new z9 min_def)
  ultimately show ?thesis by (simp add: mul_inv_def)
qed

lemma mul_rows:
  assumes "length x = 8" and "length y = 8" and "n \<le> 8"
  shows "mul_inv x y n (foldl (mul_outer x y) (replicate 16 0) [0..<n])"
  using assms(3)
proof (induction n)
  case 0
  then show ?case by (simp add: mul_inv_def)
next
  case (Suc n)
  then show ?case using mul_outer_inv [OF _ _ assms(1,2)] by simp
qed

lemma f25519_mul_distinct_val:
  assumes "length a = 32" and "length b = 32"
  shows "bval (f25519_mul_distinct a b) mod P25519 = (bval a * bval b) mod P25519 \<and>
    length (f25519_mul_distinct a b) = 32"
proof -
  define t where "t = foldl (mul_outer (load a) (load b)) (replicate 16 0) [0..<8]"
  define r where "r = reduce38 (drop 8 t) (take 8 t) 0"
  have "mul_inv (load a) (load b) 8 t"
    unfolding t_def by (rule mul_rows) simp_all
  then have len: "length t = 16" and val: "wval t = bval a * bval b"
    using assms by (simp_all add: mul_inv_def wval_load)
  have r: "wval (fst r) + 2 ^ 256 * uint (snd r) = 38 * wval (drop 8 t) + wval (take 8 t)"
    "length (fst r) = 8"
    using reduce38_val [of "drop 8 t" "take 8 t" 0] len by (simp_all add: r_def)
  have "wval (drop 8 t) < 2 ^ 256" "wval (take 8 t) < 2 ^ 256"
    using wval8_bound len by simp_all
  then have c: "38 * uint (snd r) < 2 ^ 32"
    using r(1) wval_nonneg [of "fst r"] by simp
  have l: "length (fold_carry (fst r) (snd r)) = 8"
    using fold_carry_mod [OF r(2) c r(1)] by simp
  have "wval (fold_carry (fst r) (snd r)) mod P25519
      = (38 * wval (drop 8 t) + wval (take 8 t)) mod P25519"
    using fold_carry_mod [OF r(2) c r(1)] by simp
  also have "38 * wval (drop 8 t) + wval (take 8 t)
      = bval a * bval b + P25519 * (- 2 * wval (drop 8 t))"
    using val wval_append [of "take 8 t" "drop 8 t"] len by (simp add: P25519_def algebra_simps)
  also have "\<dots> mod P25519 = (bval a * bval b) mod P25519" by (rule mod_mult_self2)
  finally have "wval (fold_carry (fst r) (snd r)) mod P25519 = (bval a * bval b) mod P25519" .
  moreover have "f25519_mul_distinct a b = store (fold_carry (fst r) (snd r))"
    by (simp add: f25519_mul_distinct_def Let_def t_def r_def)
  ultimately show ?thesis using store_mod l by simp
qed

lemma mul_c_loop_val:
  "wval (fst (mul_c_loop xs b c)) + 2 ^ (32 * length xs) * uint (snd (mul_c_loop xs b c))
      = uint b * wval xs + uint c \<and> length (fst (mul_c_loop xs b c)) = length xs"
proof (induction xs arbitrary: c)
  case Nil
  then show ?case by simp
next
  case (Cons x xs)
  have "uint (fst (mac x b c)) + 4294967296 * uint (snd (mac x b c)) = uint x * uint b + uint c"
    using mac_val by simp
  with Cons.IH [of "snd (mac x b c)"] show ?case
    by (simp add: Let_def power_add algebra_simps)
qed

lemma f25519_mul_c_val:
  assumes "length a = 32" and "38 * uint b < 2 ^ 32"
  shows "bval (f25519_mul_c a b) mod P25519 = (bval a * uint b) mod P25519 \<and>
    length (f25519_mul_c a b) = 32"
proof -
  define r where "r = mul_c_loop (load a) b 0"
  have r: "wval (fst r) + 2 ^ 256 * uint (snd r) = bval a * uint b" "length (fst r) = 8"
    using mul_c_loop_val [of "load a" b 0] assms by (simp_all add: r_def wval_load mult.commute)
  have "bval a * uint b \<le> 2 ^ 256 * uint b"
    using bval_bound [OF assms(1)] by (intro mult_right_mono) auto
  then have "38 * uint (snd r) < 2 ^ 32"
    using r(1) wval_nonneg [of "fst r"] assms(2) by simp
  then show ?thesis
    using fold_carry_mod [OF r(2) _ r(1)] unfolding f25519_mul_c_def r_def [symmetric] Let_def
    by (intro store_mod) simp_all
qed

section \<open>Full reduction and comparison\<close>

lemma split7: assumes "length w = 8" shows "w = take 7 w @ [w ! 7]"
  using id_take_nth_drop [of 7 w] assms by simp

lemma uint_and31: "uint ((x :: u32) AND 0x7fffffff) = uint x mod 2147483648"
proof -
  have "(0x7fffffff :: u32) = mask 31" by (simp add: mask_eq_exp_minus_1)
  then have "x AND 0x7fffffff = take_bit 31 x" by (simp add: take_bit_eq_mask)
  then show ?thesis by (simp add: unsigned_take_bit_eq take_bit_eq_mod uint_mod_distrib)
qed

lemma wval_split7:
  assumes "length w = 8"
  shows "wval w = wval (take 7 w) + 2 ^ 224 * uint (w ! 7)" "wval (take 7 w) < 2 ^ 224"
proof -
  have "wval w = wval (take 7 w @ [w ! 7])" using split7 [OF assms] by simp
  then show "wval w = wval (take 7 w) + 2 ^ 224 * uint (w ! 7)"
    using assms by (simp add: wval_append)
  show "wval (take 7 w) < 2 ^ 224" using wval_bound [of "take 7 w"] assms by simp
qed

lemma top_bit:
  assumes "length w = 8"
  shows "uint (drop_bit 31 (w ! 7)) = wval w div 2 ^ 255"
    and "wval (w[7 := (w ! 7) AND 0x7fffffff]) = wval w mod 2 ^ 255"
proof -
  let ?l = "wval (take 7 w)" and ?h = "uint (w ! 7)"
  define q where "q = ?h div 2147483648"
  define m where "m = ?h mod 2147483648"
  have h: "?h = 2147483648 * q + m" "0 \<le> m" "m < 2147483648" by (simp_all add: q_def m_def)
  have v: "wval w = 2 ^ 255 * q + (?l + 2 ^ 224 * m)" 
    using wval_split7 [OF assms] h(1) by simp
  have b: "0 \<le> ?l + 2 ^ 224 * m" "?l + 2 ^ 224 * m < 2 ^ 255"
    using wval_split7(2) [OF assms] h wval_nonneg [of "take 7 w"] by simp_all
  have dm: "wval w div 2 ^ 255 = q" "wval w mod 2 ^ 255 = ?l + 2 ^ 224 * m"
    using b unfolding v by simp_all
  show "uint (drop_bit 31 (w ! 7)) = wval w div 2 ^ 255"
    using dm(1) by (simp only: uint_drop_bit32 q_def) simp
  have "w[7 := (w ! 7) AND 0x7fffffff] = take 7 w @ [(w ! 7) AND 0x7fffffff]"
    using assms by (simp add: upd_conv_take_nth_drop)
  then show "wval (w[7 := (w ! 7) AND 0x7fffffff]) = wval w mod 2 ^ 255"
    using assms by (simp only: dm(2)) (simp add: wval_append uint_and31 m_def)
qed

lemma add_small_fits:
  assumes "length w = 8" and "wval w + uint k < 2 ^ 256"
  shows "wval (fst (add_small w k)) = wval w + uint k"
proof -
  have e: "wval (fst (add_small w k)) + 2 ^ 256 * uint (snd (add_small w k)) = wval w + uint k"
    using add_small_val [of w k] assms(1) by simp
  have "uint (snd (add_small w k)) = 0"
  proof (rule ccontr)
    assume "uint (snd (add_small w k)) \<noteq> 0"
    then have "1 \<le> uint (snd (add_small w k))" using uint_ge_0 [of "snd (add_small w k)"] by linarith
    then show False using e assms(2) wval_nonneg [of "fst (add_small w k)"] by simp
  qed
  with e show ?thesis by simp
qed

lemma mask_select:
  "map2 (\<lambda>ti wi. (ti AND (0 - b)) OR (wi AND NOT (0 - b))) t w = (if b = 0 then w else t)"
  if "length t = length w" and "b = 0 \<or> b = (1 :: u32)"
  using that by (auto simp: map2_map_map [symmetric] intro!: nth_equalityI)

lemma f25519_normalize_val:
  assumes "length x = 32"
  shows "bval (f25519_normalize x) = bval x mod P25519 \<and> length (f25519_normalize x) = 32"
proof -
  define w where "w = load x"
  define top where "top = drop_bit 31 (w ! 7)"
  define w1 where "w1 = w[7 := (w ! 7) AND 0x7fffffff]"
  define w2 where "w2 = fst (add_small w1 (19 * top))"
  define t where "t = fst (add_small w2 19)"
  define b where "b = drop_bit 31 (t ! 7)"
  define t1 where "t1 = t[7 := (t ! 7) AND 0x7fffffff]"
  have len: "length w = 8" "length w1 = 8" "length w2 = 8" "length t = 8" "length t1 = 8"
    by (simp_all add: w_def w1_def w2_def t_def t1_def)
  have V: "wval w = bval x" "wval w < 2 ^ 256" using wval_load [OF assms] wval8_bound [OF len(1)] by (simp_all add: w_def)
  have top: "uint top = bval x div 2 ^ 255" using top_bit(1) [OF len(1)] by (simp add: top_def V)
  have topr: "0 \<le> uint top" "uint top \<le> 1"
    using V bval_nonneg [of x] by (simp_all add: top pos_imp_zdiv_nonneg_iff)
  have wv1: "wval w1 = bval x mod 2 ^ 255" using top_bit(2) [OF len(1)] by (simp add: w1_def V)
  have u19: "uint (19 * top) = 19 * uint top"
    using topr by (subst uint_mult_lem [THEN iffD1]) simp_all
  have m: "0 \<le> bval x mod 2 ^ 255" "bval x mod 2 ^ 255 < 2 ^ 255" by simp_all
  have wv2: "wval w2 = bval x mod 2 ^ 255 + 19 * uint top"
    unfolding w2_def using m topr by (subst add_small_fits [OF len(2)]) (simp_all add: wv1 u19)
  have tv: "wval t = wval w2 + 19"
    unfolding t_def using m topr by (subst add_small_fits [OF len(3)]) (simp_all add: wv2)
  have bv: "uint b = wval t div 2 ^ 255" and t1v: "wval t1 = wval t mod 2 ^ 255"
    using top_bit [OF len(4)] by (simp_all add: b_def t1_def)
  have res: "f25519_normalize x = store (if b = 0 then w2 else t1)"
  proof -
    have "b = 0 \<or> b = 1"
    proof -
      have "uint b < 2" using bv wval8_bound [OF len(4)] by (simp add: div_less_iff_less_mult)
      then have "uint b = 0 \<or> uint b = 1" using uint_ge_0 [of b] by linarith
      then show ?thesis by (auto simp: word_eq_iff_unsigned [where 'a = int])
    qed
    then have "map2 (\<lambda>ti wi. (ti AND (0 - b)) OR (wi AND NOT (0 - b))) t1 w2 = (if b = 0 then w2 else t1)"
      using len by (intro mask_select) simp_all
    then show ?thesis
      by (simp add: f25519_normalize_def Let_def w_def top_def w1_def w2_def t_def b_def t1_def)
  qed
  have V2: "bval x = wval w2 + P25519 * uint top"
    using mult_div_mod_eq [of "2 ^ 255" "bval x"] by (simp add: wv2 top P25519_def)
  have "wval (if b = 0 then w2 else t1) = bval x mod P25519"
  proof (cases "b = 0")
    case True
    then have "wval t < 2 ^ 255"
      using bv wval8_bound [OF len(4)] wval_nonneg [of t] by (auto simp: zdiv_eq_0_iff)
    then have "wval w2 mod P25519 = wval w2"
      using tv wval_nonneg [of w2] by (intro mod_pos_pos_trivial) (simp_all add: P25519_def)
    with True show ?thesis by (simp add: V2)
  next
    case False
    then have "uint b \<noteq> 0" by (simp add: word_eq_iff_unsigned [where 'a = int])
    then have ge: "2 ^ 255 \<le> wval t"
      using bv wval_nonneg [of t] by (simp add: zdiv_eq_0_iff not_less)
    have lt: "wval t < 2 ^ 255 + 38" using tv wv2 m topr by simp
    have "wval t mod 2 ^ 255 = (wval t - 2 ^ 255) mod 2 ^ 255" by (simp add: mod_diff_right_eq)
    also have "\<dots> = wval t - 2 ^ 255" using ge lt by (intro mod_pos_pos_trivial) simp_all
    finally have "wval t1 = wval w2 - P25519" by (simp add: t1v tv P25519_def)
    moreover have "(wval w2 - P25519) mod P25519 = wval w2 - P25519"
      using ge lt tv by (intro mod_pos_pos_trivial) (simp_all add: P25519_def)
    ultimately show ?thesis using False by (simp add: V2)
  qed
  then show ?thesis using len by (simp add: res bval_store)
qed

lemma bval_inject: "length a = length b \<Longrightarrow> bval a = bval b \<longleftrightarrow> a = b"
proof (induction a b rule: list_induct2)
  case Nil
  then show ?case by simp
next
  case (Cons x xs y ys)
  have r: "0 \<le> uint x" "uint x < 256" "0 \<le> uint y" "uint y < 256"
    using uint_bounded [of x] uint_bounded [of y] by simp_all
  have "uint x = uint y \<and> bval xs = bval ys" if e: "uint x + 256 * bval xs = uint y + 256 * bval ys"
  proof -
    have "(uint x + 256 * bval xs) mod 256 = uint x" "(uint y + 256 * bval ys) mod 256 = uint y"
      using r by simp_all
    with e have "uint x = uint y" by metis
    with e show ?thesis by simp
  qed
  with Cons.IH show ?case by (auto simp: word_eq_iff_unsigned [where 'a = int])
qed

lemma foldl_or_zero: "foldl (\<lambda>s d. s OR d) s ds = (0 :: u8) \<longleftrightarrow> s = 0 \<and> (\<forall>d \<in> set ds. d = 0)"
  by (induction ds arbitrary: s) (auto simp: or_eq_0_iff)

lemma xor_zero: "(a XOR b = 0) \<longleftrightarrow> a = (b :: u8)"
  by (auto simp: bit_eq_iff bit_simps)

lemma or_cascade:
  fixes s :: u8
  assumes s1_def: "s1 = s OR drop_bit 4 s" and s2_def: "s2 = s1 OR drop_bit 2 s1"
    and s3_def: "s3 = s2 OR drop_bit 1 s2"
  shows "(s3 XOR 1) AND 1 = (if s = 0 then 1 else 0)"
proof -
  have "bit s3 0 \<longleftrightarrow> (\<exists>n < 8. bit s n)"
    by (auto simp: s3_def s2_def s1_def bit_simps less_Suc_eq numeral_eq_Suc)
  also have "\<dots> \<longleftrightarrow> s \<noteq> 0"
    by (auto simp: bit_eq_iff [of s 0] bit_imp_le_length)
  finally have b: "bit s3 0 \<longleftrightarrow> s \<noteq> 0" .
  show ?thesis
  proof (rule bit_word_eqI)
    fix n assume "n < LENGTH(8)"
    show "bit ((s3 XOR 1) AND 1) n = bit (if s = 0 then 1 else 0 :: u8) n"
      using b by (cases n) (auto simp: bit_simps bit_1_iff)
  qed
qed

lemma f25519_eq_val:
  assumes "length x = 32" and "length y = 32"
  shows "f25519_eq x y = (if bval x mod P25519 = bval y mod P25519 then 1 else 0)"
proof -
  define nx where "nx = f25519_normalize x"
  define ny where "ny = f25519_normalize y"
  define s where "s = foldl (\<lambda>s d. s OR d) 0 (map2 (\<lambda>p q. p XOR q) nx ny)"
  have n: "bval nx = bval x mod P25519" "bval ny = bval y mod P25519" "length nx = 32" "length ny = 32"
    using f25519_normalize_val assms by (simp_all add: nx_def ny_def)
  have "s = 0 \<longleftrightarrow> (\<forall>i < 32. nx ! i = ny ! i)"
    using n(3,4) by (auto simp: s_def foldl_or_zero xor_zero set_zip)
  then have "s = 0 \<longleftrightarrow> nx = ny"
    using n(3,4) by (auto simp: list_eq_iff_nth_eq)
  then have "s = 0 \<longleftrightarrow> bval x mod P25519 = bval y mod P25519"
    using bval_inject [of nx ny] n by simp
  then show ?thesis
    using or_cascade [OF refl refl refl, of s] by (simp add: f25519_eq_def Let_def nx_def ny_def s_def)
qed

lemma length_zero_one [simp]: "length f25519_zero = 32" "length f25519_one = 32"
  by (simp_all add: f25519_zero_def f25519_one_def)

lemma bval_zero_one [simp]: "bval f25519_zero = 0" "bval f25519_one = 1"
  by (simp_all add: f25519_zero_def f25519_one_def)

lemma f25519_neg_val:
  "length a = 32 \<Longrightarrow> bval (f25519_neg a) mod P25519 = (- bval a) mod P25519 \<and> length (f25519_neg a) = 32"
  using f25519_sub_val [of f25519_zero a] by (simp add: f25519_neg_def)

lemma f25519_load_val: "bval (f25519_load c) = uint c \<and> length (f25519_load c) = 32"
  by (simp add: f25519_load_def bval_append bval_le32)

lemma f25519_select_val:
  assumes "length z = length n" and "c = 0 \<or> c = 1"
  shows "f25519_select z n c = (if c = 0 then z else n)"
proof -
  have "z ! i XOR (- 1 AND (n ! i XOR z ! i)) = n ! i" for i
    by (simp add: xor.commute xor.left_commute)
  with assms show ?thesis
    by (auto simp: f25519_select_def intro!: nth_equalityI)
qed

section \<open>Powers: inverse and square root chains\<close>

definition fe_pow :: "bytes \<Rightarrow> nat \<Rightarrow> bytes \<Rightarrow> bool" where
  "fe_pow x n r \<longleftrightarrow> length r = 32 \<and> bval r mod P25519 = bval x ^ n mod P25519"

lemma fe_pow_base: "length x = 32 \<Longrightarrow> fe_pow x 1 x"
  by (simp add: fe_pow_def)

lemma fe_pow_mul:
  assumes "fe_pow x m r" and "fe_pow x n s"
  shows "fe_pow x (m + n) (f25519_mul_distinct r s)"
proof -
  have "(bval r * bval s) mod P25519 = (bval x ^ m * bval x ^ n) mod P25519"
    using assms mod_mult_eq [of "bval r" P25519 "bval s"] mod_mult_eq [of "bval x ^ m" P25519 "bval x ^ n"]
    by (simp only: fe_pow_def)
  then show ?thesis
    using f25519_mul_distinct_val [of r s] assms by (simp add: fe_pow_def power_add)
qed

lemma fe_pow_square_mul:
  assumes "length x = 32" and "fe_pow x (2 ^ k - 1) r"
  shows "fe_pow x (2 ^ Suc k - 1) (f25519_mul_distinct (f25519_mul_distinct r r) x)"
proof -
  have "1 \<le> (2 :: nat) ^ k" by simp
  then have "2 ^ k - 1 + (2 ^ k - 1) + 1 = 2 ^ Suc k - (1 :: nat)"
    unfolding power_Suc by linarith
  then show ?thesis
    using fe_pow_mul [OF fe_pow_mul [OF assms(2) assms(2)] fe_pow_base [OF assms(1)]] by metis
qed

lemma fe_pow_chain:
  assumes "length x = 32" and "fe_pow x (2 ^ k - 1) r"
  shows "fe_pow x (2 ^ (k + n) - 1) (((\<lambda>r. f25519_mul_distinct (f25519_mul_distinct r r) x) ^^ n) r)"
proof (induction n)
  case 0
  then show ?case using assms by simp
next
  case (Suc n)
  then show ?case using fe_pow_square_mul [OF assms(1), of "k + n"] by simp
qed

lemma fe_pow_cube: "length x = 32 \<Longrightarrow> fe_pow x (2 ^ 2 - 1) (f25519_mul_distinct (f25519_mul_distinct x x) x)"
  using fe_pow_square_mul [of x 1 x] fe_pow_base [of x] by (simp add: numeral_2_eq_2)

lemma fe_pow_250:
  "length x = 32 \<Longrightarrow> fe_pow x (2 ^ 250 - 1)
     (((\<lambda>r. f25519_mul_distinct (f25519_mul_distinct r r) x) ^^ 248)
       (f25519_mul_distinct (f25519_mul_distinct x x) x))"
  using fe_pow_chain [OF _ fe_pow_cube, of x 248] by simp

lemma fe_pow_inv: "length x = 32 \<Longrightarrow> fe_pow x (2 ^ 255 - 21) (f25519_inv_distinct x)"
proof -
  assume x: "length x = 32"
  note b = fe_pow_base [OF x] and r1 = fe_pow_250 [OF x]
  note s1 = fe_pow_mul [OF r1 r1]
  note s2 = fe_pow_mul [OF fe_pow_mul [OF s1 s1] b]
  note r3 = fe_pow_mul [OF s2 s2]
  note r4 = fe_pow_mul [OF fe_pow_mul [OF r3 r3] b]
  note r5 = fe_pow_mul [OF fe_pow_mul [OF r4 r4] b]
  from r5 show ?thesis by (simp add: f25519_inv_distinct_def Let_def)
qed

lemma fe_pow_2523: "length x = 32 \<Longrightarrow> fe_pow x (2 ^ 252 - 3) (exp2523 x)"
proof -
  assume x: "length x = 32"
  note r1 = fe_pow_mul [OF fe_pow_250 [OF x] fe_pow_250 [OF x]]
  note r2 = fe_pow_mul [OF fe_pow_mul [OF r1 r1] fe_pow_base [OF x]]
  from r2 show ?thesis by (simp add: exp2523_def Let_def)
qed

lemma P25519_pos [simp]: "0 < P25519"
  by (simp add: P25519_def)

lemma f25519_sqrt_val:
  assumes "length a = 32"
  defines "v \<equiv> (2 * bval a) ^ (2 ^ 252 - 3)"
  shows "bval (f25519_sqrt a) = (v * bval a * (2 * bval a * (v * v) - 1)) mod P25519 \<and>
    length (f25519_sqrt a) = 32"
proof -
  define x where "x = f25519_mul_c a 2"
  define u where "u = exp2523 x"
  define y where "y = f25519_mul_distinct u u"
  define ii where "ii = f25519_mul_distinct x y"
  define ii1 where "ii1 = f25519_sub ii (f25519_load 1)"
  define x1 where "x1 = f25519_mul_distinct u a"
  have x: "bval x mod P25519 = (bval a * 2) mod P25519" "length x = 32"
    using f25519_mul_c_val [OF assms(1), of 2] by (simp_all add: x_def)
  have u: "bval u mod P25519 = bval x ^ (2 ^ 252 - 3) mod P25519" "length u = 32"
    using fe_pow_2523 [OF x(2)] by (simp_all add: u_def fe_pow_def)
  then have u': "bval u mod P25519 = v mod P25519"
    using x(1) by (metis power_mod mult.commute v_def)
  have y: "bval y mod P25519 = (bval u * bval u) mod P25519" "length y = 32"
    using f25519_mul_distinct_val [OF u(2) u(2)] by (simp_all add: y_def)
  have ii: "bval ii mod P25519 = (bval x * bval y) mod P25519" "length ii = 32"
    using f25519_mul_distinct_val [OF x(2) y(2)] by (simp_all add: ii_def)
  have ii1: "bval ii1 mod P25519 = (bval ii - 1) mod P25519" "length ii1 = 32"
    using f25519_sub_val [OF ii(2), of "f25519_load 1"] by (simp_all add: ii1_def f25519_load_val)
  have x1: "bval x1 mod P25519 = (bval u * bval a) mod P25519" "length x1 = 32"
    using f25519_mul_distinct_val [OF u(2) assms(1)] by (simp_all add: x1_def)
  have yv: "bval y mod P25519 = (v * v) mod P25519" using y(1) u' by (metis mod_mult_eq)
  have iiv: "bval ii mod P25519 = (2 * bval a * (v * v)) mod P25519"
    using ii(1) x(1) yv by (metis mod_mult_eq mult.commute)
  have ii1v: "bval ii1 mod P25519 = (2 * bval a * (v * v) - 1) mod P25519"
    using ii1(1) iiv by (metis mod_diff_left_eq)
  have x1v: "bval x1 mod P25519 = (v * bval a) mod P25519" using x1(1) u' by (metis mod_mult_left_eq)
  have "(bval x1 * bval ii1) mod P25519 = (v * bval a * (2 * bval a * (v * v) - 1)) mod P25519"
    using x1v ii1v by (metis mod_mult_eq)
  moreover have "f25519_sqrt a = f25519_normalize (f25519_mul_distinct x1 ii1)"
    by (simp add: f25519_sqrt_def Let_def x_def u_def y_def ii_def ii1_def x1_def)
  ultimately show ?thesis
    using f25519_mul_distinct_val [OF x1(2) ii1(2)] f25519_normalize_val by simp
qed

section \<open>The interface the curve code relies on\<close>

text \<open>Field elements in some representation: \<open>rep\<close> is the element of \<open>Z/p\<close> a value stands for.\<close>

locale field_rep =
  fixes p :: int
    and valid :: "'e \<Rightarrow> bool"
    and rep :: "'e \<Rightarrow> int"
    and add sub mul :: "'e \<Rightarrow> 'e \<Rightarrow> 'e"
  assumes add_law: "valid a \<Longrightarrow> valid b \<Longrightarrow> valid (add a b) \<and> rep (add a b) = (rep a + rep b) mod p"
    and sub_law: "valid a \<Longrightarrow> valid b \<Longrightarrow> valid (sub a b) \<and> rep (sub a b) = (rep a - rep b) mod p"
    and mul_law: "valid a \<Longrightarrow> valid b \<Longrightarrow> valid (mul a b) \<and> rep (mul a b) = (rep a * rep b) mod p"
begin

lemmas laws = add_law sub_law mul_law

text \<open>The square of a difference of squares, and of a sum or difference of two products: the
  shapes the Montgomery formulas are built from.\<close>

lemma diff_squares:
  "valid x \<Longrightarrow> valid z \<Longrightarrow>
   valid (mul (sub (mul x x) (mul z z)) (sub (mul x x) (mul z z))) \<and>
   rep (mul (sub (mul x x) (mul z z)) (sub (mul x x) (mul z z)))
     = ((rep x * rep x - rep z * rep z) * (rep x * rep x - rep z * rep z)) mod p"
  by (simp add: laws mod_simps)

lemma cross_products:
  assumes "valid x2" and "valid z2" and "valid x3" and "valid z3" and "valid w"
  defines "da \<equiv> mul (add x2 z2) (sub x3 z3)" and "cb \<equiv> mul (add x3 z3) (sub x2 z2)"
  shows "valid (mul w (mul (add da cb) (add da cb))) \<and>
    rep (mul w (mul (add da cb) (add da cb))) =
      (rep w * (((rep x2 + rep z2) * (rep x3 - rep z3) + (rep x3 + rep z3) * (rep x2 - rep z2)) ^ 2)) mod p"
    and "valid (mul w (mul (sub da cb) (sub da cb))) \<and>
    rep (mul w (mul (sub da cb) (sub da cb))) =
      (rep w * (((rep x2 + rep z2) * (rep x3 - rep z3) - (rep x3 + rep z3) * (rep x2 - rep z2)) ^ 2)) mod p"
  using assms by (simp_all add: laws power2_eq_square mod_simps)

end

definition fe_valid :: "bytes \<Rightarrow> bool" where
  "fe_valid a \<longleftrightarrow> length a = 32"

definition fe_rep :: "bytes \<Rightarrow> int" where
  "fe_rep a = bval a mod P25519"

interpretation fe32: field_rep P25519 fe_valid fe_rep f25519_add f25519_sub f25519_mul_distinct
  by unfold_locales
    (simp_all add: fe_valid_def fe_rep_def f25519_add_val f25519_sub_val f25519_mul_distinct_val mod_simps)

lemma fe_mul_c_law:
  "fe_valid a \<Longrightarrow> 38 * uint b < 2 ^ 32 \<Longrightarrow>
   fe_valid (f25519_mul_c a b) \<and> fe_rep (f25519_mul_c a b) = (fe_rep a * uint b) mod P25519"
  using f25519_mul_c_val [of a b] by (simp add: fe_valid_def fe_rep_def mod_simps)

lemma bval_replicate_255: "bval (replicate n 255) = 256 ^ n - 1"
  by (induction n) simp_all

section \<open>Properties\<close>

text \<open>C7. On any two 32-byte operands, not only reduced ones, the word-based routines compute the
  sum, the difference and the product modulo \<open>2 ^ 255 - 19\<close>: no carry or borrow is lost by the fixed
  number of folding passes. For a constant below \<open>2 ^ 24\<close> (the header's bound) so does
  \<open>f25519_mul_c\<close>.\<close>

theorem f25519_arith_mod_p:
  assumes "length a = 32" and "length b = 32" and "uint c < 2 ^ 24"
  shows "bval (f25519_add a b) mod P25519 = (bval a + bval b) mod P25519 \<and>
    bval (f25519_sub a b) mod P25519 = (bval a - bval b) mod P25519 \<and>
    bval (f25519_mul a b) mod P25519 = (bval a * bval b) mod P25519 \<and>
    bval (f25519_mul_c a c) mod P25519 = (bval a * uint c) mod P25519"
  using f25519_add_val [OF assms(1,2)] f25519_sub_val [OF assms(1,2)]
    f25519_mul_distinct_val [OF assms(1,2)] f25519_mul_c_val [OF assms(1), of c] assms(3)
  by (simp add: f25519_mul_def)

theorem f25519_arith_mod_p_witness:
  "bval (f25519_add f25519_one f25519_one) mod P25519 = 2 mod P25519 \<and>
   bval (f25519_mul_c f25519_one 486662) mod P25519 = 486662 mod P25519"
  using f25519_arith_mod_p [of f25519_one f25519_one 486662] by simp

text \<open>\<open>f25519_normalize\<close> returns the unique representative in \<open>[0, p)\<close> of any value below
  \<open>2 ^ 256\<close>, and \<open>f25519_eq\<close> returns 1 exactly for two encodings of the same field element. The addition
  chains of the inversion and of the square root compute the powers Fermat's theorem asks for: \<open>f25519_inv\<close> is
  the \<open>(p - 2)\<close>-th power and \<open>f25519_sqrt\<close>, with \<open>v = (2 a) ^ (2 ^ 252 - 3)\<close>, is
  \<open>a v (2 a v\<^sup>2 - 1)\<close>, fully reduced.\<close>

lemma f25519_reduced_ops:
  assumes "length x = 32" and "length y = 32" and "v = (2 * bval x) ^ (2 ^ 252 - 3)"
  shows "bval (f25519_normalize x) = bval x mod P25519 \<and>
    f25519_eq x y = (if bval x mod P25519 = bval y mod P25519 then 1 else 0) \<and>
    bval (f25519_inv x) mod P25519 = bval x ^ nat (P25519 - 2) mod P25519 \<and>
    bval (f25519_sqrt x) = (v * bval x * (2 * bval x * (v * v) - 1)) mod P25519"
proof -
  have "nat (P25519 - 2) = 2 ^ 255 - 21" by (simp add: P25519_def)
  then have "bval (f25519_inv x) mod P25519 = bval x ^ nat (P25519 - 2) mod P25519"
    using fe_pow_inv [OF assms(1)] by (simp only: fe_pow_def f25519_inv_def Let_def)
  then show ?thesis
    using f25519_normalize_val [OF assms(1)] f25519_eq_val [OF assms(1,2)] f25519_sqrt_val [OF assms(1)] assms(3) by blast
qed

end
