(* ===== verification/F25519b.thy ===== *)
theory F25519b
  imports F25519
begin

text \<open>
  The byte-wise field arithmetic of \<open>src/x25519bench/c25519/f25519.c\<close>, the reference the word-based one was
  checked against on the machine. Accumulators are 16- or 32-bit words as declared; the loops that push a
  carry through the 32 bytes are shared here as \<open>walk\<close> (columns with the carry shifted in) and \<open>carry_loop\<close>
  (the final pass). The routines are those of \<open>F25519\<close> with suffix \<open>b\<close>.
\<close>

section \<open>The code\<close>

text \<open>\<open>c += column; r[i] = c; c >>= 8\<close>\<close>

fun walk :: "'a :: len word \<Rightarrow> 'a word list \<Rightarrow> 'a word \<times> bytes" where
  "walk c [] = (c, [])"
| "walk c (k # ks) = (let c = c + k; mr = walk (drop_bit 8 c) ks in (fst mr, ucast c # snd mr))"

text \<open>All columns; the carry of the last one is not shifted.\<close>

definition columns :: "'a :: len word \<Rightarrow> 'a word list \<Rightarrow> 'a word \<times> bytes" where
  "columns c ks = (let mr = walk c (butlast ks); c = fst mr + last ks in (c, snd mr @ [ucast c]))"

text \<open>\<open>c += r[i]; r[i] = c; c >>= 8\<close>, the last carry dropped.\<close>

fun carry_loop :: "'a :: len word \<Rightarrow> bytes \<Rightarrow> bytes" where
  "carry_loop c [] = []"
| "carry_loop c (x # xs) = (let c = c + ucast x in ucast c # carry_loop (drop_bit 8 c) xs)"

text \<open>\<open>r[31] &= 127; c = (c >> 7) * 19\<close> and the final pass.\<close>

definition finish :: "'a :: len word \<times> bytes \<Rightarrow> bytes" where
  "finish cr = carry_loop (drop_bit 7 (fst cr) * 19) ((snd cr)[31 := snd cr ! 31 AND 127])"

definition f25519b_load :: "u32 \<Rightarrow> bytes" where
  "f25519b_load c = map (\<lambda>i. ucast (drop_bit (8 * i) c)) [0..<4] @ replicate 28 0"

definition f25519b_select :: "bytes \<Rightarrow> bytes \<Rightarrow> u8 \<Rightarrow> bytes" where
  "f25519b_select zero one condition = map2 (\<lambda>z n. z XOR ((- condition) AND (n XOR z))) zero one"

definition minus_p :: "bytes \<Rightarrow> u16 \<times> bytes" where
  "minus_p x = (let mr = walk 19 (map ucast (take 31 x)); c = fst mr + (ucast (x ! 31) - 128) in (c, snd mr @ [ucast c]))"

definition f25519b_normalize :: "bytes \<Rightarrow> bytes" where
  "f25519b_normalize x =
     (let x = carry_loop (ucast (drop_bit 7 (x ! 31)) * 19 :: u16) (x[31 := x ! 31 AND 127]); cm = minus_p x
      in f25519b_select (snd cm) x (ucast (drop_bit 15 (fst cm) AND 1)))"

definition f25519b_eq :: "bytes \<Rightarrow> bytes \<Rightarrow> u8" where
  "f25519b_eq x y =
     (let s = foldl (\<lambda>s d. s OR d) 0 (map2 (XOR) x y);
          s = s OR drop_bit 4 s; s = s OR drop_bit 2 s; s = s OR drop_bit 1 s
      in (s XOR 1) AND 1)"

definition f25519b_add :: "bytes \<Rightarrow> bytes \<Rightarrow> bytes" where
  "f25519b_add a b = finish (columns (0 :: u16) (map2 (\<lambda>x y. ucast x + ucast y) a b))"

definition f25519b_sub :: "bytes \<Rightarrow> bytes \<Rightarrow> bytes" where
  "f25519b_sub a b = finish (columns (218 :: u32)
     (map2 (\<lambda>x y. 65280 + ucast x - ucast y) (take 31 a) (take 31 b) @ [ucast (a ! 31) - ucast (b ! 31)]))"

definition f25519b_neg :: "bytes \<Rightarrow> bytes" where
  "f25519b_neg a = finish (columns (218 :: u32) (map (\<lambda>x. 65280 - ucast x) (take 31 a) @ [- ucast (a ! 31)]))"

definition mul_col :: "bytes \<Rightarrow> bytes \<Rightarrow> nat \<Rightarrow> u32" where
  "mul_col a b i =
     sum_list (map (\<lambda>j. ucast (a ! j) * ucast (b ! (i - j))) [0..<Suc i])
     + sum_list (map (\<lambda>j. ucast (a ! j) * ucast (b ! (i + 32 - j)) * 38) [Suc i..<32])"

definition f25519b_mul_distinct :: "bytes \<Rightarrow> bytes \<Rightarrow> bytes" where
  "f25519b_mul_distinct a b = finish (columns (0 :: u32) (map (mul_col a b) [0..<32]))"

definition f25519b_mul :: "bytes \<Rightarrow> bytes \<Rightarrow> bytes" where
  "f25519b_mul a b = f25519b_mul_distinct a b"

definition f25519b_mul_c :: "bytes \<Rightarrow> u32 \<Rightarrow> bytes" where
  "f25519b_mul_c a b = finish (columns (0 :: u32) (map (\<lambda>x. b * ucast x) a))"

text \<open>One link of the chains: square, then times \<open>x\<close>.\<close>

definition sq_mul_b :: "bytes \<Rightarrow> bytes \<Rightarrow> bytes" where
  "sq_mul_b x r = f25519b_mul_distinct (f25519b_mul_distinct r r) x"

definition f25519b_inv_distinct :: "bytes \<Rightarrow> bytes" where
  "f25519b_inv_distinct x =
     (let r = f25519b_mul_distinct (f25519b_mul_distinct x x) x;
          r = (sq_mul_b x ^^ 248) r;
          s = f25519b_mul_distinct r r;
          s = sq_mul_b x s;
          r = f25519b_mul_distinct s s;
          r = sq_mul_b x r
      in sq_mul_b x r)"

definition f25519b_inv :: "bytes \<Rightarrow> bytes" where
  "f25519b_inv x = f25519b_inv_distinct x"

definition exp2523b :: "bytes \<Rightarrow> bytes" where
  "exp2523b x =
     (let s = f25519b_mul_distinct (f25519b_mul_distinct x x) x;
          s = (sq_mul_b x ^^ 248) s;
          r = f25519b_mul_distinct s s
      in sq_mul_b x r)"

definition f25519b_sqrt :: "bytes \<Rightarrow> bytes" where
  "f25519b_sqrt a =
     (let x = f25519b_mul_c a 2;
          v = exp2523b x;
          y = f25519b_mul_distinct v v;
          i = f25519b_mul_distinct x y;
          i = f25519b_sub i (f25519b_load 1);
          x = f25519b_mul_distinct v a
      in f25519b_mul_distinct x i)"

section \<open>Carries\<close>

lemma uint_add_fits: "uint (x :: 'a :: len word) + uint y < 2 ^ LENGTH('a) \<Longrightarrow> uint (x + y) = uint x + uint y"
  by (simp add: uint_plus_if_size word_size)

lemma uint_sub_fits: "uint y \<le> uint x \<Longrightarrow> uint (x - y) = uint x - uint (y :: 'a :: len word)"
  by (simp add: uint_sub_if_size)

lemma uint_low: "8 \<le> LENGTH('a) \<Longrightarrow> uint (ucast (v :: 'a :: len word) :: u8) = uint v mod 256"
  by (simp add: unsigned_ucast_eq take_bit_eq_mod)

lemma uint_shift: "uint (drop_bit n (v :: 'a :: len word)) = uint v div 2 ^ n"
  by (subst unsigned_drop_bit_eq) (simp add: drop_bit_eq_div take_bit_int_eq_self unsigned_less)

lemma uint_byte: "8 \<le> LENGTH('a) \<Longrightarrow> uint (ucast (x :: u8) :: 'a :: len word) = uint x"
proof -
  assume "8 \<le> LENGTH('a)"
  then have "(2 :: int) ^ 8 \<le> 2 ^ LENGTH('a)" by (rule power_increasing) simp
  moreover have "uint x < 2 ^ 8" using unsigned_less [of x, where 'a = int] by simp
  ultimately show ?thesis by (simp add: unsigned_ucast_eq take_bit_int_eq_self)
qed

fun cval :: "'a :: len word list \<Rightarrow> int" where
  "cval [] = 0"
| "cval (k # ks) = uint k + 256 * cval ks"

lemma walk_val:
  fixes c :: "'a :: len word"
  assumes "list_all (\<lambda>k. uint k \<le> K) ks" and "uint c \<le> D" and "K + D < 2 ^ LENGTH('a)" and "(K + D) div 256 \<le> D" and "8 \<le> LENGTH('a)"
  shows "length (snd (walk c ks)) = length ks \<and> uint (fst (walk c ks)) \<le> D \<and>
    bval (snd (walk c ks)) + 256 ^ length ks * uint (fst (walk c ks)) = uint c + cval ks"
  using assms(1,2)
proof (induction ks arbitrary: c)
  case (Cons k ks)
  have s: "uint (c + k) = uint c + uint k" using Cons.prems assms(3) by (intro uint_add_fits) simp
  have "uint (drop_bit 8 (c + k)) = (uint c + uint k) div 256" using uint_shift [of 8 "c + k"] s by simp
  also have "\<dots> \<le> (K + D) div 256" using Cons.prems by (intro zdiv_mono1) auto
  finally have "uint (drop_bit 8 (c + k)) \<le> D" using assms(4) by linarith
  from Cons.IH [OF _ this] Cons.prems have ih: "length (snd (walk (drop_bit 8 (c + k)) ks)) = length ks"
      "uint (fst (walk (drop_bit 8 (c + k)) ks)) \<le> D"
      "bval (snd (walk (drop_bit 8 (c + k)) ks)) + 256 ^ length ks * uint (fst (walk (drop_bit 8 (c + k)) ks)) = (uint c + uint k) div 256 + cval ks"
    using uint_shift [of 8 "c + k"] s by auto
  have "(uint c + uint k) mod 256 + 256 * ((uint c + uint k) div 256) = uint c + uint k" by simp
  moreover have "256 * (bval (snd (walk (drop_bit 8 (c + k)) ks)) + 256 ^ length ks * uint (fst (walk (drop_bit 8 (c + k)) ks)))
      = 256 * ((uint c + uint k) div 256 + cval ks)" using ih(3) by simp
  ultimately have "(uint c + uint k) mod 256 + 256 * bval (snd (walk (drop_bit 8 (c + k)) ks))
      + 256 * (256 ^ length ks * uint (fst (walk (drop_bit 8 (c + k)) ks))) = uint c + uint k + 256 * cval ks"
    unfolding distrib_left by linarith
  then show ?case using ih(1,2) uint_low [OF assms(5), of "c + k"] s by (simp add: Let_def algebra_simps)
qed simp

lemma carry_loop_val:
  fixes c :: "'a :: len word"
  assumes "uint c < 2 ^ LENGTH('a) - 255" and "16 \<le> LENGTH('a)"
  shows "length (carry_loop c xs) = length xs \<and> bval (carry_loop c xs) = (uint c + bval xs) mod 256 ^ length xs"
  using assms(1)
proof (induction xs arbitrary: c)
  case (Cons x xs)
  have x: "uint (ucast x :: 'a word) = uint x" "uint x < 256" "0 \<le> uint x"
    using uint_byte [of x, where 'a = 'a] assms(2) unsigned_less [of x, where 'a = int] by auto
  have s: "uint (c + ucast x) = uint c + uint x" using Cons.prems x by (subst uint_add_fits) auto
  let ?d = "drop_bit 8 (c + ucast x)"
  have d: "uint ?d = (uint c + uint x) div 256" using uint_shift [of 8 "c + ucast x"] s by simp
  have "(2 :: int) ^ LENGTH('a) = 256 * 2 ^ (LENGTH('a) - 8)"
    using power_add [of "2 :: int" 8 "LENGTH('a) - 8"] assms(2) by simp
  moreover have "(256 :: int) \<le> 2 ^ (LENGTH('a) - 8)"
    using power_increasing [of 8 "LENGTH('a) - 8" "2 :: int"] assms(2) by simp
  moreover have "uint ?d \<le> (2 ^ LENGTH('a)) div 256" unfolding d using Cons.prems x by (intro zdiv_mono1) auto
  ultimately have "uint ?d < 2 ^ LENGTH('a) - 255" by simp
  from Cons.IH [OF this] have ih: "length (carry_loop ?d xs) = length xs"
    "bval (carry_loop ?d xs) = ((uint c + uint x) div 256 + bval xs) mod 256 ^ length xs" by (auto simp: d)
  let ?t = "uint c + uint x"
  have eq: "?t + 256 * bval xs = ?t mod 256 + 256 * (?t div 256 + bval xs)" by (simp add: algebra_simps)
  have md: "(m + 256 * k) mod (256 * q) = m + 256 * (k mod q)" if "0 \<le> m" "m < 256" "0 < q" for m k q :: int
    using that by (simp add: zmod_zmult2_eq)
  have "(?t + 256 * bval xs) mod (256 * 256 ^ length xs) = ?t mod 256 + 256 * ((?t div 256 + bval xs) mod 256 ^ length xs)"
    unfolding eq by (rule md) simp_all
  then show ?case using ih uint_low [of "c + ucast x"] assms(2) s by (simp add: Let_def algebra_simps)
qed simp

lemma low7_u8: "uint (x AND 127 :: u8) = uint x mod 128"
proof -
  have "uint (x AND 127) = uint x AND mask 7" by (simp add: unsigned_and_eq mask_eq_exp_minus_1)
  also have "\<dots> = uint x mod 2 ^ 7" by (simp only: take_bit_eq_mask [symmetric] take_bit_eq_mod)
  finally show ?thesis by simp
qed

text \<open>The end of every routine: \<open>2 ^ 255\<close> folded back as 19.\<close>

lemma finish_val:
  fixes c :: "'a :: len word"
  assumes r: "length r = 31" and c: "19 * (uint c div 128) < 2 ^ LENGTH('a) - 255" "19 * (uint c div 128) < 2 ^ 255" and l: "16 \<le> LENGTH('a)"
  defines "S \<equiv> bval r + 256 ^ 31 * uint c"
  shows "length (finish (c, r @ [ucast c])) = 32"
    and "bval (finish (c, r @ [ucast c])) = S - P25519 * (uint c div 128)"
    and "bval (finish (c, r @ [ucast c])) < 2 ^ 255 + 19 * (uint c div 128)"
proof -
  let ?k = "uint c div 128"
  let ?x = "r @ [ucast c AND 127 :: u8]"
  have k: "uint (drop_bit 7 c * 19) = 19 * ?k"
  proof -
    have "uint (drop_bit 7 c) = ?k" using uint_shift [of 7 c] by simp
    moreover have "uint (19 :: 'a word) = 19"
    proof -
      have "(2 :: int) ^ 16 \<le> 2 ^ LENGTH('a)" using l by (rule power_increasing) simp
      then show ?thesis by (simp add: take_bit_int_eq_self)
    qed
    ultimately have "uint (drop_bit 7 c * 19) = (?k * 19) mod 2 ^ LENGTH('a)" by (simp add: uint_word_ariths)
    also have "\<dots> = ?k * 19" using c(1) by (intro mod_pos_pos_trivial) (simp_all add: pos_imp_zdiv_nonneg_iff)
    finally show ?thesis by simp
  qed
  have upd: "(r @ [ucast c :: u8])[31 := (r @ [ucast c]) ! 31 AND 127] = ?x" using r by (simp add: nth_append list_update_append)
  have low: "uint (ucast c AND 127 :: u8) = uint c mod 128"
    using uint_low [of c] l by (simp add: low7_u8 mod_mod_cancel)
  have bx: "bval ?x = bval r + 256 ^ 31 * (uint c mod 128)" using r low by (simp add: bval_append)
  have br: "bval r < 256 ^ 31"
  proof -
    have "bval (r @ [0]) < 2 ^ 256" using r by (intro bval_bound) simp
    have "bval zs < 256 ^ length zs" for zs
    proof (induction zs)
      case (Cons z zs)
      have "uint z < 256" using unsigned_less [of z, where 'a = int] by simp
      then show ?case using Cons by simp
    qed simp
    then show ?thesis using r by metis
  qed
  have "uint c mod 128 \<le> 127" using pos_mod_bound [of 128 "uint c"] by linarith
  then have "(256 :: int) ^ 31 * (uint c mod 128) \<le> 256 ^ 31 * 127" by (rule mult_left_mono) simp
  then have lt: "bval ?x < 2 ^ 255" using br unfolding bx by simp
  have cl: "length (carry_loop (drop_bit 7 c * 19) ?x) = 32"
      "bval (carry_loop (drop_bit 7 c * 19) ?x) = (19 * ?k + bval ?x) mod 256 ^ 32"
    using carry_loop_val [of "drop_bit 7 c * 19" ?x] k c(1) l r by simp_all
  have "0 \<le> 19 * ?k + bval ?x" using bval_nonneg [of ?x] by (simp add: pos_imp_zdiv_nonneg_iff)
  then have b: "bval (carry_loop (drop_bit 7 c * 19) ?x) = 19 * ?k + bval ?x"
    using cl(2) lt c(2) by (simp add: mod_pos_pos_trivial)
  have S: "S = bval ?x + 2 ^ 255 * ?k"
  proof -
    define q m where "q = uint c div 128" and "m = uint c mod 128"
    have "uint c = 128 * q + m" unfolding q_def m_def by simp
    then show ?thesis unfolding S_def bx q_def [symmetric] m_def [symmetric] by (simp add: algebra_simps)
  qed
  have f: "finish (c, r @ [ucast c]) = carry_loop (drop_bit 7 c * 19) ?x" by (simp only: finish_def fst_conv snd_conv upd)
  show "length (finish (c, r @ [ucast c])) = 32" by (simp only: f cl)
  show "bval (finish (c, r @ [ucast c])) = S - P25519 * ?k" unfolding f b S P25519_def by (simp add: algebra_simps)
  show "bval (finish (c, r @ [ucast c])) < 2 ^ 255 + 19 * ?k" unfolding f b using lt by simp
qed

text \<open>Columns, then the end: the value of a routine that adds up the columns \<open>ks\<close> without overflow, the last
  one possibly negative.\<close>

lemma columns_val:
  fixes c0 :: "'a :: len word"
  assumes ks: "length ks = 31" "list_all (\<lambda>k. uint k \<le> K) ks" "uint c0 \<le> D" "K + D < 2 ^ LENGTH('a)" "(K + D) div 256 \<le> D" "16 \<le> LENGTH('a)"
    and last: "\<And>m. uint m \<le> D \<Longrightarrow> bval (snd (walk c0 ks)) + 256 ^ 31 * uint m = uint c0 + cval ks \<Longrightarrow> uint (m + k) = uint m + kv"
    and top: "D + kv \<le> T" "19 * (T div 128) < 2 ^ LENGTH('a) - 255" "19 * (T div 128) < 2 ^ 254"
  shows "length (finish (columns c0 (ks @ [k]))) = 32"
    and "\<exists>q. bval (finish (columns c0 (ks @ [k]))) = uint c0 + cval ks + 256 ^ 31 * kv - P25519 * q"
    and "bval (finish (columns c0 (ks @ [k]))) < 2 ^ 255 + 2 ^ 254"
proof -
  let ?m = "fst (walk c0 ks)" and ?r = "snd (walk c0 ks)"
  have w: "length ?r = 31" "uint ?m \<le> D" "bval ?r + 256 ^ 31 * uint ?m = uint c0 + cval ks"
    using walk_val [OF ks(2,3,4,5)] ks(1,6) by auto
  have m: "uint (?m + k) = uint ?m + kv" by (rule last [OF w(2,3)])
  have "uint (?m + k) div 128 \<le> T div 128" using m w(2) top(1) by (intro zdiv_mono1) auto
  then have t: "19 * (uint (?m + k) div 128) < 2 ^ LENGTH('a) - 255" "19 * (uint (?m + k) div 128) < 2 ^ 254" using top by linarith+
  then have t': "19 * (uint (?m + k) div 128) < 2 ^ 255" by simp
  have c: "columns c0 (ks @ [k]) = (?m + k, ?r @ [ucast (?m + k)])" by (simp add: columns_def Let_def)
  note f = finish_val [OF w(1) t(1) t' ks(6)]
  show "length (finish (columns c0 (ks @ [k]))) = 32" unfolding c by (rule f(1))
  show "bval (finish (columns c0 (ks @ [k]))) < 2 ^ 255 + 2 ^ 254" unfolding c using f(3) t(2) by linarith
  have "bval (finish (columns c0 (ks @ [k]))) = uint c0 + cval ks + 256 ^ 31 * kv - P25519 * (uint (?m + k) div 128)"
    unfolding c f(2) m distrib_left using w(3) by linarith
  then show "\<exists>q. bval (finish (columns c0 (ks @ [k]))) = uint c0 + cval ks + 256 ^ 31 * kv - P25519 * q" ..
qed

lemma split31: "length a = 32 \<Longrightarrow> a = take 31 a @ [a ! 31]"
  using take_Suc_conv_app_nth [of 31 a] by simp

lemma bval31: "length a = 32 \<Longrightarrow> bval a = bval (take 31 a) + 256 ^ 31 * uint (a ! 31)"
  using bval_append [of "take 31 a" "[a ! 31]"] split31 [of a] by simp

lemma byte_range: "0 \<le> uint (x :: u8)" "uint (x :: u8) \<le> 255"
  using unsigned_less [of x, where 'a = int] by simp_all

text \<open>A result that stands for \<open>v\<close>.\<close>

definition stands_for :: "bytes \<Rightarrow> int \<Rightarrow> bool" where
  "stands_for r v \<longleftrightarrow> length r = 32 \<and> bval r mod P25519 = v mod P25519 \<and> bval r < 2 ^ 255 + 2 ^ 254"

lemma stands_forI:
  "length r = 32 \<Longrightarrow> \<exists>q. bval r = v - P25519 * q \<Longrightarrow> bval r < 2 ^ 255 + 2 ^ 254 \<Longrightarrow> stands_for r v"
  by (auto simp: stands_for_def mod_diff_eq [symmetric] simp flip: mod_diff_right_eq)

lemma cval_map2_add:
  "length a = length b \<Longrightarrow> (\<And>x y. uint (f x y :: 'a :: len word) = g x y) \<Longrightarrow>
   cval (map2 f a b) = (\<Sum>i < length a. 256 ^ i * g (a ! i) (b ! i))"
proof (induction a b rule: list_induct2)
  case (Cons x xs y ys)
  then show ?case by (simp add: sum.lessThan_Suc_shift sum_distrib_left mult.assoc del: sum.lessThan_Suc)
qed simp

lemma bval_sum: "bval a = (\<Sum>i < length a. 256 ^ i * uint (a ! i))"
proof (induction a)
  case (Cons x xs)
  then show ?case by (simp add: sum.lessThan_Suc_shift sum_distrib_left mult.assoc del: sum.lessThan_Suc)
qed simp

lemma f25519b_add_val:
  assumes "length a = 32" "length b = 32"
  shows "stands_for (f25519b_add a b) (bval a + bval b)"
proof -
  let ?f = "\<lambda>(x :: u8) (y :: u8). ucast x + ucast y :: u16"
  have f: "uint (?f x y) = uint x + uint y" for x y
    using byte_range [of x] byte_range [of y] by (subst uint_add_fits) (simp_all add: uint_byte)
  let ?ks = "map2 ?f (take 31 a) (take 31 b)"
  have s: "map2 ?f a b = ?ks @ [?f (a ! 31) (b ! 31)]"
    by (subst split31 [OF assms(1)], subst split31 [OF assms(2)]) (simp add: assms)
  have c: "cval ?ks = bval (take 31 a) + bval (take 31 b)"
    using cval_map2_add [of "take 31 a" "take 31 b" ?f, OF _ f] assms
    by (simp add: bval_sum [of "take 31 a"] bval_sum [of "take 31 b"] sum.distrib algebra_simps)
  have k: "length ?ks = 31" "list_all (\<lambda>k. uint k \<le> 510) ?ks"
    using assms byte_range by (auto simp: list_all_iff f set_zip intro: add_mono [of _ 255 _ 255, simplified])
  have last: "uint (m + ?f (a ! 31) (b ! 31)) = uint m + (uint (a ! 31) + uint (b ! 31))" if "uint m \<le> 10" for m :: u16
    using that byte_range [of "a ! 31"] byte_range [of "b ! 31"] by (subst uint_add_fits) (simp_all only: f, simp)
  note r = columns_val [where ?c0.0 = "0 :: u16" and D = 10 and K = 510 and T = 520, OF k, simplified]
  show ?thesis
    unfolding f25519b_add_def s
    by (rule stands_forI) (use r [OF last] byte_range [of "a ! 31"] byte_range [of "b ! 31"] bval31 assms c in \<open>simp_all add: algebra_simps\<close>)
qed

lemma bval31_less: "length r = 31 \<Longrightarrow> bval r < 256 ^ 31"
  using bval_bound [of "r @ [255]"] by (simp add: bval_append)

lemma sub_tail:
  assumes "length a = 32" "length b = 32" "bval b \<le> bval a + 2 * P25519"
    and "bval r + 256 ^ 31 * uint (m :: u32) = 218 + (\<Sum>i < 31. 256 ^ i * (65280 + uint (a ! i) - uint (b ! i)))"
    and "length r = 31" "uint m \<le> 256"
  shows "uint (m + (ucast (a ! 31) - ucast (b ! 31))) = uint m + (uint (a ! 31) - uint (b ! 31))"
proof -
  have c: "(\<Sum>i < 31. 256 ^ i * 65280 :: int) = 256 ^ 32 - 256" by code_simp
  have "(\<Sum>i < 31. 256 ^ i * (65280 + uint (a ! i) - uint (b ! i))) =
      (\<Sum>i < 31. 256 ^ i * 65280) + (\<Sum>i < 31. 256 ^ i * uint (a ! i)) - (\<Sum>i < 31. 256 ^ i * uint (b ! i))"
    by (simp add: sum.distrib sum_subtractf algebra_simps)
  also have "\<dots> = 256 ^ 32 - 256 + bval (take 31 a) - bval (take 31 b)"
    using assms(1,2) bval_sum [of "take 31 a"] bval_sum [of "take 31 b"] unfolding c by simp
  finally have e: "bval r + 256 ^ 31 * uint m = 256 ^ 32 - 38 + bval (take 31 a) - bval (take 31 b)" using assms(4) by simp
  have "bval r + 256 ^ 31 * (uint m + (uint (a ! 31) - uint (b ! 31))) = 2 * P25519 + bval a - bval b"
    using e bval31 [OF assms(1)] bval31 [OF assms(2)] by (simp add: P25519_def algebra_simps)
  then have "0 \<le> bval r + 256 ^ 31 * (uint m + (uint (a ! 31) - uint (b ! 31)))" using assms(3) by linarith
  then have nn: "0 \<le> uint m + uint (a ! 31) - uint (b ! 31)"
    using bval31_less [OF assms(5)] by simp
  have s: "uint (m + ucast (a ! 31)) = uint m + uint (a ! 31)"
    using assms(6) byte_range [of "a ! 31"] by (subst uint_add_fits) (simp_all add: uint_byte)
  have "uint (m + ucast (a ! 31) - ucast (b ! 31)) = uint (m + ucast (a ! 31)) - uint (ucast (b ! 31) :: u32)"
    using nn by (intro uint_sub_fits) (simp add: s uint_byte)
  then show ?thesis by (simp add: s uint_byte algebra_simps)
qed

lemma f25519b_sub_val:
  assumes "length a = 32" "length b = 32" "bval b \<le> bval a + 2 * P25519"
  shows "stands_for (f25519b_sub a b) (bval a - bval b)"
proof -
  let ?f = "\<lambda>(x :: u8) (y :: u8). 65280 + ucast x - ucast y :: u32"
  have f: "uint (?f x y) = 65280 + uint x - uint y" for x y
  proof -
    have s: "uint (65280 + ucast x :: u32) = 65280 + uint x"
      using byte_range [of x] by (subst uint_add_fits) (simp_all add: uint_byte)
    have "uint (?f x y) = uint (65280 + ucast x :: u32) - uint (ucast y :: u32)"
    proof (rule uint_sub_fits)
      have "uint (ucast y :: u32) = uint y" by (rule uint_byte) simp
      then show "uint (ucast y :: u32) \<le> uint (65280 + ucast x :: u32)"
        unfolding s using byte_range(1) [of x] byte_range(2) [of y] by linarith
    qed
    then show ?thesis by (simp add: s uint_byte)
  qed
  let ?ks = "map2 ?f (take 31 a) (take 31 b)"
  have c: "cval ?ks = (\<Sum>i < 31. 256 ^ i * (65280 + uint (a ! i) - uint (b ! i)))"
    using cval_map2_add [of "take 31 a" "take 31 b" ?f, OF _ f] assms(1,2) by simp
  have k: "length ?ks = 31" "list_all (\<lambda>k. uint k \<le> 65535) ?ks"
  proof -
    have "uint (?f x y) \<le> 65535" for x y using f [of x y] byte_range [of x] byte_range [of y] by linarith
    then show "list_all (\<lambda>k. uint k \<le> 65535) ?ks" by (auto simp: list_all_iff)
  qed (simp add: assms)
  have w: "length (snd (walk 218 ?ks)) = 31" using walk_val [OF k(2), of 218 256] k(1) by simp
  have last: "uint (m + (ucast (a ! 31) - ucast (b ! 31))) = uint m + (uint (a ! 31) - uint (b ! 31))"
    if "uint m \<le> 256" "bval (snd (walk 218 ?ks)) + 256 ^ 31 * uint m = uint (218 :: u32) + cval ?ks" for m :: u32
    using sub_tail [OF assms _ w that(1)] that(2) unfolding c by simp
  have c': "218 + cval ?ks + 256 ^ 31 * (uint (a ! 31) - uint (b ! 31)) = bval a - bval b + 2 * P25519"
  proof -
    have z: "(\<Sum>i < 31. 256 ^ i * 65280 :: int) = 256 ^ 32 - 256" by code_simp
    have "cval ?ks = (\<Sum>i < 31. 256 ^ i * 65280) + bval (take 31 a) - bval (take 31 b)"
      unfolding c using assms(1,2) by (simp add: bval_sum [of "take 31 a"] bval_sum [of "take 31 b"] sum.distrib sum_subtractf algebra_simps)
    then show ?thesis using bval31 [OF assms(1)] bval31 [OF assms(2)] unfolding z by (simp add: P25519_def algebra_simps)
  qed
  let ?k = "ucast (a ! 31) - ucast (b ! 31) :: u32" and ?kv = "uint (a ! 31) - uint (b ! 31)"
  have top: "256 + ?kv \<le> 511" using byte_range [of "a ! 31"] byte_range [of "b ! 31"] by linarith
  have d: "uint (218 :: u32) = 218" by simp
  have r: "length (f25519b_sub a b) = 32" "bval (f25519b_sub a b) < 2 ^ 255 + 2 ^ 254"
      "\<exists>q. bval (f25519b_sub a b) = uint (218 :: u32) + cval ?ks + 256 ^ 31 * ?kv - P25519 * q"
    unfolding f25519b_sub_def
    by (rule columns_val [OF k, of _ 256 ?k ?kv 511]; use last top in simp)+
  then obtain q where q: "bval (f25519b_sub a b) = bval a - bval b + 2 * P25519 - P25519 * q"
    unfolding d c' by blast
  show ?thesis
  proof (rule stands_forI)
    show "\<exists>q. bval (f25519b_sub a b) = bval a - bval b - P25519 * q"
      by (rule exI [of _ "q - 2"]) (simp add: q algebra_simps)
  qed (use r in simp_all)
qed

text \<open>Negation is subtraction from zero, column by column.\<close>

lemma f25519b_neg_sub: "length a = 32 \<Longrightarrow> f25519b_neg a = f25519b_sub f25519_zero a"
proof -
  assume l: "length a = 32"
  have "map2 (\<lambda>x y. 65280 + ucast x - ucast y :: u32) (replicate 31 (0 :: u8)) (take 31 a) = map (\<lambda>x. 65280 - ucast x) (take 31 a)"
    by (rule nth_equalityI) (use l in auto)
  moreover have "take 31 f25519_zero = replicate 31 0" "f25519_zero ! 31 = 0" by (simp_all add: f25519_zero_def)
  ultimately show ?thesis by (simp only: f25519b_neg_def f25519b_sub_def) simp
qed

section \<open>Products\<close>

lemma uint_sum_list:
  fixes ws :: "'a :: len word list"
  shows "sum_list (map uint ws) < 2 ^ LENGTH('a) \<Longrightarrow> uint (sum_list ws) = sum_list (map uint ws)"
proof (induction ws)
  case (Cons w ws)
  have "0 \<le> sum_list (map uint ws)" by (rule sum_list_nonneg) auto
  have "0 \<le> uint w" by simp
  then have "uint (sum_list ws) = sum_list (map uint ws)" using Cons.prems by (intro Cons.IH) (simp only: list.map sum_list.Cons)
  then show ?case using Cons.prems by (simp add: uint_add_fits)
qed simp

lemma sum_list_upt: "sum_list (map f [m..<n]) = (\<Sum>i = m..<n. f i)"
  by (simp add: interv_sum_list_conv_sum_set_nat)

text \<open>Column \<open>i\<close> of the product as an integer.\<close>

definition int_col :: "bytes \<Rightarrow> bytes \<Rightarrow> nat \<Rightarrow> int" where
  "int_col a b i = (\<Sum>j < 32. uint (a ! j) * (if j \<le> i then uint (b ! (i - j)) else 38 * uint (b ! (i + 32 - j))))"

lemma prod_byte:
  fixes x y :: u8
  shows "uint (ucast x * ucast y :: u32) = uint x * uint y" "uint (ucast x * ucast y * 38 :: u32) = uint x * (38 * uint y)"
    "uint x * uint y \<le> 65025" "0 \<le> uint x * uint y"
proof -
  have "uint x * uint y \<le> 255 * 255" using byte_range [of x] byte_range [of y] by (intro mult_mono) auto
  then show b: "uint x * uint y \<le> 65025" by simp
  show n: "0 \<le> uint x * uint y" by simp
  show p: "uint (ucast x * ucast y :: u32) = uint x * uint y"
    using b n by (simp add: uint_word_ariths uint_byte mod_pos_pos_trivial)
  show "uint (ucast x * ucast y * 38 :: u32) = uint x * (38 * uint y)"
    using b n by (subst uint_mult_lem [THEN iffD1]) (simp_all add: p)
qed

lemma int_col_split:
  assumes "i < 32"
  shows "int_col a b i = (\<Sum>j = 0..<Suc i. uint (a ! j) * uint (b ! (i - j))) + (\<Sum>j = Suc i..<32. uint (a ! j) * (38 * uint (b ! (i + 32 - j))))"
proof -
  let ?g = "\<lambda>j. uint (a ! j) * (if j \<le> i then uint (b ! (i - j)) else 38 * uint (b ! (i + 32 - j)))"
  have "int_col a b i = (\<Sum>j = 0..<32. ?g j)" by (simp add: int_col_def lessThan_atLeast0)
  also have "\<dots> = (\<Sum>j = 0..<Suc i. ?g j) + (\<Sum>j = Suc i..<32. ?g j)"
    using assms by (intro sum.atLeastLessThan_concat [symmetric]) auto
  also have "(\<Sum>j = 0..<Suc i. ?g j) = (\<Sum>j = 0..<Suc i. uint (a ! j) * uint (b ! (i - j)))" by (rule sum.cong) auto
  also have "(\<Sum>j = Suc i..<32. ?g j) = (\<Sum>j = Suc i..<32. uint (a ! j) * (38 * uint (b ! (i + 32 - j))))" by (rule sum.cong) auto
  finally show ?thesis .
qed

lemma int_col_bound: "0 \<le> int_col a b i" "int_col a b i \<le> 79070400"
proof -
  let ?g = "\<lambda>j. uint (a ! j) * (if j \<le> i then uint (b ! (i - j)) else 38 * uint (b ! (i + 32 - j)))"
  have g: "0 \<le> ?g j" "?g j \<le> 2470950" for j
    using prod_byte(3,4) [of "a ! j" "b ! (i - j)"] prod_byte(3,4) [of "a ! j" "b ! (i + 32 - j)"]
    by (auto simp: mult.left_commute [of _ 38])
  show "0 \<le> int_col a b i" unfolding int_col_def by (rule sum_nonneg) (use g in auto)
  have "int_col a b i \<le> of_nat (card {..<32 :: nat}) * 2470950" unfolding int_col_def by (rule sum_bounded_above) (rule g(2))
  then show "int_col a b i \<le> 79070400" by simp
qed

lemma mul_col_val: "i < 32 \<Longrightarrow> uint (mul_col a b i) = int_col a b i"
proof -
  assume i: "i < 32"
  let ?u = "map (\<lambda>j. ucast (a ! j) * ucast (b ! (i - j)) :: u32) [0..<Suc i]"
  let ?v = "map (\<lambda>j. ucast (a ! j) * ucast (b ! (i + 32 - j)) * 38 :: u32) [Suc i..<32]"
  have s: "sum_list (map uint (?u @ ?v)) = int_col a b i"
    unfolding int_col_split [OF i] by (simp add: sum_list_upt o_def prod_byte del: upt_Suc)
  have "mul_col a b i = sum_list (?u @ ?v)" by (simp add: mul_col_def)
  moreover have "uint (sum_list (?u @ ?v)) = int_col a b i"
    using uint_sum_list [of "?u @ ?v"] int_col_bound(2) [of a b i] s by simp
  ultimately show ?thesis by (simp only:)
qed

text \<open>Row \<open>j\<close>: \<open>256 ^ 32\<close> is 38 modulo the prime.\<close>

lemma row_mod:
  assumes "j < 32" "length b = 32"
  shows "\<exists>q. (\<Sum>i < 32. 256 ^ i * (if j \<le> i then uint (b ! (i - j)) else 38 * uint (b ! (i + 32 - j)))) = 256 ^ j * bval b - P25519 * q"
proof -
  let ?B = "\<lambda>k. uint (b ! k)"
  have up: "(\<Sum>i = j..<32. 256 ^ i * ?B (i - j)) = (\<Sum>k = 0..<32 - j. 256 ^ (k + j) * ?B k)"
    by (rule sum.reindex_bij_witness [where i = "\<lambda>k. k + j" and j = "\<lambda>i. i - j"]) (use assms in auto)
  have lo: "(\<Sum>i = 0..<j. 256 ^ i * ?B (i + 32 - j)) = (\<Sum>k = 32 - j..<32. 256 ^ (k + j - 32) * ?B k)"
    by (rule sum.reindex_bij_witness [where i = "\<lambda>k. k + j - 32" and j = "\<lambda>i. i + 32 - j"]) (use assms in auto)
  define L where "L = (\<Sum>k = 32 - j..<32. 256 ^ (k + j - 32) * ?B k)"
  have "(\<Sum>i < 32. 256 ^ i * (if j \<le> i then ?B (i - j) else 38 * ?B (i + 32 - j)))
      = (\<Sum>i = 0..<j. 256 ^ i * (38 * ?B (i + 32 - j))) + (\<Sum>i = j..<32. 256 ^ i * ?B (i - j))"
  proof -
    let ?g = "\<lambda>i. 256 ^ i * (if j \<le> i then ?B (i - j) else 38 * ?B (i + 32 - j))"
    have "(\<Sum>i < 32. ?g i) = (\<Sum>i = 0..<j. ?g i) + (\<Sum>i = j..<32. ?g i)"
      unfolding lessThan_atLeast0 by (rule sum.atLeastLessThan_concat [symmetric]) (use assms in auto)
    moreover have "(\<Sum>i = 0..<j. ?g i) = (\<Sum>i = 0..<j. 256 ^ i * (38 * ?B (i + 32 - j)))" by (rule sum.cong) auto
    moreover have "(\<Sum>i = j..<32. ?g i) = (\<Sum>i = j..<32. 256 ^ i * ?B (i - j))" by (rule sum.cong) auto
    ultimately show ?thesis by simp
  qed
  also have "(\<Sum>i = 0..<j. 256 ^ i * (38 * ?B (i + 32 - j))) = 38 * L"
    unfolding L_def lo [symmetric] by (simp add: sum_distrib_left mult.left_commute)
  also have "(\<Sum>i = j..<32. 256 ^ i * ?B (i - j)) = (\<Sum>k = 0..<32 - j. 256 ^ (k + j) * ?B k)" by (rule up)
  finally have lhs: "(\<Sum>i < 32. 256 ^ i * (if j \<le> i then ?B (i - j) else 38 * ?B (i + 32 - j))) = 38 * L + (\<Sum>k = 0..<32 - j. 256 ^ (k + j) * ?B k)" .
  have hi: "(\<Sum>k = 32 - j..<32. 256 ^ (k + j) * ?B k) = 256 ^ 32 * L"
    unfolding L_def sum_distrib_left
  proof (rule sum.cong [OF refl])
    fix k assume "k \<in> {32 - j..<32}"
    then have "k + j = 32 + (k + j - 32)" using assms by auto
    then have "(256 :: int) ^ (k + j) = 256 ^ 32 * 256 ^ (k + j - 32)" by (metis power_add)
    then show "256 ^ (k + j) * ?B k = 256 ^ 32 * (256 ^ (k + j - 32) * ?B k)" by (simp only: mult.assoc)
  qed
  have "256 ^ j * bval b = (\<Sum>k = 0..<32. 256 ^ (k + j) * ?B k)"
    using assms(2) by (simp add: bval_sum lessThan_atLeast0 sum_distrib_left power_add mult.assoc mult.left_commute)
  also have "\<dots> = (\<Sum>k = 0..<32 - j. 256 ^ (k + j) * ?B k) + (\<Sum>k = 32 - j..<32. 256 ^ (k + j) * ?B k)"
    by (simp add: sum.atLeastLessThan_concat)
  finally have "256 ^ j * bval b = (\<Sum>k = 0..<32 - j. 256 ^ (k + j) * ?B k) + 256 ^ 32 * L" using hi by simp
  then show ?thesis unfolding lhs by (intro exI [of _ "2 * L"]) (simp add: P25519_def algebra_simps)
qed

lemma cval_sum: "cval (map f [0..<n]) = (\<Sum>i < n. 256 ^ i * uint (f i))"
proof -
  have "cval (map f [m..<m + n]) = (\<Sum>i < n. 256 ^ i * uint (f (m + i)))" for m
  proof (induction n arbitrary: m)
    case (Suc n)
    have "[m..<m + Suc n] = m # [Suc m..<Suc m + n]" by (simp add: upt_conv_Cons)
    then show ?case using Suc.IH [of "Suc m"]
      by (simp add: sum.lessThan_Suc_shift sum_distrib_left mult.assoc del: sum.lessThan_Suc upt_Suc)
  qed simp
  from this [of 0] show ?thesis by simp
qed

lemma convolution:
  assumes "length a = 32" "length b = 32"
  shows "\<exists>q. (\<Sum>i < 32. 256 ^ i * int_col a b i) = bval a * bval b - P25519 * q"
proof -
  let ?t = "\<lambda>j i. if j \<le> i then uint (b ! (i - j)) else 38 * uint (b ! (i + 32 - j))"
  have "\<forall>j \<in> {..<32}. \<exists>q. (\<Sum>i < 32. 256 ^ i * ?t j i) = 256 ^ j * bval b - P25519 * q"
    using row_mod [OF _ assms(2)] by blast
  then obtain q where q: "(\<Sum>i < 32. 256 ^ i * ?t j i) = 256 ^ j * bval b - P25519 * q j" if "j < 32" for j
    unfolding bchoice_iff by auto
  have "(\<Sum>i < 32. 256 ^ i * int_col a b i) = (\<Sum>i < 32. \<Sum>j < 32. uint (a ! j) * (256 ^ i * ?t j i))"
    unfolding int_col_def sum_distrib_left by (intro sum.cong refl) (simp only: mult.left_commute)
  also have "\<dots> = (\<Sum>j < 32. \<Sum>i < 32. uint (a ! j) * (256 ^ i * ?t j i))" by (rule sum.swap)
  also have "\<dots> = (\<Sum>j < 32. uint (a ! j) * (256 ^ j * bval b - P25519 * q j))"
    unfolding sum_distrib_left [symmetric] by (rule sum.cong) (use q in auto)
  also have "\<dots> = (\<Sum>j < 32. 256 ^ j * uint (a ! j)) * bval b - P25519 * (\<Sum>j < 32. uint (a ! j) * q j)"
    by (simp add: right_diff_distrib sum_subtractf sum_distrib_left sum_distrib_right mult.assoc mult.left_commute)
  finally show ?thesis using assms(1) by (auto simp: bval_sum [of a])
qed

lemma f25519b_mul_val:
  assumes "length a = 32" "length b = 32"
  shows "stands_for (f25519b_mul_distinct a b) (bval a * bval b)"
proof -
  let ?ks = "map (mul_col a b) [0..<31]"
  have "[0..<Suc 31] = [0..<31] @ [31]" by (rule upt_Suc_append) simp
  then have s: "map (mul_col a b) [0..<32] = ?ks @ [mul_col a b 31]" by (simp del: upt_Suc)
  have k: "length ?ks = 31" "list_all (\<lambda>k. uint k \<le> 79070400) ?ks"
    using int_col_bound(2) by (auto simp: list_all_iff mul_col_val)
  have last: "uint (m + mul_col a b 31) = uint m + int_col a b 31" if "uint m \<le> 320000" for m
    using that int_col_bound [of a b 31] mul_col_val [of 31 a b] by (subst uint_add_fits) simp_all
  have r: "length (f25519b_mul_distinct a b) = 32" "bval (f25519b_mul_distinct a b) < 2 ^ 255 + 2 ^ 254"
      "\<exists>q. bval (f25519b_mul_distinct a b) = uint (0 :: u32) + cval ?ks + 256 ^ 31 * int_col a b 31 - P25519 * q"
    unfolding f25519b_mul_distinct_def s
    by (rule columns_val [OF k, of _ 320000 _ "int_col a b 31" 79391600]; use last int_col_bound(2) [of a b 31] in simp)+
  have c: "uint (0 :: u32) + cval ?ks + 256 ^ 31 * int_col a b 31 = (\<Sum>i < 32. 256 ^ i * int_col a b i)"
  proof -
    have "cval ?ks = (\<Sum>i < 31. 256 ^ i * int_col a b i)"
      unfolding cval_sum by (rule sum.cong) (simp_all add: mul_col_val)
    moreover have "(\<Sum>i < Suc 31. 256 ^ i * int_col a b i) = (\<Sum>i < 31. 256 ^ i * int_col a b i) + 256 ^ 31 * int_col a b 31"
      by (rule sum.lessThan_Suc)
    ultimately show ?thesis by simp
  qed
  from r(3) obtain q1 where q1: "bval (f25519b_mul_distinct a b) = (\<Sum>i < 32. 256 ^ i * int_col a b i) - P25519 * q1"
    unfolding c by blast
  obtain q2 where q2: "(\<Sum>i < 32. 256 ^ i * int_col a b i) = bval a * bval b - P25519 * q2" using convolution [OF assms] by blast
  show ?thesis
    by (rule stands_forI [OF r(1) exI [of _ "q1 + q2"] r(2)]) (simp only: q1 q2 distrib_left)
qed

lemma f25519b_mul_c_val:
  assumes "length a = 32" "uint b < 2 ^ 24"
  shows "stands_for (f25519b_mul_c a b) (bval a * uint b)"
proof -
  have p: "uint (b * ucast x) = uint b * uint x" "uint b * uint x \<le> 4278189825" "0 \<le> uint b * uint x" for x :: u8
  proof -
    have "uint b * uint x \<le> 16777215 * 255" using assms(2) byte_range [of x] by (intro mult_mono) auto
    then show le: "uint b * uint x \<le> 4278189825" by simp
    show "0 \<le> uint b * uint x" by simp
    then show "uint (b * ucast x) = uint b * uint x" using le by (simp add: uint_word_ariths uint_byte mod_pos_pos_trivial)
  qed
  let ?f = "\<lambda>x :: u8. b * ucast x"
  let ?ks = "map ?f (take 31 a)"
  have s: "map ?f a = ?ks @ [?f (a ! 31)]" by (subst split31 [OF assms(1)]) simp
  have k: "length ?ks = 31" "list_all (\<lambda>k. uint k \<le> 4278189825) ?ks"
    using assms(1) p by (auto simp: list_all_iff)
  have last: "uint (m + ?f (a ! 31)) = uint m + uint b * uint (a ! 31)" if "uint m \<le> 16777216" for m
    using that p [of "a ! 31"] by (subst uint_add_fits) simp_all
  have r: "length (f25519b_mul_c a b) = 32" "bval (f25519b_mul_c a b) < 2 ^ 255 + 2 ^ 254"
      "\<exists>q. bval (f25519b_mul_c a b) = uint (0 :: u32) + cval ?ks + 256 ^ 31 * (uint b * uint (a ! 31)) - P25519 * q"
    unfolding f25519b_mul_c_def s
    by (rule columns_val [OF k, of _ 16777216 _ "uint b * uint (a ! 31)" 4294967041]; use last p(2) [of "a ! 31"] in simp)+
  have "cval (map ?f xs) = uint b * bval xs" for xs by (induction xs) (simp_all add: p algebra_simps)
  then have "uint (0 :: u32) + cval ?ks + 256 ^ 31 * (uint b * uint (a ! 31)) = bval a * uint b"
    using bval31 [OF assms(1)] by (simp add: algebra_simps)
  then show ?thesis using stands_forI [OF r(1) _ r(2)] r(3) by simp
qed

section \<open>Full reduction and comparison\<close>

lemma f25519b_select_same: "f25519b_select = f25519_select"
  by (intro ext) (simp add: f25519b_select_def f25519_select_def)

lemma f25519b_load_same: "f25519b_load c = f25519_load c"
  by (simp add: f25519b_load_def f25519_load_def le32_def upt_rec)

lemma cval_bytes: "8 \<le> LENGTH('a) \<Longrightarrow> cval (map ucast xs :: 'a :: len word list) = bval xs"
  by (induction xs) (simp_all add: uint_byte)

lemma minus_p_val:
  assumes x: "length x = 32" and lt: "bval x < 2 ^ 255 + 19"
  shows "length (snd (minus_p x)) = 32"
    and "ucast (drop_bit 15 (fst (minus_p x)) AND 1) = (if bval x < P25519 then 1 else 0 :: u8)"
    and "P25519 \<le> bval x \<Longrightarrow> bval (snd (minus_p x)) = bval x - P25519"
proof -
  define mr where "mr = walk (19 :: u16) (map ucast (take 31 x))"
  have "list_all (\<lambda>k. uint k \<le> 255) (map ucast (take 31 x) :: u16 list)"
    using byte_range(2) by (auto simp: list_all_iff uint_byte)
  from walk_val [OF this, of 19 19] have mr: "length (snd mr) = 31" "uint (fst mr) \<le> 19"
      "bval (snd mr) + 256 ^ 31 * uint (fst mr) = 19 + bval (take 31 x)"
    using x by (simp_all add: mr_def cval_bytes min_def)
  define k where "k = uint (fst mr) + uint (x ! 31)"
  have k: "bval (snd mr) + 256 ^ 31 * k = 19 + bval x" using mr(3) bval31 [OF x] by (simp add: k_def distrib_left)
  have kr: "0 \<le> k" "k \<le> 274" using mr(2) byte_range [of "x ! 31"] by (simp_all add: k_def)
  have "bval (snd mr) < 256 ^ 31" "0 \<le> bval (snd mr)" using bval31_less [OF mr(1)] bval_nonneg by auto
  then have big: "128 \<le> k \<longleftrightarrow> P25519 \<le> bval x" using k by (cases "128 \<le> k") (simp_all add: P25519_def)
  have mp: "minus_p x = (fst mr + (ucast (x ! 31) - 128), snd mr @ [ucast (fst mr + (ucast (x ! 31) - 128))])"
    by (simp add: minus_p_def mr_def Let_def)
  have s: "fst mr + (ucast (x ! 31) - 128) = word_of_int (k - 128)"
    by (simp add: k_def uint_byte [symmetric, where 'a = 16])
  show "length (snd (minus_p x)) = 32" using mr(1) by (simp add: mp)
  have u: "uint (word_of_int (k - 128) :: u16) = (if k < 128 then k + 65408 else k - 128)"
  proof (cases "k < 128")
    case True
    have "(k - 128) mod 65536 = (k - 128 + 65536) mod 65536" by (rule mod_add_self2 [symmetric])
    also have "\<dots> = k + 65408" using True kr by (subst mod_pos_pos_trivial) auto
    finally show ?thesis using True uint_word_of_int [of "k - 128", where 'a = 16] by simp
  next
    case False
    then have "(k - 128) mod 65536 = k - 128" using kr by (intro mod_pos_pos_trivial) simp_all
    then show ?thesis using False uint_word_of_int [of "k - 128", where 'a = 16] by simp
  qed
  have t: "uint (drop_bit 15 (word_of_int (k - 128) :: u16)) = (if k < 128 then 1 else 0)"
    using kr unfolding uint_shift u by auto
  then have "drop_bit 15 (word_of_int (k - 128) :: u16) = (if k < 128 then 1 else 0)"
    by (auto simp: word_eq_iff_unsigned [where 'a = int] split: if_splits)
  then show "ucast (drop_bit 15 (fst (minus_p x)) AND 1) = (if bval x < P25519 then 1 else 0 :: u8)"
    using big by (auto simp: mp s)
  assume ge: "P25519 \<le> bval x"
  then have "bval x - P25519 < 38" using lt by (simp add: P25519_def)
  then have "k - 128 < 256" using k kr by simp
  have "uint (ucast (word_of_int (k - 128) :: u16) :: u8) = (k - 128) mod 256"
    using uint_low [of "word_of_int (k - 128) :: u16"] u ge big by simp
  also have "\<dots> = k - 128" using ge big kr by (intro mod_pos_pos_trivial) simp_all
  finally have u8: "uint (ucast (word_of_int (k - 128) :: u16) :: u8) = k - 128" .
  have "snd (minus_p x) = snd mr @ [ucast (word_of_int (k - 128) :: u16)]" by (simp only: mp s snd_conv)
  then have "bval (snd (minus_p x)) = bval (snd mr) + 256 ^ 31 * (k - 128)"
    using mr(1) by (simp only: bval_append bval.simps u8) simp
  then show "bval (snd (minus_p x)) = bval x - P25519" using k by (simp add: P25519_def algebra_simps)
qed

lemma f25519b_normalize_val:
  assumes "length x = 32"
  shows "bval (f25519b_normalize x) = bval x mod P25519 \<and> length (f25519b_normalize x) = 32"
proof -
  define c where "c = (ucast (drop_bit 7 (x ! 31)) * 19 :: u16)"
  define y where "y = carry_loop c (x[31 := x ! 31 AND 127])"
  define q m where "q = uint (x ! 31) div 128" and "m = uint (x ! 31) mod 128"
  have qm: "uint (x ! 31) = 128 * q + m" "0 \<le> q" "q \<le> 1" "m \<le> 127" "0 \<le> m"
    using byte_range [of "x ! 31"] by (auto simp: q_def m_def pos_imp_zdiv_nonneg_iff)
  have c: "uint c = 19 * q"
  proof -
    have "uint (ucast (drop_bit 7 (x ! 31)) :: u16) = q" using uint_shift [of 7 "x ! 31"] by (simp add: uint_byte q_def)
    then show ?thesis unfolding c_def using qm by (simp add: uint_word_ariths mod_pos_pos_trivial)
  qed
  have low: "bval (x[31 := x ! 31 AND 127]) = bval (take 31 x) + 256 ^ 31 * m"
    using bval31 [of "x[31 := x ! 31 AND 127]"] assms by (simp add: low7_u8 m_def)
  have "(256 :: int) ^ 31 * m \<le> 256 ^ 31 * 127" using qm(4) by (rule mult_left_mono) simp
  then have "bval (take 31 x) + 256 ^ 31 * m < 2 ^ 255" using bval31_less [of "take 31 x"] assms by simp
  moreover have "0 \<le> bval (take 31 x) + 256 ^ 31 * m" using bval_nonneg [of "take 31 x"] qm(5) by simp
  ultimately have y: "length y = 32" "bval y = 19 * q + (bval (take 31 x) + 256 ^ 31 * m)" "bval y < 2 ^ 255 + 19"
    using carry_loop_val [of c "x[31 := x ! 31 AND 127]"] c qm(2,3) assms
    by (simp_all add: y_def low mod_pos_pos_trivial)
  have "bval x = bval y + P25519 * q"
    using bval31 [OF assms] y(2) qm(1) by (simp add: P25519_def algebra_simps)
  then have e: "bval x mod P25519 = bval y mod P25519" by simp
  have sel: "f25519b_normalize x = (if bval y < P25519 then y else snd (minus_p y))"
    using minus_p_val(1,2) [OF y(1,3)] y(1) unfolding f25519b_normalize_def c_def [symmetric] Let_def y_def [symmetric]
    by (simp add: f25519b_select_same f25519_select_val)
  have "bval y - P25519 < P25519" using y(3) by (simp add: P25519_def)
  then have "bval y mod P25519 = (if bval y < P25519 then bval y else bval y - P25519)"
    using bval_nonneg [of y] minus_mod_self2 [of "bval y" P25519, symmetric]
    by (cases "bval y < P25519") (simp_all add: mod_pos_pos_trivial del: minus_mod_self2)
  then show ?thesis using minus_p_val(1,3) [OF y(1,3)] y(1) e sel by simp
qed

lemma f25519b_eq_val:
  assumes "length x = 32" and "length y = 32"
  shows "f25519b_eq x y = (if x = y then 1 else 0)"
proof -
  define s where "s = foldl (\<lambda>s d. s OR d) 0 (map2 (\<lambda>p q. p XOR q) x y)"
  have "s = 0 \<longleftrightarrow> (\<forall>i < 32. x ! i = y ! i)"
    using assms by (auto simp: s_def foldl_or_zero xor_zero set_zip)
  then have "s = 0 \<longleftrightarrow> x = y" using assms by (auto simp: list_eq_iff_nth_eq)
  then show ?thesis using or_cascade [OF refl refl refl, of s] by (simp add: f25519b_eq_def Let_def s_def)
qed

section \<open>The interface, and powers\<close>

definition fe8_valid :: "bytes \<Rightarrow> bool" where
  "fe8_valid a \<longleftrightarrow> length a = 32 \<and> bval a < 2 ^ 255 + 2 ^ 254"

lemma fe8_rep: "stands_for r v \<Longrightarrow> fe8_valid r \<and> fe_rep r = v mod P25519"
  by (simp add: stands_for_def fe8_valid_def fe_rep_def)

lemma fe8_sub_range: "fe8_valid a \<Longrightarrow> fe8_valid b \<Longrightarrow> bval b \<le> bval a + 2 * P25519"
  using bval_nonneg [of a] by (simp add: fe8_valid_def P25519_def)

interpretation fe8: field_rep P25519 fe8_valid fe_rep f25519b_add f25519b_sub f25519b_mul_distinct
proof unfold_locales
  fix a b assume v: "fe8_valid a" "fe8_valid b"
  then have l: "length a = 32" "length b = 32" by (simp_all add: fe8_valid_def)
  show "fe8_valid (f25519b_add a b) \<and> fe_rep (f25519b_add a b) = (fe_rep a + fe_rep b) mod P25519"
    using fe8_rep [OF f25519b_add_val [OF l]] by (simp add: fe_rep_def mod_simps)
  show "fe8_valid (f25519b_sub a b) \<and> fe_rep (f25519b_sub a b) = (fe_rep a - fe_rep b) mod P25519"
    using fe8_rep [OF f25519b_sub_val [OF l fe8_sub_range [OF v]]] by (simp add: fe_rep_def mod_simps)
  show "fe8_valid (f25519b_mul_distinct a b) \<and> fe_rep (f25519b_mul_distinct a b) = (fe_rep a * fe_rep b) mod P25519"
    using fe8_rep [OF f25519b_mul_val [OF l]] by (simp add: fe_rep_def mod_simps)
qed

text \<open>Powers of a base \<open>b\<close>, kept through products: the addition chains only add exponents.\<close>

context field_rep
begin

lemma pow_mul:
  "valid r \<and> rep r = b ^ m mod p \<Longrightarrow> valid s \<and> rep s = b ^ n mod p \<Longrightarrow>
   valid (mul r s) \<and> rep (mul r s) = b ^ (m + n) mod p"
  using mul_law [of r s] by (simp add: power_add mod_simps)

lemma pow_sq_mul:
  "valid r \<and> rep r = b ^ m mod p \<Longrightarrow> valid x \<and> rep x = b ^ 1 mod p \<Longrightarrow>
   valid (mul (mul r r) x) \<and> rep (mul (mul r r) x) = b ^ (m + m + 1) mod p"
  by (intro pow_mul)

lemma pow_ones:
  fixes n :: nat
  assumes "valid x \<and> rep x = b ^ 1 mod p" and "valid r \<and> rep r = b ^ (2 ^ k - 1) mod p"
  defines "r' \<equiv> ((\<lambda>r. mul (mul r r) x) ^^ n) r"
  shows "valid r' \<and> rep r' = b ^ (2 ^ (k + n) - 1) mod p"
  unfolding r'_def
proof (induction n)
  case (Suc n)
  have "1 \<le> (2 :: nat) ^ (k + n)" by simp
  then have "2 ^ (k + n) - 1 + (2 ^ (k + n) - 1) + 1 = 2 ^ (k + Suc n) - (1 :: nat)"
    unfolding add_Suc_right power_Suc by linarith
  then show ?case using pow_sq_mul [OF Suc.IH assms(1)] by (simp only: funpow.simps comp_apply)
qed (use assms(2) in simp)

lemma pow_250:
  assumes "valid x \<and> rep x = b ^ 1 mod p"
  defines "r \<equiv> ((\<lambda>r. mul (mul r r) x) ^^ 248) (mul (mul x x) x)"
  shows "valid r \<and> rep r = b ^ (2 ^ 250 - 1) mod p"
proof -
  have e: "1 + 1 + 1 = 2 ^ 2 - (1 :: nat)" "2 + 248 = (250 :: nat)" by simp_all
  show ?thesis using pow_ones [OF assms(1), of "mul (mul x x) x" 2 248] pow_sq_mul [OF assms(1) assms(1)]
    unfolding r_def e by blast
qed

end

lemma sq_mul_b_fun: "sq_mul_b x = (\<lambda>r. f25519b_mul_distinct (f25519b_mul_distinct r r) x)"
  by (rule ext) (simp add: sq_mul_b_def)

text \<open>Any 32 bytes may enter a chain: the first products bring them into range.\<close>

definition pow8 :: "int \<Rightarrow> nat \<Rightarrow> bytes \<Rightarrow> bool" where
  "pow8 b n r \<longleftrightarrow> fe8_valid r \<and> fe_rep r = b ^ n mod P25519"

lemma pow8_I: "fe8_valid x \<Longrightarrow> pow8 (bval x) 1 x"
  by (simp add: pow8_def fe_rep_def)

lemma pow8_mul: "pow8 b m r \<Longrightarrow> pow8 b n s \<Longrightarrow> pow8 b (m + n) (f25519b_mul_distinct r s)"
  unfolding pow8_def by (rule fe8.pow_mul)

lemma pow8_250: "pow8 b 1 x \<Longrightarrow> pow8 b (2 ^ 250 - 1) ((sq_mul_b x ^^ 248) (f25519b_mul_distinct (f25519b_mul_distinct x x) x))"
  unfolding pow8_def sq_mul_b_fun by (rule fe8.pow_250)

lemma pow8_inv: "pow8 b 1 x \<Longrightarrow> pow8 b (2 ^ 255 - 21) (f25519b_inv x)"
proof -
  assume x: "pow8 b 1 x"
  note s1 = pow8_mul [OF pow8_250 [OF x] pow8_250 [OF x]]
  note s2 = pow8_mul [OF pow8_mul [OF s1 s1] x]
  note r3 = pow8_mul [OF s2 s2]
  note r4 = pow8_mul [OF pow8_mul [OF r3 r3] x]
  note r5 = pow8_mul [OF pow8_mul [OF r4 r4] x]
  from r5 show ?thesis by (simp add: f25519b_inv_def f25519b_inv_distinct_def sq_mul_b_def [of x "f25519b_mul_distinct _ _"] Let_def)
qed

lemma pow8_2523: "pow8 b 1 x \<Longrightarrow> pow8 b (2 ^ 252 - 3) (exp2523b x)"
proof -
  assume x: "pow8 b 1 x"
  note r1 = pow8_mul [OF pow8_250 [OF x] pow8_250 [OF x]]
  note r2 = pow8_mul [OF pow8_mul [OF r1 r1] x]
  from r2 show ?thesis by (simp add: exp2523b_def sq_mul_b_def [of x "f25519b_mul_distinct _ _"] Let_def)
qed

lemma f25519b_sqrt_val:
  assumes "length a = 32"
  defines "v \<equiv> (2 * bval a) ^ (2 ^ 252 - 3)"
  shows "fe8_valid (f25519b_sqrt a) \<and> fe_rep (f25519b_sqrt a) = (v * bval a * (2 * bval a * (v * v) - 1)) mod P25519"
proof -
  let ?x = "f25519b_mul_c a 2"
  let ?v = "exp2523b ?x"
  let ?i = "f25519b_mul_distinct ?x (f25519b_mul_distinct ?v ?v)"
  have x: "fe8_valid ?x" "fe_rep ?x = (2 * bval a) mod P25519"
    using fe8_rep [OF f25519b_mul_c_val [OF assms(1), of 2]] by (simp_all add: mult.commute)
  then have "pow8 (2 * bval a) 1 ?x" by (simp add: pow8_def)
  from pow8_2523 [OF this] have v: "fe8_valid ?v" "fe_rep ?v = v mod P25519" by (simp_all only: pow8_def v_def)
  have i: "fe8_valid ?i" "fe_rep ?i = (2 * bval a * (v * v)) mod P25519"
    using fe8.mul_law [OF x(1) conjunct1 [OF fe8.mul_law [OF v(1) v(1)]]] fe8.mul_law [OF v(1) v(1)]
    by (simp_all add: x v mod_simps)
  have o: "fe8_valid (f25519b_load 1)" "fe_rep (f25519b_load 1) = 1 mod P25519"
    using f25519_load_val [of 1] by (simp_all add: f25519b_load_same fe8_valid_def fe_rep_def)
  have i1: "fe8_valid (f25519b_sub ?i (f25519b_load 1))"
      "fe_rep (f25519b_sub ?i (f25519b_load 1)) = (2 * bval a * (v * v) - 1) mod P25519"
    using fe8.sub_law [OF i(1) o(1)] by (simp_all add: i o mod_simps)
  have "length ?v = 32" using v(1) by (simp add: fe8_valid_def)
  from fe8_rep [OF f25519b_mul_val [OF this assms(1)]]
  have va: "fe8_valid (f25519b_mul_distinct ?v a)" "fe_rep (f25519b_mul_distinct ?v a) = (v * bval a) mod P25519"
    using v(2) by (auto simp: fe_rep_def intro: mod_mult_cong)
  show ?thesis using fe8.mul_law [OF va(1) i1(1)] by (simp add: f25519b_sqrt_def Let_def va i1 mod_simps)
qed

lemma normalize_cong:
  "length x = 32 \<Longrightarrow> length y = 32 \<Longrightarrow> f25519b_normalize x = f25519_normalize y \<longleftrightarrow> bval x mod P25519 = bval y mod P25519"
  using f25519b_normalize_val [of x] f25519_normalize_val [of y] bval_inject [of "f25519b_normalize x" "f25519_normalize y"] by simp

lemma normalize_agree: "length r = 32 \<Longrightarrow> bval r mod P25519 = v mod P25519 \<and> length r' = 32 \<Longrightarrow> fe_rep r' = v mod P25519 \<Longrightarrow>
   f25519b_normalize r' = f25519_normalize r"
  by (simp add: normalize_cong fe_rep_def)

section \<open>Properties\<close>

text \<open>C39. The byte-wise reference and the word-based routines are the same functions of field elements: on
  operands below \<open>2 ^ 255 + 2 ^ 254\<close> (every result of a routine is) sum, difference, negation, product, multiple
  by a constant below \<open>2 ^ 24\<close>, inverse and square root have the same canonical form, and comparing canonical
  forms byte by byte is \<open>f25519_eq\<close> of the word-based code.\<close>

theorem f25519_bytewise_agrees:
  assumes "length a = 32" "length b = 32" "bval a < 2 ^ 255 + 2 ^ 254" "bval b < 2 ^ 255 + 2 ^ 254" "uint c < 2 ^ 24"
  shows "f25519b_normalize (f25519b_add a b) = f25519_normalize (f25519_add a b) \<and>
    f25519b_normalize (f25519b_sub a b) = f25519_normalize (f25519_sub a b) \<and>
    f25519b_normalize (f25519b_neg a) = f25519_normalize (f25519_neg a) \<and>
    f25519b_normalize (f25519b_mul a b) = f25519_normalize (f25519_mul a b) \<and>
    f25519b_normalize (f25519b_mul_c a c) = f25519_normalize (f25519_mul_c a c) \<and>
    f25519b_normalize (f25519b_inv a) = f25519_normalize (f25519_inv a) \<and>
    f25519b_normalize (f25519b_sqrt a) = f25519_sqrt a \<and>
    f25519b_eq (f25519b_normalize a) (f25519b_normalize b) = f25519_eq a b"
proof -
  note vals = stands_for_def normalize_cong
  have v: "fe8_valid a" "fe8_valid b" using assms by (simp_all add: fe8_valid_def)
  have z: "fe8_valid f25519_zero" by (simp add: fe8_valid_def)
  have "f25519b_normalize (f25519b_add a b) = f25519_normalize (f25519_add a b)"
    using f25519b_add_val [OF assms(1,2)] f25519_add_val [OF assms(1,2)] by (simp add: vals)
  moreover have "f25519b_normalize (f25519b_sub a b) = f25519_normalize (f25519_sub a b)"
    using f25519b_sub_val [OF assms(1,2) fe8_sub_range [OF v]] f25519_sub_val [OF assms(1,2)] by (simp add: vals)
  moreover have "f25519b_normalize (f25519b_neg a) = f25519_normalize (f25519_neg a)"
    using f25519b_sub_val [OF _ assms(1) fe8_sub_range [OF z v(1)]] f25519_neg_val [OF assms(1)]
    by (simp add: vals f25519b_neg_sub assms(1))
  moreover have "f25519b_normalize (f25519b_mul a b) = f25519_normalize (f25519_mul a b)"
    using f25519b_mul_val [OF assms(1,2)] f25519_mul_distinct_val [OF assms(1,2)] by (simp add: vals f25519b_mul_def f25519_mul_def)
  moreover have "f25519b_normalize (f25519b_mul_c a c) = f25519_normalize (f25519_mul_c a c)"
    using f25519b_mul_c_val [OF assms(1,5)] f25519_mul_c_val [OF assms(1), of c] assms(5) by (simp add: vals)
  moreover have "f25519b_normalize (f25519b_inv a) = f25519_normalize (f25519_inv a)"
    using pow8_inv [OF pow8_I [OF v(1)]] fe_pow_inv [OF assms(1)]
    by (simp only: pow8_def fe_pow_def fe_rep_def f25519_inv_def Let_def normalize_cong fe8_valid_def)
  moreover have "f25519b_normalize (f25519b_sqrt a) = f25519_sqrt a"
    using f25519b_sqrt_val [OF assms(1)] f25519_sqrt_val [OF assms(1)]
      f25519b_normalize_val [of "f25519b_sqrt a"] bval_inject [of "f25519b_normalize (f25519b_sqrt a)" "f25519_sqrt a"]
    by (simp only: fe8_valid_def fe_rep_def simp_thms)
  moreover have "f25519b_eq (f25519b_normalize a) (f25519b_normalize b) = f25519_eq a b"
    using f25519b_normalize_val [OF assms(1)] f25519b_normalize_val [OF assms(2)]
      bval_inject [of "f25519b_normalize a" "f25519b_normalize b"] f25519_eq_val [OF assms(1,2)]
    by (simp add: f25519b_eq_val)
  ultimately show ?thesis by blast
qed

theorem f25519_bytewise_agrees_witness:
  "f25519b_normalize (f25519b_sub f25519_zero f25519_one) = f25519_normalize (f25519_sub f25519_zero f25519_one)"
  using f25519_bytewise_agrees [of f25519_zero f25519_one 0] by simp

end
