(* ===== verification/C25519.thy ===== *)
theory C25519
  imports F25519
begin

text \<open>
  The X25519 scalar multiplication, \<open>src/x25519bench/c25519/c25519.c\<close> (and \<open>c25519_prepare\<close> of
  its header) over the field of theory F25519. The ladder's state is the quadruple of its four byte
  arrays. The C code lets outputs alias inputs; every routine loads or copies its operands before
  it stores, so the functional reading is the one of the code. Shown: the loop visits the multiples
  the binary expansion of the exponent prescribes, so the result is the x-coordinate of the
  \<open>e\<close>-th multiple for any family of points that obeys Montgomery's doubling and differential
  addition formulas.
\<close>

section \<open>The code\<close>

definition c25519_base_x :: bytes where
  "c25519_base_x = 9 # replicate 31 0"

definition c25519_prepare :: "bytes \<Rightarrow> bytes" where
  "c25519_prepare key =
     (let k1 = key[0 := key ! 0 AND 0xf8]; k2 = k1[31 := k1 ! 31 AND 0x7f]
      in k2[31 := k2 ! 31 OR 0x40])"

definition xc_double :: "bytes \<Rightarrow> bytes \<Rightarrow> bytes \<times> bytes" where
  "xc_double x1 z1 =
     (let x1sq = f25519_mul_distinct x1 x1;
          z1sq = f25519_mul_distinct z1 z1;
          x1z1 = f25519_mul_distinct x1 z1;
          a = f25519_sub x1sq z1sq;
          x3 = f25519_mul_distinct a a;
          a = f25519_mul_c x1z1 486662;
          a = f25519_add x1sq a;
          a = f25519_add z1sq a;
          x1sq = f25519_mul_distinct x1z1 a;
          z3 = f25519_mul_c x1sq 4
      in (x3, z3))"

definition xc_diffadd ::
    "bytes \<Rightarrow> bytes \<Rightarrow> bytes \<Rightarrow> bytes \<Rightarrow> bytes \<Rightarrow> bytes \<Rightarrow> bytes \<times> bytes" where
  "xc_diffadd x1 z1 x2 z2 x3 z3 =
     (let a = f25519_add x2 z2;
          b = f25519_sub x3 z3;
          da = f25519_mul_distinct a b;
          b = f25519_sub x2 z2;
          a = f25519_add x3 z3;
          cb = f25519_mul_distinct a b;
          a = f25519_add da cb;
          b = f25519_mul_distinct a a;
          x5 = f25519_mul_distinct z1 b;
          a = f25519_sub da cb;
          b = f25519_mul_distinct a a;
          z5 = f25519_mul_distinct x1 b
      in (x5, z5))"

type_synonym ladder_state = "bytes \<times> bytes \<times> bytes \<times> bytes"

definition exp_bit :: "bytes \<Rightarrow> nat \<Rightarrow> u8" where
  "exp_bit e i = drop_bit (i mod 8) (e ! (i div 8)) AND 1"

text \<open>One iteration of the loop; the state is \<open>(xm, zm, xm1, zm1)\<close>.\<close>

definition smult_step :: "bytes \<Rightarrow> bytes \<Rightarrow> nat \<Rightarrow> ladder_state \<Rightarrow> ladder_state" where
  "smult_step q e i st =
     (case st of (xm, zm, xm1, zm1) \<Rightarrow>
        let b = exp_bit e i;
            (xm1, zm1) = xc_diffadd q f25519_one xm zm xm1 zm1;
            (xm, zm) = xc_double xm zm;
            (xms, zms) = xc_diffadd xm1 zm1 xm zm q f25519_one;
            xm1 = f25519_select xm1 xm b;
            zm1 = f25519_select zm1 zm b;
            xm = f25519_select xm xms b;
            zm = f25519_select zm zms b
        in (xm, zm, xm1, zm1))"

text \<open>The loop: \<open>smult_loop q e n\<close> runs the iterations \<open>n - 1, \<dots>, 0\<close>.\<close>

primrec smult_loop :: "bytes \<Rightarrow> bytes \<Rightarrow> nat \<Rightarrow> ladder_state \<Rightarrow> ladder_state" where
  "smult_loop q e 0 st = st"
| "smult_loop q e (Suc i) st = smult_loop q e i (smult_step q e i st)"

definition c25519_smult :: "bytes \<Rightarrow> bytes \<Rightarrow> bytes" where
  "c25519_smult q e =
     (case smult_loop q e 254 (q, f25519_one, f25519_one, f25519_zero) of (xm, zm, xm1, zm1) \<Rightarrow>
        let zm1 = f25519_inv_distinct zm in f25519_normalize (f25519_mul_distinct zm1 xm))"

section \<open>Montgomery's formulas over the integers modulo p\<close>

type_synonym proj = "int \<times> int"

definition mdbl :: "proj \<Rightarrow> proj" where
  "mdbl P = (case P of (x, z) \<Rightarrow>
     ((x ^ 2 - z ^ 2) ^ 2, 4 * (x * z) * (x ^ 2 + 486662 * (x * z) + z ^ 2)))"

definition madd :: "proj \<Rightarrow> proj \<Rightarrow> proj \<Rightarrow> proj" where
  "madd D P Q = (case D of (x1, z1) \<Rightarrow> case P of (x2, z2) \<Rightarrow> case Q of (x3, z3) \<Rightarrow>
     (z1 * ((x2 + z2) * (x3 - z3) + (x3 + z3) * (x2 - z2)) ^ 2,
      x1 * ((x2 + z2) * (x3 - z3) - (x3 + z3) * (x2 - z2)) ^ 2))"

text \<open>\<open>scaled P Q\<close>: \<open>Q\<close> is \<open>P\<close> times a common unit modulo \<open>p\<close>, i.e. both name the same
  projective point.\<close>

definition eqp :: "int \<Rightarrow> int \<Rightarrow> bool" where
  "eqp a b \<longleftrightarrow> a mod P25519 = b mod P25519"

definition punit :: "int \<Rightarrow> bool" where
  "punit k \<longleftrightarrow> (\<exists>l. eqp (k * l) 1)"

definition scaled :: "proj \<Rightarrow> proj \<Rightarrow> bool" where
  "scaled P Q \<longleftrightarrow> (\<exists>k. punit k \<and> eqp (fst Q) (k * fst P) \<and> eqp (snd Q) (k * snd P))"

text \<open>The affine x-coordinate \<open>x / z\<close>, the division by Fermat's power as the code does it.\<close>

definition affine :: "proj \<Rightarrow> int" where
  "affine P = fst P * snd P ^ nat (P25519 - 2) mod P25519"

text \<open>\<open>P n\<close> is the \<open>n\<close>-th multiple of \<open>P 1\<close> as far as Montgomery's formulas tell.\<close>

definition multiples :: "(nat \<Rightarrow> proj) \<Rightarrow> bool" where
  "multiples P \<longleftrightarrow> scaled (P 0) (1, 0) \<and> snd (P 1) = 1 \<and>
     (\<forall>m\<ge>1. scaled (P (2 * m)) (mdbl (P m)) \<and>
       scaled (P (2 * m - 1)) (madd (P 1) (P m) (P (m - 1))) \<and>
       scaled (P (2 * m + 1)) (madd (P (2 * m - 1)) (P (2 * m)) (P 1)))"

section \<open>The byte routines compute the formulas\<close>

definition prep :: "bytes \<times> bytes \<Rightarrow> proj" where
  "prep a = (fe_rep (fst a), fe_rep (snd a))"

definition pvalid :: "bytes \<times> bytes \<Rightarrow> bool" where
  "pvalid a \<longleftrightarrow> fe_valid (fst a) \<and> fe_valid (snd a)"

definition pmod :: "proj \<Rightarrow> proj" where
  "pmod P = (fst P mod P25519, snd P mod P25519)"

lemma xc_double_val:
  assumes "fe_valid x" and "fe_valid z"
  shows "pvalid (xc_double x z) \<and> prep (xc_double x z) = pmod (mdbl (fe_rep x, fe_rep z))"
proof -
  have c: "38 * uint (486662 :: u32) < 2 ^ 32" "38 * uint (4 :: u32) < 2 ^ 32" by simp_all
  show ?thesis
    using assms
    by (simp add: xc_double_def Let_def prep_def pvalid_def pmod_def mdbl_def fe32.laws
        fe_mul_c_law c power2_eq_square mod_simps)
       (simp add: algebra_simps)
qed

lemma xc_diffadd_val:
  assumes "fe_valid x1" and "fe_valid z1" and "fe_valid x2" and "fe_valid z2"
    and "fe_valid x3" and "fe_valid z3"
  shows "pvalid (xc_diffadd x1 z1 x2 z2 x3 z3) \<and> prep (xc_diffadd x1 z1 x2 z2 x3 z3) =
    pmod (madd (fe_rep x1, fe_rep z1) (fe_rep x2, fe_rep z2) (fe_rep x3, fe_rep z3))"
proof -
  define da where "da = f25519_mul_distinct (f25519_add x2 z2) (f25519_sub x3 z3)"
  define cb where "cb = f25519_mul_distinct (f25519_add x3 z3) (f25519_sub x2 z2)"
  note x5 = fe32.cross_products(1) [OF assms(3-6,2), folded da_def cb_def]
    and z5 = fe32.cross_products(2) [OF assms(3-6,1), folded da_def cb_def]
  have e: "xc_diffadd x1 z1 x2 z2 x3 z3 =
      (f25519_mul_distinct z1 (f25519_mul_distinct (f25519_add da cb) (f25519_add da cb)),
       f25519_mul_distinct x1 (f25519_mul_distinct (f25519_sub da cb) (f25519_sub da cb)))"
    by (simp only: xc_diffadd_def Let_def da_def cb_def)
  show ?thesis
    unfolding e prep_def pvalid_def pmod_def madd_def prod.case fst_conv snd_conv using x5 z5 by simp
qed

section \<open>Projective points\<close>

lemma one_mod_P [simp]: "1 mod P25519 = 1"
  by (simp add: P25519_def)

lemma eqp_mult: "eqp a b \<Longrightarrow> eqp c d \<Longrightarrow> eqp (a * c) (b * d)"
  unfolding eqp_def by (rule mod_mult_cong)

lemma eqp_add: "eqp a b \<Longrightarrow> eqp c d \<Longrightarrow> eqp (a + c) (b + d)"
  unfolding eqp_def by (rule mod_add_cong)

lemma eqp_diff: "eqp a b \<Longrightarrow> eqp c d \<Longrightarrow> eqp (a - c) (b - d)"
  unfolding eqp_def by (rule mod_diff_cong)

lemma eqp_power: "eqp a b \<Longrightarrow> eqp (a ^ n) (b ^ n)"
  unfolding eqp_def by (metis power_mod)

lemma eqp_refl: "eqp a a"
  by (simp add: eqp_def)

lemma eqp_trans: "eqp a b \<Longrightarrow> eqp b c \<Longrightarrow> eqp a c"
  by (simp add: eqp_def)

lemmas eqp_cong = eqp_mult eqp_add eqp_diff eqp_power eqp_refl

lemma punit_mult: "punit k \<Longrightarrow> punit l \<Longrightarrow> punit (k * l)"
proof -
  assume "punit k" and "punit l"
  then obtain k' l' where "eqp (k * k') 1" "eqp (l * l') 1" by (auto simp: punit_def)
  then have "eqp ((k * k') * (l * l')) (1 * 1)" by (rule eqp_mult)
  then have "eqp (k * l * (k' * l')) 1" by (simp add: mult.assoc mult.left_commute)
  then show ?thesis unfolding punit_def by blast
qed

lemma punit_1: "punit 1"
  unfolding punit_def by (rule exI [of _ 1]) (simp add: eqp_refl)

lemma punit_power: "punit k \<Longrightarrow> punit (k ^ n)"
  by (induction n) (auto intro: punit_mult punit_1)

lemma scaledI:
  "punit k \<Longrightarrow> eqp x' (k * x) \<Longrightarrow> eqp z' (k * z) \<Longrightarrow> scaled (x, z) (x', z')"
  unfolding scaled_def by auto

lemma scaledE:
  assumes "scaled (x, z) (x', z')"
  obtains k where "punit k" and "eqp x' (k * x)" and "eqp z' (k * z)"
  using assms unfolding scaled_def by auto

lemma scaled_trans: "scaled P Q \<Longrightarrow> scaled Q R \<Longrightarrow> scaled P R"
proof -
  assume PQ: "scaled P Q" and QR: "scaled Q R"
  obtain x z x' z' x'' z'' where p: "P = (x, z)" "Q = (x', z')" "R = (x'', z'')"
    by (metis surj_pair)
  from PQ p obtain k where k: "punit k" "eqp x' (k * x)" "eqp z' (k * z)" by (auto elim: scaledE)
  from QR p obtain l where l: "punit l" "eqp x'' (l * x')" "eqp z'' (l * z')" by (auto elim: scaledE)
  have "eqp x'' (l * k * x)" "eqp z'' (l * k * z)"
    using eqp_trans [OF l(2) eqp_mult [OF eqp_refl k(2)]] eqp_trans [OF l(3) eqp_mult [OF eqp_refl k(3)]]
    by (simp_all add: mult.assoc)
  with punit_mult [OF l(1) k(1)] show ?thesis unfolding p by (rule scaledI)
qed

lemma scaled_refl: "scaled P P"
  by (cases P) (auto intro: scaledI [of 1] simp: punit_1 eqp_refl)

lemma scaled_pmod: "scaled P Q \<Longrightarrow> scaled P (pmod Q)"
  by (cases P; cases Q) (auto simp: scaled_def pmod_def eqp_def)

text \<open>Both formulas are homogeneous, so they map scaled points to scaled points.\<close>

lemma mdbl_hom: "mdbl (k * x, k * z) = (k ^ 4 * fst (mdbl (x, z)), k ^ 4 * snd (mdbl (x, z)))"
  by (simp add: mdbl_def algebra_simps power2_eq_square power4_eq_xxxx)

lemma madd_hom:
  "madd (j * x1, j * z1) (k * x2, k * z2) (l * x3, l * z3) =
    (j * k ^ 2 * l ^ 2 * fst (madd (x1, z1) (x2, z2) (x3, z3)),
     j * k ^ 2 * l ^ 2 * snd (madd (x1, z1) (x2, z2) (x3, z3)))"
proof -
  have e: "(k * x2 + k * z2) * (l * x3 - l * z3) = k * l * ((x2 + z2) * (x3 - z3))"
    "(l * x3 + l * z3) * (k * x2 - k * z2) = k * l * ((x3 + z3) * (x2 - z2))"
    by (simp_all add: algebra_simps)
  show ?thesis
    unfolding madd_def prod.case e distrib_left [of "k * l", symmetric]
      right_diff_distrib [of "k * l", symmetric] power_mult_distrib
    by simp
qed

lemma mdbl_scaled: "scaled P Q \<Longrightarrow> scaled (mdbl P) (mdbl Q)"
proof -
  assume PQ: "scaled P Q"
  obtain x z x' z' where p: "P = (x, z)" "Q = (x', z')" by (metis surj_pair)
  from PQ p obtain k where k: "punit k" "eqp x' (k * x)" "eqp z' (k * z)" by (auto elim: scaledE)
  have "eqp (fst (mdbl (x', z'))) (fst (mdbl (k * x, k * z)))"
    "eqp (snd (mdbl (x', z'))) (snd (mdbl (k * x, k * z)))"
    using k(2,3) by (auto simp: mdbl_def intro!: eqp_cong)
  with punit_power [OF k(1), of 4] show ?thesis
    unfolding p mdbl_hom scaled_def by auto
qed

lemma madd_scaled: "scaled D D' \<Longrightarrow> scaled P P' \<Longrightarrow> scaled Q Q' \<Longrightarrow> scaled (madd D P Q) (madd D' P' Q')"
proof -
  assume DP: "scaled D D'" "scaled P P'" "scaled Q Q'"
  obtain x1 z1 x1' z1' x2 z2 x2' z2' x3 z3 x3' z3' where
    p: "D = (x1, z1)" "D' = (x1', z1')" "P = (x2, z2)" "P' = (x2', z2')" "Q = (x3, z3)" "Q' = (x3', z3')"
    by (metis surj_pair)
  from DP(1) p obtain j where j: "punit j" "eqp x1' (j * x1)" "eqp z1' (j * z1)" by (auto elim: scaledE)
  from DP(2) p obtain k where k: "punit k" "eqp x2' (k * x2)" "eqp z2' (k * z2)" by (auto elim: scaledE)
  from DP(3) p obtain l where l: "punit l" "eqp x3' (l * x3)" "eqp z3' (l * z3)" by (auto elim: scaledE)
  have e: "eqp (fst (madd D' P' Q')) (fst (madd (j * x1, j * z1) (k * x2, k * z2) (l * x3, l * z3)))"
    "eqp (snd (madd D' P' Q')) (snd (madd (j * x1, j * z1) (k * x2, k * z2) (l * x3, l * z3)))"
    unfolding p madd_def prod.case fst_conv snd_conv using j(2,3) k(2,3) l(2,3)
    by (auto intro!: eqp_cong)
  have "punit (j * k ^ 2 * l ^ 2)" using j k l by (intro punit_mult punit_power)
  with e show ?thesis
    unfolding p madd_hom scaled_def by auto
qed

section \<open>The ladder\<close>

definition lad :: "(nat \<Rightarrow> proj) \<Rightarrow> nat \<Rightarrow> ladder_state \<Rightarrow> bool" where
  "lad P m st \<longleftrightarrow> (case st of (xm, zm, xm1, zm1) \<Rightarrow>
     pvalid (xm, zm) \<and> pvalid (xm1, zm1) \<and> scaled (P m) (prep (xm, zm)) \<and>
     scaled (P (m - 1)) (prep (xm1, zm1)))"

lemma bit_bval: "i < 8 * length e \<Longrightarrow> bit (bval e) i \<longleftrightarrow> bit (e ! (i div 8)) (i mod 8)"
proof (induction e arbitrary: i)
  case Nil
  then show ?case by simp
next
  case (Cons b e)
  have "bval (b # e) = concat_bit 8 (uint b) (bval e)"
    using unsigned_less [of b, where 'a = int]
    by (simp add: concat_bit_eq push_bit_eq_mult take_bit_int_eq_self)
  then show ?case
    using Cons by (cases "i < 8") (auto simp: bit_concat_bit_iff bit_uint_iff div_if mod_if)
qed

lemma exp_bit_val: "i < 8 * length e \<Longrightarrow> exp_bit e i = (if bit (bval e) i then 1 else 0)"
  by (auto simp: exp_bit_def bit_bval bit_simps intro!: bit_word_eqI)

lemma exponent_split: "bval e mod 2 ^ Suc i = of_bool (bit (bval e) i) * 2 ^ i + bval e mod 2 ^ i"
  using take_bit_Suc_from_most [of i "bval e"] by (simp add: take_bit_eq_mod)

lemma div_bit: "bval x div 2 ^ i = 2 * (bval x div 2 ^ Suc i) + of_bool (bit (bval x) i)"
proof -
  have "bval x div 2 ^ i = 2 * (bval x div 2 ^ i div 2) + bval x div 2 ^ i mod 2" by simp
  moreover have "bval x div 2 ^ i div 2 = bval x div 2 ^ Suc i" by (simp add: zdiv_zmult2_eq div_mult2_eq' flip: zdiv_zmult2_eq) (simp only: zdiv_zmult2_eq [of "2 ^ i" "bval x" 2, symmetric, simplified] mult.commute)
  moreover have "of_bool (bit (bval x) i) = bval x div 2 ^ i mod 2" by (simp add: bit_iff_odd mod2_eq_if)
  ultimately show ?thesis by linarith
qed

lemma smult_step_lad:
  assumes P: "multiples P" and m: "1 \<le> m" and st: "lad P m st" and q: "fe_valid q"
    and q1: "eqp (bval q) (fst (P 1))" and b: "exp_bit e i = of_bool b"
  shows "lad P (2 * m + of_bool b) (smult_step q e i st)"
proof -
  obtain xm zm xm1 zm1 where s: "st = (xm, zm, xm1, zm1)" by (metis surj_pair)
  have one: "fe_valid f25519_one" "fe_rep f25519_one = 1" by (simp_all add: fe_valid_def fe_rep_def)
  have Q: "scaled (P 1) (fe_rep q, 1)"
    using P q1 by (cases "P 1") (auto simp: multiples_def fe_rep_def eqp_def punit_1 intro!: scaledI [of 1])
  define A where "A = xc_diffadd q f25519_one xm zm xm1 zm1"
  define B where "B = xc_double xm zm"
  define C where "C = xc_diffadd (fst A) (snd A) (fst B) (snd B) q f25519_one"
  note v = st [unfolded s lad_def prod.case, unfolded pvalid_def fst_conv snd_conv]
  have A: "pvalid A" "scaled (P (2 * m - 1)) (prep A)"
    using xc_diffadd_val [of q f25519_one xm zm xm1 zm1] v q one P m Q
    by (auto simp: A_def multiples_def prep_def intro!: scaled_pmod elim!: scaled_trans intro: madd_scaled)
  have B: "pvalid B" "scaled (P (2 * m)) (prep B)"
    using xc_double_val [of xm zm] v P m
    by (auto simp: B_def multiples_def prep_def intro!: scaled_pmod elim!: scaled_trans intro: mdbl_scaled)
  have C: "pvalid C" "scaled (P (2 * m + 1)) (prep C)"
    using xc_diffadd_val [of "fst A" "snd A" "fst B" "snd B" q f25519_one] A B q one P m Q
    by (auto simp: C_def multiples_def prep_def pvalid_def intro!: scaled_pmod elim!: scaled_trans intro: madd_scaled)
  have st': "smult_step q e i st =
      (if b then (fst C, snd C, fst B, snd B) else (fst B, snd B, fst A, snd A))"
    using A(1) B(1) C(1) b
    by (simp add: s smult_step_def Let_def A_def B_def C_def split_beta f25519_select_val pvalid_def fe_valid_def)
  show ?thesis
    using A B C by (cases b) (simp_all add: st' lad_def)
qed

lemma smult_loop_lad:
  assumes P: "multiples P" and q: "fe_valid q" and q1: "eqp (bval q) (fst (P 1))"
    and "1 \<le> m" and "lad P m st" and "i \<le> 8 * length e"
  shows "lad P (m * 2 ^ i + nat (bval e mod 2 ^ i)) (smult_loop q e i st)"
  using assms(4-6)
proof (induction i arbitrary: m st)
  case 0
  then show ?case by simp
next
  case (Suc i)
  define b where "b = bit (bval e) i"
  have eb: "exp_bit e i = of_bool b" using Suc.prems(3) by (simp add: exp_bit_val b_def)
  have "lad P (2 * m + of_bool b) (smult_step q e i st)"
    by (rule smult_step_lad [OF P Suc.prems(1,2) q q1 eb])
  then have "lad P ((2 * m + of_bool b) * 2 ^ i + nat (bval e mod 2 ^ i)) (smult_loop q e (Suc i) st)"
    using Suc.IH [of "2 * m + of_bool b" "smult_step q e i st"] Suc.prems by simp
  moreover have "(2 * m + of_bool b) * 2 ^ i + nat (bval e mod 2 ^ i) = m * 2 ^ Suc i + nat (bval e mod 2 ^ Suc i)"
    unfolding exponent_split b_def by (simp add: nat_add_distrib nat_mult_distrib nat_power_eq algebra_simps)
  ultimately show ?case by simp
qed

lemma affine_cong: "eqp (fst P) (fst Q) \<Longrightarrow> eqp (snd P) (snd Q) \<Longrightarrow> affine P = affine Q"
  unfolding affine_def eqp_def [symmetric] by (intro eqp_mult eqp_power)

lemma smult_result:
  assumes "lad P m (xm, zm, xm1, zm1)"
  shows "\<exists>k. punit k \<and>
    bval (f25519_normalize (f25519_mul_distinct (f25519_inv_distinct zm) xm))
      = affine (k * fst (P m), k * snd (P m))"
proof -
  have len: "length xm = 32" "length zm = 32" using assms by (auto simp: lad_def pvalid_def fe_valid_def)
  note inv = fe_pow_inv [OF len(2), unfolded fe_pow_def]
  have n: "nat (P25519 - 2) = 2 ^ 255 - 21" by (simp add: P25519_def)
  have "eqp (bval (f25519_inv_distinct zm) * bval xm)
      ((bval zm mod P25519) ^ (2 ^ 255 - 21) * (bval xm mod P25519))"
    using inv by (intro eqp_mult) (simp_all only: eqp_def power_mod mod_mod_trivial)
  then have r: "bval (f25519_normalize (f25519_mul_distinct (f25519_inv_distinct zm) xm)) = affine (prep (xm, zm))"
    using f25519_normalize_val [of "f25519_mul_distinct (f25519_inv_distinct zm) xm"]
      f25519_mul_distinct_val [of "f25519_inv_distinct zm" xm] inv len n
    by (simp only: affine_def prep_def fe_rep_def fst_conv snd_conv eqp_def mult.commute)
  obtain k where "punit k" "eqp (fst (prep (xm, zm))) (k * fst (P m))"
      "eqp (snd (prep (xm, zm))) (k * snd (P m))"
    using assms by (auto simp: lad_def scaled_def)
  then show ?thesis
    using affine_cong [of "prep (xm, zm)" "(k * fst (P m), k * snd (P m))"] unfolding r by auto
qed

lemma smult_multiple:
  assumes "multiples P" and "length q = 32" and "eqp (bval q) (fst (P 1))" and "length e = 32"
  defines "n \<equiv> nat (2 ^ 254 + bval e mod 2 ^ 254)"
  shows "\<exists>k. punit k \<and> bval (c25519_smult q e) = affine (k * fst (P n), k * snd (P n))"
proof -
  have one: "fe_rep f25519_one = 1" "fe_rep f25519_zero = 0" by (simp_all add: fe_rep_def)
  have "scaled (P 1) (fe_rep q, 1)"
    using assms(1,3) by (cases "P 1") (auto simp: multiples_def fe_rep_def eqp_def punit_1 intro!: scaledI [of 1])
  then have init: "lad P 1 (q, f25519_one, f25519_one, f25519_zero)"
    using assms(1,2) by (simp add: lad_def pvalid_def fe_valid_def multiples_def prep_def one)
  obtain xm zm xm1 zm1 where
    st: "smult_loop q e 254 (q, f25519_one, f25519_one, f25519_zero) = (xm, zm, xm1, zm1)"
    by (metis surj_pair)
  have "lad P (1 * 2 ^ 254 + nat (bval e mod 2 ^ 254)) (xm, zm, xm1, zm1)"
    unfolding st [symmetric]
    by (rule smult_loop_lad [OF assms(1) _ assms(3) _ init]) (use assms in \<open>simp_all add: fe_valid_def\<close>)
  moreover have "1 * 2 ^ 254 + nat (bval e mod 2 ^ 254) = nat (2 ^ 254 + bval e mod 2 ^ 254)"
    by (simp add: nat_add_distrib)
  ultimately have "lad P n (xm, zm, xm1, zm1)"
    by (simp only: n_def)
  from smult_result [OF this] show ?thesis
    by (simp only: c25519_smult_def st prod.case Let_def)
qed

lemma length_prepare [simp]: "length (c25519_prepare key) = length key"
  by (simp add: c25519_prepare_def Let_def)

lemma prepare_bits:
  assumes "length key = 32"
  shows "bit (bval (c25519_prepare key)) 254" and "\<not> bit (bval (c25519_prepare key)) 255"
    and "i < 3 \<Longrightarrow> \<not> bit (bval (c25519_prepare key)) i"
proof -
  have n: "i < 3 \<Longrightarrow> i div 8 = 0 \<and> i mod 8 = i" by simp
  show "bit (bval (c25519_prepare key)) 254" "\<not> bit (bval (c25519_prepare key)) 255"
    using assms by (simp_all add: bit_bval c25519_prepare_def Let_def bit_simps)
  have low: "\<not> bit (0xf8 :: u8) i" if "i < 3"
    using that by (auto simp: less_Suc_eq numeral_eq_Suc)
  show "i < 3 \<Longrightarrow> \<not> bit (bval (c25519_prepare key)) i"
    using assms low by (simp add: bit_bval c25519_prepare_def Let_def bit_simps)
qed

lemma prepare_exponent:
  assumes "length key = 32" and "e = c25519_prepare key"
  shows "2 ^ 254 + bval e mod 2 ^ 254 = bval e" and "bval e < 2 ^ 255" and "8 dvd bval e"
proof -
  have "bval e mod 2 ^ 256 = bval e" using bval_bound [of e] bval_nonneg [of e] assms by simp
  then have m: "bval e mod 2 ^ 255 = bval e"
    using exponent_split [of e 255] prepare_bits(2) assms by simp
  then show "2 ^ 254 + bval e mod 2 ^ 254 = bval e"
    using exponent_split [of e 254] prepare_bits(1) assms by simp
  show "bval e < 2 ^ 255"
    using pos_mod_bound [of "2 ^ 255" "bval e", unfolded m] by simp
  have "take_bit 3 (bval e) = 0"
    by (rule bit_eqI) (use prepare_bits(3) [OF assms(1)] in \<open>auto simp: assms(2) bit_take_bit_iff\<close>)
  then show "8 dvd bval e" by (simp add: take_bit_eq_mod dvd_eq_mod_eq_0)
qed

lemma affine_inverse:
  assumes "punit k" and "eqp ((k * z) ^ nat (P25519 - 1)) 1"
  shows "eqp (affine (k * x, k * z) * z) x"
proof -
  define n where "n = nat (P25519 - 2)"
  have n: "nat (P25519 - 1) = Suc n" by (simp add: n_def P25519_def)
  have "eqp (affine (k * x, k * z)) (k * x * (k * z) ^ n)"
    by (simp add: affine_def eqp_def n_def)
  then have "eqp (affine (k * x, k * z) * z) (k * x * (k * z) ^ n * z)"
    by (intro eqp_mult eqp_refl)
  moreover have "k * x * (k * z) ^ n * z = (k * z) ^ Suc n * x"
    by (simp add: power_mult_distrib)
  moreover have "eqp ((k * z) ^ Suc n * x) (1 * x)"
    using assms(2) unfolding n by (intro eqp_mult eqp_refl)
  ultimately show ?thesis by (simp only: mult_1) (rule eqp_trans)
qed

section \<open>Properties\<close>

text \<open>C5. For a clamped exponent (\<open>c25519_prepare\<close>) and any family \<open>P\<close> of projective points that
  obeys Montgomery's doubling and differential-addition laws with \<open>P 1\<close> over the given
  x-coordinate, \<open>c25519_smult\<close> returns the fully reduced quotient of a representative of \<open>P e\<close>:
  the ladder visits exactly the multiples the bits of \<open>e\<close> prescribe. The clamped exponent has bit
  254 as its top bit (which the loop takes for granted) and is a multiple of 8; and where the
  denominator is invertible by Fermat's power the result times \<open>z\<close> is \<open>x\<close>.\<close>

theorem c25519_smult_correct:
  assumes "length q = 32" and "length key = 32" and "e = c25519_prepare key"
    and "multiples P" and "eqp (bval q) (fst (P 1))" and "P (nat (bval e)) = (x, z)"
  shows "(\<exists>k. punit k \<and> bval (c25519_smult q e) = affine (k * x, k * z) \<and>
      (eqp ((k * z) ^ nat (P25519 - 1)) 1 \<longrightarrow> eqp (bval (c25519_smult q e) * z) x)) \<and>
    2 ^ 254 \<le> bval e \<and> bval e < 2 ^ 255 \<and> 8 dvd bval e"
proof -
  note p = prepare_exponent [OF assms(2,3)]
  have "length e = 32" using assms(2,3) by simp
  from smult_multiple [OF assms(4,1,5) this, unfolded p(1) assms(6) fst_conv snd_conv]
  obtain k where k: "punit k" "bval (c25519_smult q e) = affine (k * x, k * z)" by blast
  have "2 ^ 254 \<le> bval e" using p(1) by (metis le_add_same_cancel1 pos_mod_sign zero_less_numeral zero_less_power)
  with k p(2,3) affine_inverse [OF k(1)] show ?thesis by auto
qed

text \<open>The multiples of the point of order four with x-coordinate 1.\<close>

definition order4 :: "nat \<Rightarrow> proj" where
  "order4 n = (if n mod 4 = 0 then (1, 0) else if n mod 4 = 2 then (0, 1) else (1, 1))"

lemma punit_by: "eqp (k * l) 1 \<Longrightarrow> punit k"
  unfolding punit_def by blast

lemma punit_4: "punit 4"
  by (rule punit_by [of _ "3 * 2 ^ 253 - 14"]) (simp add: eqp_def P25519_def)

lemma punit_1946656: "punit 1946656"
  by (rule punit_by [of _ 45740515084910413242785249597555125769322626367105412703320893098785294882684])
    (simp add: eqp_def P25519_def)

lemma order4_odd: "odd n \<Longrightarrow> order4 n = (1, 1)"
  by (auto simp: order4_def) presburger+

lemma order4_even: "order4 (2 * m) = (if even m then (1, 0) else (0, 1))"
  by (auto simp: order4_def) presburger+

lemma order4_even_cases: "even n \<Longrightarrow> order4 n = (1, 0) \<or> order4 n = (0, 1)"
  by (elim evenE) (simp add: order4_even)

lemma multiples_order4: "multiples order4"
proof -
  have "scaled (order4 (2 * m)) (mdbl (order4 m))" for m
  proof (cases "even m")
    case True
    then show ?thesis
      using order4_even_cases [of m]
      by (auto simp: order4_even mdbl_def scaled_refl)
  next
    case False
    then show ?thesis
      by (auto simp: order4_odd order4_even mdbl_def punit_1946656 eqp_refl intro: scaledI [of 1946656])
  qed
  moreover have "scaled (order4 (2 * m - 1)) (madd (order4 1) (order4 m) (order4 (m - 1)))" if "1 \<le> m" for m
    using that order4_even_cases [of m] order4_even_cases [of "m - 1"]
    by (cases "even m") (auto simp: order4_odd madd_def punit_4 eqp_refl intro!: scaledI [of 4])
  moreover have "scaled (order4 (2 * m + 1)) (madd (order4 (2 * m - 1)) (order4 (2 * m)) (order4 1))" if "1 \<le> m" for m
    using that
    by (cases "even m")
      (auto simp: order4_odd order4_even madd_def punit_4 eqp_refl intro!: scaledI [of 4])
  ultimately show ?thesis
    by (simp add: multiples_def order4_def [of 0] order4_odd scaled_refl)
qed

theorem c25519_smult_correct_witness:
  "\<exists>k. punit k \<and> bval (c25519_smult f25519_one (c25519_prepare (replicate 32 0))) = affine (k, 0)"
proof -
  define e where "e = c25519_prepare (replicate 32 0)"
  have "e = replicate 31 0 @ [0x40]"
    by (simp add: e_def c25519_prepare_def numeral_eq_Suc)
  then have b: "bval e = 2 ^ 254" by (simp add: bval_append)
  have "order4 (nat (bval e)) = (1, 0)" unfolding b by (simp add: order4_def nat_power_eq)
  from c25519_smult_correct [OF _ _ e_def multiples_order4 _ this, of f25519_one]
  show ?thesis by (auto simp: order4_def eqp_def e_def)
qed

end
