(* ===== verification/Jobwire.thy ===== *)
theory Jobwire
  imports Prelude
begin

text \<open>
  The wire format of the job queue, \<open>sam-job-tt/jobwire.h\<close>: the constants, the request header
  (id, op, node, level, length, checksum), the client's 15-byte reply header and the link's
  16-byte one, which carries the node as well. Headers stay byte strings; fields are read at the
  offsets the header file names, as the C code reads them. Shown: each header's fields are read
  back as they were written, and taking the node byte out of a link reply leaves the client's
  reply.
\<close>

section \<open>Constants\<close>

definition JOB_HDR :: nat where "JOB_HDR = 13"
definition H_LEVEL :: nat where "H_LEVEL = 4"
definition H_LEN :: nat where "H_LEN = 5"
definition H_ADLER :: nat where "H_ADLER = 9"
definition REP_HDR :: nat where "REP_HDR = 15"
definition LREP_HDR :: nat where "LREP_HDR = 16"
definition R_NODE :: nat where "R_NODE = 15"
definition NODE_ANY :: u8 where "NODE_ANY = 0xFF"
definition NODES :: nat where "NODES = 3"
definition JOB_MAX :: int where "JOB_MAX = 400 * 1024"
definition JOB_BIG :: int where "JOB_BIG = 2560 * 1024"

definition OP_ECHO :: u8 where "OP_ECHO = 0x45"
definition OP_SHA256 :: u8 where "OP_SHA256 = 0x53"
definition OP_X25519 :: u8 where "OP_X25519 = 0x58"
definition OP_ED25519V :: u8 where "OP_ED25519V = 0x56"
definition OP_CHACHA20 :: u8 where "OP_CHACHA20 = 0x43"
definition OP_CAPS :: u8 where "OP_CAPS = 0x4B"
definition OP_LEASE :: u8 where "OP_LEASE = 0x4C"

definition ST_OK :: u8 where "ST_OK = 0"
definition ST_BADREQ :: u8 where "ST_BADREQ = 1"
definition ST_TOOBIG :: u8 where "ST_TOOBIG = 2"
definition ST_DOWN :: u8 where "ST_DOWN = 3"
definition ST_BADOP :: u8 where "ST_BADOP = 4"
definition ST_NONODE :: u8 where "ST_NONODE = 5"
definition ST_FAILED :: u8 where "ST_FAILED = 6"

lemmas wire_offsets = JOB_HDR_def H_LEVEL_def H_LEN_def H_ADLER_def REP_HDR_def LREP_HDR_def
  R_NODE_def NODES_def

lemmas wire_ops = OP_ECHO_def OP_SHA256_def OP_X25519_def OP_ED25519V_def OP_CHACHA20_def
  OP_CAPS_def OP_LEASE_def

lemmas wire_status = ST_OK_def ST_BADREQ_def ST_TOOBIG_def ST_DOWN_def ST_BADOP_def ST_NONODE_def
  ST_FAILED_def

section \<open>Reading fields\<close>

definition g2 :: "bytes \<Rightarrow> nat \<Rightarrow> u16" where
  "g2 b i = g2_bytes (b ! i) (b ! (i + 1))"

definition g4 :: "bytes \<Rightarrow> nat \<Rightarrow> u32" where
  "g4 b i = g4_bytes (b ! i) (b ! (i + 1)) (b ! (i + 2)) (b ! (i + 3))"

lemma g4_append: "i + 3 < length xs \<Longrightarrow> g4 (xs @ ys) i = g4 xs i"
  by (simp add: g4_def nth_append)

lemma g2_append: "i + 1 < length xs \<Longrightarrow> g2 (xs @ ys) i = g2 xs i"
  by (simp add: g2_def nth_append)

lemma g4_skip: "i = length xs \<Longrightarrow> g4 (xs @ le32 v @ ys) i = v"
  by (simp add: g4_def nth_append le32_def byte_fields)

lemma g2_skip: "i = length xs \<Longrightarrow> g2 (xs @ le16 v @ ys) i = v"
  by (simp add: g2_def nth_append le16_def byte_fields)

section \<open>Headers\<close>

text \<open>The layouts of the comment at the head of the file.\<close>

definition mk_req :: "u16 \<Rightarrow> u8 \<Rightarrow> u8 \<Rightarrow> u8 \<Rightarrow> u32 \<Rightarrow> u32 \<Rightarrow> bytes" where
  "mk_req i op node level n ck = le16 i @ [op, node, level] @ le32 n @ le32 ck"

definition mk_rep :: "u16 \<Rightarrow> u8 \<Rightarrow> u32 \<Rightarrow> u32 \<Rightarrow> u32 \<Rightarrow> bytes" where
  "mk_rep i st n ck out = le16 i @ [st] @ le32 n @ le32 ck @ le32 out"

definition mk_lrep :: "u16 \<Rightarrow> u8 \<Rightarrow> u32 \<Rightarrow> u32 \<Rightarrow> u32 \<Rightarrow> u8 \<Rightarrow> bytes" where
  "mk_lrep i st n ck out node = mk_rep i st n ck out @ [node]"

lemma length_mk_req [simp]: "length (mk_req i op node level n ck) = JOB_HDR"
  by (simp add: mk_req_def JOB_HDR_def)

lemma length_mk_rep [simp]: "length (mk_rep i st n ck out) = REP_HDR"
  by (simp add: mk_rep_def REP_HDR_def)

lemma length_mk_lrep [simp]: "length (mk_lrep i st n ck out node) = LREP_HDR"
  by (simp add: mk_lrep_def LREP_HDR_def REP_HDR_def)

lemma req_fields:
  "g2 (mk_req i op node level n ck @ p) 0 = i"
  "(mk_req i op node level n ck @ p) ! 2 = op"
  "(mk_req i op node level n ck @ p) ! 3 = node"
  "(mk_req i op node level n ck @ p) ! H_LEVEL = level"
  "g4 (mk_req i op node level n ck @ p) H_LEN = n"
  "g4 (mk_req i op node level n ck @ p) H_ADLER = ck"
  by (simp_all add: mk_req_def g2_def g4_def le16_def le32_def nth_append wire_offsets byte_fields)

lemma rep_fields:
  "g2 (mk_rep i st n ck out @ p) 0 = i"
  "(mk_rep i st n ck out @ p) ! 2 = st"
  "g4 (mk_rep i st n ck out @ p) 3 = n"
  "g4 (mk_rep i st n ck out @ p) 7 = ck"
  "g4 (mk_rep i st n ck out @ p) 11 = out"
  by (simp_all add: mk_rep_def g2_def g4_def le16_def le32_def nth_append wire_offsets byte_fields)

lemma lrep_fields:
  "g2 (mk_lrep i st n ck out node @ p) 0 = i"
  "(mk_lrep i st n ck out node @ p) ! 2 = st"
  "g4 (mk_lrep i st n ck out node @ p) 3 = n"
  "(mk_lrep i st n ck out node @ p) ! R_NODE = node"
  by (simp_all add: mk_lrep_def mk_rep_def g2_def g4_def le16_def le32_def nth_append wire_offsets
      byte_fields)

text \<open>What the daemon does with a link reply: the client's own id in the first two bytes, the rest
  of the header without its last byte, the output.\<close>

definition to_client :: "u16 \<Rightarrow> bytes \<Rightarrow> bytes" where
  "to_client cid r = le16 cid @ take 13 (drop 2 r) @ drop LREP_HDR r"

lemma to_client_lrep:
  "to_client cid (mk_lrep i st n ck out node @ p) = mk_rep cid st n ck out @ p"
  by (simp add: to_client_def mk_lrep_def mk_rep_def le16_def le32_def LREP_HDR_def)

lemma length_to_client: "LREP_HDR \<le> length r \<Longrightarrow> length (to_client cid r) + 1 = length r"
  by (simp add: to_client_def LREP_HDR_def)

end
