(* ===== verification/Ttjobd.thy ===== *)
theory Ttjobd
  imports Jobwire
begin

text \<open>
  The job daemon, \<open>sam-job-tt/ttjobd.c\<close>: its static variables as one record, every function as
  a state transformer, \<open>main\<close>'s loop body as \<open>main_iter\<close>. Arrays with a count (\<open>queue/nq\<close>,
  \<open>inflight/nin\<close>, \<open>rbuf/rgot\<close>, a client's chain of output chunks) are lists. The operating system
  and the link driver are the record \<open>env\<close>: the \<open>t\<close>-th call to the outside gets the \<open>t\<close>-th
  answer, whatever that is. \<open>sent\<close> and \<open>link_out\<close> record what went to the clients and to the
  link, \<open>closed\<close> the descriptors given back. Log lines, the trace times that only they read and the
  topology file are left out. Clock values are mathematical integers.
\<close>

section \<open>State and environment\<close>

record job =
  j_fd :: int
  j_cid :: u16
  j_wid :: u16
  j_n :: int
  j_buf :: bytes
  j_node :: nat
  j_due :: int
  j_due_t :: int

type_synonym chunk = "bytes \<times> nat"

record state =
  queue :: "job list"
  inflight :: "job list"
  up :: bool
  leased :: int
  absent :: "bool list"
  down_since :: int
  nextwid :: u16
  rbuf :: bytes
  big_max :: int
  last_io :: int
  busy :: "bool list"
  end0 :: int
  cl :: "int list"
  oq :: "chunk list list"
  due_fd :: int
  due_shown :: int
  due_file :: int
  tick :: nat
  sent :: "(int \<times> bytes) list"
  link_out :: "bytes list"
  closed :: "int list"

definition MAXCL :: nat where "MAXCL = 8"
definition QMAX :: nat where "QMAX = 32"
definition CLIENT_MAX_JOBS :: nat where "CLIENT_MAX_JOBS = 16"
definition REBOOT_RETRY_S :: int where "REBOOT_RETRY_S = 60"

text \<open>Results of \<open>write\<close>, of one \<open>read\<close> (with the \<open>select\<close> after a \<open>read\<close> that had nothing), and
  of the main \<open>select\<close>: the listening socket, the readable and the writable clients.\<close>

datatype wres = Wrote nat | Again | Broken
datatype rres = Got bytes | Waited | Lost
datatype sres = Interrupted | SelFailed | Ready bool "nat list" "nat list"

record env =
  e_cps :: int
  e_img :: string
  e_images :: "string option"
  e_clock :: "nat \<Rightarrow> int"
  e_time :: "nat \<Rightarrow> int"
  e_malloc :: "nat \<Rightarrow> bool"
  e_write :: "nat \<Rightarrow> wres"
  e_read :: "nat \<Rightarrow> rres list"
  e_select :: "nat \<Rightarrow> sres"
  e_accept :: "nat \<Rightarrow> int"
  e_seek :: "nat \<Rightarrow> bool"
  e_boot :: "nat \<Rightarrow> string \<Rightarrow> int"
  e_link_write :: "nat \<Rightarrow> bytes \<Rightarrow> int"
  e_link_read :: "nat \<Rightarrow> bytes list"

definition tk :: "state \<Rightarrow> state" where
  "tk s = s\<lparr>tick := Suc (tick s)\<rparr>"

section \<open>Scheduling\<close>

definition is_op :: "u8 \<Rightarrow> char \<Rightarrow> bool" where
  "is_op op c \<longleftrightarrow> op = of_char c"

text \<open>The two results of the \<open>switch\<close>: the microseconds and \<open>comp\<close>.\<close>

definition est_us :: "u8 \<Rightarrow> int \<Rightarrow> int \<times> bool" where
  "est_us op n =
     (if is_op op CHR ''b'' then (n * 63, True)
      else if is_op op CHR ''z'' \<or> is_op op CHR ''g'' \<or> is_op op CHR ''r'' then (n * 50, True)
      else if is_op op CHR ''i'' then (n * 5, True)
      else if is_op op CHR ''X'' then (2800000, False)
      else if is_op op CHR ''V'' then (6500000 + n * 14, False)
      else if is_op op CHR ''S'' then (n * 14, False)
      else if is_op op CHR ''C'' then (n * 5, False)
      else if is_op op CHR ''5'' \<or> is_op op CHR ''6'' then (n * 56, True)
      else if is_op op CHR ''d'' then (n * 45, True)
      else if is_op op CHR ''p'' then (n * 150, True)
      else if is_op op CHR ''q'' then (55000000 + n * 300, True)
      else if is_op op CHR ''c'' then (300000000, False)
      else if is_op op CHR ''J'' then (n * 30, True)
      else if is_op op CHR ''j'' then (n * 300, True)
      else (cdiv n 2, False))"

definition t425_only :: "u8 \<Rightarrow> int \<Rightarrow> bool" where
  "t425_only op n \<longleftrightarrow> is_op op CHR ''J'' \<or> is_op op CHR ''j'' \<or> is_op op CHR ''p'' \<or>
     is_op op CHR ''q'' \<or> is_op op CHR ''c'' \<or> op = OP_CAPS \<or> JOB_MAX < n"

definition est_ms :: "u8 \<Rightarrow> int \<Rightarrow> bool \<Rightarrow> int" where
  "est_ms op n tram =
     (let (us, comp) = est_us op n in
      if tram \<and> t425_only op n then cdiv 0x7fffffff 1000
      else cdiv (if tram then (if comp then cdiv us 10 * 28 else us * 2) else us) 1000)"

text \<open>The walk over the queue: \<open>pick_from\<close> looks at the jobs from index \<open>q\<close> on.\<close>

definition free_node :: "state \<Rightarrow> nat \<Rightarrow> bool" where
  "free_node s k \<longleftrightarrow> \<not> absent s ! k \<and> \<not> busy s ! k"

definition pick_tram :: "state \<Rightarrow> job \<Rightarrow> int \<Rightarrow> nat option" where
  "pick_tram s j t425 =
     find (\<lambda>k. free_node s k \<and> est_ms (j_buf j ! 2) (j_n j) True < t425) [1..<NODES]"

fun pick_from :: "state \<Rightarrow> nat \<Rightarrow> job list \<Rightarrow> int \<Rightarrow> (nat \<times> nat) option" where
  "pick_from s q [] backlog = None"
| "pick_from s q (j # js) backlog =
     (let want = j_buf j ! 3 in
      if want \<noteq> NODE_ANY then
        (if unat want < NODES \<and> free_node s (unat want) then Some (q, unat want)
         else pick_from s (Suc q) js backlog)
      else if \<not> busy s ! 0 \<and> backlog = 0 then Some (q, 0)
      else
        let t425 = backlog + est_ms (j_buf j ! 2) (j_n j) False in
        case pick_tram s j t425 of
          Some k \<Rightarrow> Some (q, k)
        | None \<Rightarrow> pick_from s (Suc q) js t425)"

definition pick_backlog :: "env \<Rightarrow> state \<Rightarrow> int" where
  "pick_backlog env s =
     (if busy s ! 0 then max 0 (cdiv ((end0 s - e_clock env (tick s)) * 1000) (e_cps env)) else 0)"

definition pick :: "env \<Rightarrow> state \<Rightarrow> (nat \<times> nat) option \<times> state" where
  "pick env s = (pick_from s 0 (queue s) (pick_backlog env s), if busy s ! 0 then tk s else s)"

text \<open>The earliest deadline, for the watcher process.\<close>

definition due_min :: "int \<Rightarrow> job list \<Rightarrow> int" where
  "due_min extra js = foldl (\<lambda>d j. if d = 0 \<or> j_due_t j < d then j_due_t j else d) extra js"

definition due_note :: "env \<Rightarrow> int \<Rightarrow> state \<Rightarrow> state" where
  "due_note env extra s =
     (let d = due_min extra (inflight s) in
      if d = due_shown s \<or> due_fd s < 0 then s
      else tk (s\<lparr>due_shown := d, due_file := (if e_seek env (tick s) then d else due_file s)\<rparr>))"

section \<open>Clients\<close>

text \<open>\<open>rd\<close>: exactly \<open>n\<close> bytes or failure; an exhausted list of results is a \<open>select\<close> that
  timed out.\<close>

fun rd_loop :: "nat \<Rightarrow> rres list \<Rightarrow> bytes option" where
  "rd_loop n [] = (if n = 0 then Some [] else None)"
| "rd_loop n (r # rs) =
     (if n = 0 then Some []
      else case r of
        Got b \<Rightarrow>
          (if b = [] then None
           else let g = take n b in map_option (\<lambda>x. g @ x) (rd_loop (n - length g) rs))
      | Waited \<Rightarrow> rd_loop n rs
      | Lost \<Rightarrow> None)"

definition rd :: "env \<Rightarrow> nat \<Rightarrow> state \<Rightarrow> bytes option \<times> state" where
  "rd env n s = (rd_loop n (e_read env (tick s)), tk s)"

definition drop_out :: "nat \<Rightarrow> state \<Rightarrow> state" where
  "drop_out i s = s\<lparr>oq := (oq s)[i := []]\<rparr>"

text \<open>Booting: the list of images, then one after the other. A booted image is asked for its
  capacity by a job of the daemon's own.\<close>

fun split_images :: "nat \<Rightarrow> string \<Rightarrow> string list" where
  "split_images 0 p = []"
| "split_images (Suc k) p =
     (if p = [] then []
      else take 255 (takeWhile (\<lambda>c. c \<noteq> CHR '','') p) #
        split_images k (drop 1 (dropWhile (\<lambda>c. c \<noteq> CHR '','') p)))"

definition dir_of :: "string \<Rightarrow> string" where
  "dir_of p = rev (dropWhile (\<lambda>c. c \<noteq> CHR ''/'') (rev p))"

definition boot_images :: "env \<Rightarrow> string list" where
  "boot_images env =
     (case e_images env of
        Some p \<Rightarrow> split_images 3 p
      | None \<Rightarrow> map (take 255)
          [e_img env, dir_of (e_img env) @ ''jobt1.btl'', dir_of (e_img env) @ ''jobt0.btl''])"

definition caps_buf :: bytes where
  "caps_buf = ((replicate JOB_HDR 0)[2 := OP_CAPS, 3 := 0])[H_ADLER := 1]"

definition caps_job :: job where
  "caps_job = \<lparr>j_fd = -1, j_cid = 0, j_wid = 0, j_n = 0, j_buf = caps_buf, j_node = 0,
     j_due = 0, j_due_t = 0\<rparr>"

definition ask_caps :: "env \<Rightarrow> state \<Rightarrow> state" where
  "ask_caps env s =
     (if length (queue s) < QMAX then
        (if e_malloc env (tick s) then tk (s\<lparr>queue := queue s @ [caps_job]\<rparr>) else tk s)
      else s)"

fun boot_loop :: "env \<Rightarrow> nat \<Rightarrow> string list \<Rightarrow> state \<Rightarrow> bool \<times> state" where
  "boot_loop env i [] s = (False, s)"
| "boot_loop env i (p # ps) s =
     (if e_boot env (tick s) p = 0 then
        (True, ask_caps env
          ((tk s)\<lparr>absent := map (\<lambda>k. NODES - i \<le> k) [0..<NODES], big_max := JOB_MAX\<rparr>))
      else boot_loop env (Suc i) ps (tk s))"

definition boot_network :: "env \<Rightarrow> state \<Rightarrow> bool \<times> state" where
  "boot_network env s = boot_loop env 0 (boot_images env) s"

text \<open>Booting as all its callers use it: \<open>up = boot_network()\<close>, and on failure the time of it.\<close>

definition reboot :: "env \<Rightarrow> state \<Rightarrow> state" where
  "reboot env s =
     (let (ok, s1) = boot_network env s; s2 = s1\<lparr>up := ok\<rparr> in
      if ok then s2 else tk (s2\<lparr>down_since := e_time env (tick s2)\<rparr>))"

definition disown :: "int \<Rightarrow> job \<Rightarrow> job" where
  "disown f j = (if j_fd j = f then j\<lparr>j_fd := -1\<rparr> else j)"

definition drop_client :: "env \<Rightarrow> nat \<Rightarrow> state \<Rightarrow> state" where
  "drop_client env i s =
     (let f = cl s ! i;
          s1 = s\<lparr>inflight := map (disown f) (inflight s), queue := map (disown f) (queue s),
            cl := (cl s)[i := -1], closed := closed s @ [f]\<rparr>;
          s2 = drop_out i s1
      in if int i = leased s then reboot env (s2\<lparr>leased := -1, rbuf := []\<rparr>) else s2)"

text \<open>\<open>flush_q\<close> writes the chunks of one client: what was written, what is left (nothing, when the
  client is gone), and the number of outside calls made.\<close>

function flush_q :: "env \<Rightarrow> nat \<Rightarrow> chunk list \<Rightarrow> bytes \<times> chunk list \<times> nat" where
  "flush_q env t [] = ([], [], t)"
| "flush_q env t ((d, off) # cs) =
     (case e_write env t of
        Wrote r \<Rightarrow>
          (let k = min r (length d - off) in
           if k = 0 then ([], [], Suc t)
           else
             (let (w, q, t') = flush_q env (Suc t)
                (if off + k = length d then cs else (d, off + k) # cs)
              in (take k (drop off d) @ w, q, t')))
      | Again \<Rightarrow> ([], (d, off) # cs, Suc t)
      | Broken \<Rightarrow> ([], [], Suc t))"
  by pat_completeness auto
termination
  by (relation "measure (\<lambda>(env, t, cs). length cs + sum_list (map (\<lambda>(d, off). length d - off) cs))") auto

definition flush_out :: "env \<Rightarrow> nat \<Rightarrow> state \<Rightarrow> state" where
  "flush_out env i s =
     (let (w, q, t) = flush_q env (tick s) (oq s ! i) in
      s\<lparr>oq := (oq s)[i := q], tick := t, sent := (if w = [] then sent s else sent s @ [(cl s ! i, w)])\<rparr>)"

definition find_cl :: "int \<Rightarrow> state \<Rightarrow> nat option" where
  "find_cl fd s = find (\<lambda>i. cl s ! i = fd) [0..<MAXCL]"

definition wr :: "env \<Rightarrow> int \<Rightarrow> bytes \<Rightarrow> state \<Rightarrow> state" where
  "wr env fd b s =
     (case find_cl fd s of
        None \<Rightarrow> s
      | Some i \<Rightarrow>
          if fd < 0 then s
          else if \<not> e_malloc env (tick s) then drop_client env i (tk s)
          else flush_out env i ((tk s)\<lparr>oq := (oq s)[i := oq s ! i @ [(b, 0)]]\<rparr>))"

definition status_reply :: "u16 \<Rightarrow> u8 \<Rightarrow> bytes" where
  "status_reply cid st = mk_rep cid st 0 0 0"

definition answer :: "env \<Rightarrow> int \<Rightarrow> u16 \<Rightarrow> u8 \<Rightarrow> state \<Rightarrow> state" where
  "answer env fd cid st s = (if 0 \<le> fd then wr env fd (status_reply cid st) s else s)"

section \<open>The link\<close>

text \<open>\<open>go_down\<close>: every job in flight, then every queued one, is answered \<open>ST_DOWN\<close>. The loops read
  each entry at its turn, after the answers before it; an entry the second loop's answers append
  (a capacity question of a re-boot) has no client, so answering it is no step.\<close>

definition down_in :: "env \<Rightarrow> state \<Rightarrow> nat \<Rightarrow> state" where
  "down_in env s i = answer env (j_fd (inflight s ! i)) (j_cid (inflight s ! i)) ST_DOWN s"

definition down_q :: "env \<Rightarrow> state \<Rightarrow> nat \<Rightarrow> state" where
  "down_q env s i = answer env (j_fd (queue s ! i)) (j_cid (queue s ! i)) ST_DOWN s"

definition go_down :: "env \<Rightarrow> state \<Rightarrow> state" where
  "go_down env s =
     (let s = tk (s\<lparr>up := False, down_since := e_time env (tick s)\<rparr>);
          s = foldl (down_in env) s [0..<length (inflight s)];
          s = due_note env 0 (s\<lparr>inflight := []\<rparr>);
          s = s\<lparr>busy := replicate NODES False\<rparr>;
          s = foldl (down_q env) s [0..<length (queue s)]
      in s\<lparr>queue := []\<rparr>)"

text \<open>One pass of the sending loop for the picked job: the request as it goes to the link, and the
  state before and after the write.\<close>

definition wire_job :: "nat \<Rightarrow> u16 \<Rightarrow> job \<Rightarrow> job" where
  "wire_job node wid j =
     j\<lparr>j_node := node, j_wid := wid,
       j_buf := (j_buf j)[3 := of_nat node, 0 := ucast wid, 1 := ucast (drop_bit 8 wid)]\<rparr>"

definition deadline_ms :: "job \<Rightarrow> nat \<Rightarrow> int" where
  "deadline_ms j node = 3 * est_ms (j_buf j ! 2) (j_n j) (node \<noteq> 0) + 5000"

definition send_prep :: "env \<Rightarrow> nat \<Rightarrow> nat \<Rightarrow> state \<Rightarrow> job \<times> state" where
  "send_prep env q node s =
     (let j = queue s ! q;
          s = s\<lparr>queue := remove_at q (queue s), busy := (busy s)[node := True]\<rparr>;
          s = (if node = 0 then
                 tk (s\<lparr>end0 := e_clock env (tick s) +
                   cdiv (est_ms (j_buf j ! 2) (j_n j) False * e_cps env) 1000\<rparr>)
               else s);
          due = e_clock env (tick s) + cdiv (deadline_ms j node * e_cps env) 1000; s = tk s;
          due_t = e_time env (tick s) + cdiv (deadline_ms j node) 1000 + 1; s = tk s;
          s = due_note env due_t s;
          wid = nextwid s + 1
      in ((wire_job node wid j)\<lparr>j_due := due, j_due_t := due_t\<rparr>, s\<lparr>nextwid := wid\<rparr>))"

definition send_one :: "env \<Rightarrow> nat \<Rightarrow> nat \<Rightarrow> state \<Rightarrow> bool \<times> state" where
  "send_one env q node s =
     (let (j, s) = send_prep env q node s in
      if e_link_write env (tick s) (j_buf j) \<noteq> int JOB_HDR + j_n j
      then (False, go_down env (tk s))
      else
        (let s = tk s in
         (True, tk (s\<lparr>link_out := link_out s @ [j_buf j], last_io := e_clock env (tick s),
           inflight := inflight s @ [j]\<rparr>))))"

lemma pick_from_index:
  "pick_from s q js b = Some (i, k) \<Longrightarrow> q \<le> i \<and> i < q + length js"
  by (induction s q js b rule: pick_from.induct)
    (fastforce simp: Let_def split: if_splits option.splits)+

lemma inflight_tk [simp]: "inflight (tk s) = inflight s" by (simp add: tk_def)

lemma inflight_due_note [simp]: "inflight (due_note env d s) = inflight s"
  by (simp add: due_note_def Let_def)

lemma inflight_send_one:
  "send_one env q node s = (True, s') \<Longrightarrow> length (inflight s') = Suc (length (inflight s))"
  by (auto simp: send_one_def send_prep_def Let_def split: if_splits)

text \<open>The sending loop; every pass adds a job in flight.\<close>

function send_jobs :: "env \<Rightarrow> state \<Rightarrow> state" where
  "send_jobs env s =
     (if up s \<and> queue s \<noteq> [] \<and> length (inflight s) < NODES then
        (case pick env s of
           (None, s1) \<Rightarrow> s1
         | (Some (q, node), s1) \<Rightarrow>
             (case send_one env q node s1 of
                (True, s2) \<Rightarrow> send_jobs env s2
              | (False, s2) \<Rightarrow> s2))
      else s)"
  by pat_completeness auto
termination
  by (relation "measure (\<lambda>(env, s). NODES - length (inflight s))")
    (auto simp: pick_def dest!: inflight_send_one [OF sym] split: if_splits)

text \<open>\<open>long\<close> values of the reply header.\<close>

definition rep_len :: "bytes \<Rightarrow> int" where
  "rep_len r = sint (g4 r 3)"

definition find_wid :: "u16 \<Rightarrow> job list \<Rightarrow> nat option" where
  "find_wid wid js = find (\<lambda>i. j_wid (js ! i) = wid) [0..<length js]"

definition learn_caps :: "bytes \<Rightarrow> int" where
  "learn_caps r =
     (let b = (if r ! 2 = ST_OK \<and> 4 \<le> rep_len r then sint (g4 r LREP_HDR) else JOB_MAX);
          b = (if JOB_BIG < b then JOB_BIG else b)
      in if b < JOB_MAX then JOB_MAX else b)"

text \<open>One whole reply in \<open>rbuf\<close>.\<close>

definition take_reply :: "env \<Rightarrow> state \<Rightarrow> state" where
  "take_reply env s =
     (let r = rbuf s in
      case find_wid (g2 r 0) (inflight s) of
        None \<Rightarrow> s\<lparr>rbuf := []\<rparr>
      | Some i \<Rightarrow>
          let j = inflight s ! i;
              s = (if j_buf j ! 2 = OP_CAPS then s\<lparr>big_max := learn_caps r\<rparr> else s);
              s = (if 0 \<le> j_fd j then wr env (j_fd j) (to_client (j_cid j) r) s else s);
              s = tk s;
              s = s\<lparr>busy := (busy s)[j_node (inflight s ! i) := False],
                inflight := swap_last i (inflight s)\<rparr>
          in (due_note env 0 s)\<lparr>rbuf := []\<rparr>)"

definition ATW_READ_CAP :: nat where "ATW_READ_CAP = 0x7000"

definition rep_want :: "bytes \<Rightarrow> int" where
  "rep_want r = (if length r < LREP_HDR then int LREP_HDR - int (length r)
     else int LREP_HDR + rep_len r - int (length r))"

definition bad_reply :: "bytes \<Rightarrow> bool" where
  "bad_reply r \<longleftrightarrow> LREP_HDR \<le> length r \<and> (rep_len r < 0 \<or> JOB_BIG < rep_len r)"

lemma rbuf_tk [simp]: "rbuf (tk s) = rbuf s" by (simp add: tk_def)

lemma rbuf_take_reply [simp]: "rbuf (take_reply env s) = []"
  by (simp add: take_reply_def Let_def split: option.splits)

definition pending :: "bytes list \<Rightarrow> nat" where
  "pending ch = length ch + length (concat ch)"

lemma pending_read:
  "0 < k \<Longrightarrow> k \<le> length c \<Longrightarrow>
   pending (if k < length c then drop k c # ch else ch) < pending (c # ch)"
  unfolding pending_def by (cases "k < length c") auto

lemma lex_of_bool: "a < b \<Longrightarrow> 2 * a + of_bool p < 2 * b + (of_bool q :: nat)"
  by (cases p; cases q) auto

text \<open>The polling loop. \<open>ch\<close> is what the driver's reads bring, one entry per read; no entry or an
  empty one is a read that found nothing. A read brings no more than was asked for; the rest of an
  entry is there for the next read.\<close>

function poll_loop :: "env \<Rightarrow> bytes list \<Rightarrow> state \<Rightarrow> state" where
  "poll_loop env ch s =
     (if bad_reply (rbuf s) then (go_down env s)\<lparr>rbuf := []\<rparr>
      else if rep_want (rbuf s) = 0 then poll_loop env ch (take_reply env s)
      else case ch of
          [] \<Rightarrow> tk s
        | c # ch' \<Rightarrow>
            let k = min (nat (rep_want (rbuf s))) (min ATW_READ_CAP (length c)) in
            if k = 0 then tk s
            else poll_loop env (if k < length c then drop k c # ch' else ch')
              (let s = tk s in tk (s\<lparr>rbuf := rbuf s @ take k c, last_io := e_clock env (tick s)\<rparr>)))"
  by pat_completeness auto

termination
proof (relation "measure (\<lambda>(env, ch, s). 2 * pending ch + of_bool (rep_want (rbuf s) = 0))")
  fix env ch and s :: state
  assume "rep_want (rbuf s) = 0"
  then show "((env, ch, take_reply env s), env, ch, s)
      \<in> measure (\<lambda>(env, ch, s). 2 * pending ch + of_bool (rep_want (rbuf s) = 0))"
    by (simp add: rep_want_def [of "[]"] LREP_HDR_def)
next
  fix env c ch' k and ch :: "bytes list" and s :: state
  assume "ch = c # ch'" and k: "k = min (nat (rep_want (rbuf s))) (min ATW_READ_CAP (length c))" "k \<noteq> 0"
  then have less: "pending (if k < length c then drop k c # ch' else ch') < pending ch"
    by (metis pending_read min.cobounded2 min.coboundedI2 neq0_conv)
  show "((env, if k < length c then drop k c # ch' else ch',
      let s = tk s in tk (s\<lparr>rbuf := rbuf s @ take k c, last_io := e_clock env (tick s)\<rparr>)), env, ch, s)
      \<in> measure (\<lambda>(env, ch, s). 2 * pending ch + of_bool (rep_want (rbuf s) = 0))"
    unfolding in_measure prod.case by (rule lex_of_bool [OF less])
qed simp

declare send_jobs.simps [simp del] poll_loop.simps [simp del]

definition poll_link :: "env \<Rightarrow> state \<Rightarrow> state" where
  "poll_link env s = poll_loop env (e_link_read env (tick s)) s"

section \<open>The main loop\<close>

text \<open>The payload of a refused request is read in 256-byte pieces and thrown away.\<close>

definition sink :: "int \<Rightarrow> state \<Rightarrow> state" where
  "sink n s = s\<lparr>tick := tick s + nat ((n + 255) div 256)\<rparr>"

definition accept_client :: "env \<Rightarrow> state \<Rightarrow> state" where
  "accept_client env s =
     (let c = e_accept env (tick s); s = tk s in
      case find (\<lambda>i. cl s ! i < 0) [0..<MAXCL] of
        Some i \<Rightarrow> if 0 \<le> c then drop_out i (s\<lparr>cl := (cl s)[i := c]\<rparr>) else s
      | None \<Rightarrow> if 0 \<le> c then s\<lparr>closed := closed s @ [c]\<rparr> else s)"

definition mine :: "state \<Rightarrow> int \<Rightarrow> nat" where
  "mine s fd = length (filter (\<lambda>j. j_fd j = fd) (queue s)) + length (filter (\<lambda>j. j_fd j = fd) (inflight s))"

definition too_big :: "state \<Rightarrow> bytes \<Rightarrow> bool" where
  "too_big s h \<longleftrightarrow> (let n = sint (g4 h H_LEN) in
     n < 0 \<or> big_max s < n \<or> (JOB_MAX < n \<and> h ! 3 \<noteq> NODE_ANY \<and> h ! 3 \<noteq> 0))"

definition grant_lease :: "env \<Rightarrow> nat \<Rightarrow> u16 \<Rightarrow> state \<Rightarrow> state" where
  "grant_lease env i cid s =
     (let s = go_down env s; s = s\<lparr>down_since := 0, leased := int i\<rparr> in answer env (cl s ! i) cid ST_OK s)"

definition enqueue :: "env \<Rightarrow> nat \<Rightarrow> bytes \<Rightarrow> state \<Rightarrow> state" where
  "enqueue env i h s =
     (let fd = cl s ! i; cid = g2 h 0; n = sint (g4 h H_LEN) in
      if \<not> e_malloc env (tick s) then answer env fd cid ST_DOWN (tk s)
      else
        case (if 0 < n then rd env (nat n) (tk s) else (Some [], tk s)) of
          (None, s) \<Rightarrow> answer env fd cid ST_DOWN s
        | (Some p, s) \<Rightarrow>
            s\<lparr>queue := queue s @ [\<lparr>j_fd = fd, j_cid = cid, j_wid = 0, j_n = n, j_buf = h @ p,
              j_node = 0, j_due = 0, j_due_t = 0\<rparr>]\<rparr>)"

text \<open>A request of client \<open>i\<close>, its header \<open>h\<close> read: the branches of the loop body in order.\<close>

definition serve_request :: "env \<Rightarrow> nat \<Rightarrow> bytes \<Rightarrow> state \<Rightarrow> state" where
  "serve_request env i h s =
     (let fd = cl s ! i; cid = g2 h 0; n = sint (g4 h H_LEN); node = h ! 3 in
      if too_big s h then drop_client env i (answer env fd cid ST_TOOBIG s)
      else if h ! 2 = OP_LEASE then
        (if n \<noteq> 0 then drop_client env i s
         else if 0 \<le> leased s then answer env fd cid ST_DOWN s
         else grant_lease env i cid s)
      else if node \<noteq> NODE_ANY \<and> (NODES \<le> unat node \<or> absent s ! unat node) then
        answer env fd cid ST_NONODE (sink n s)
      else if \<not> up s \<or> QMAX \<le> length (queue s) \<or> CLIENT_MAX_JOBS \<le> mine s fd then
        answer env fd cid ST_DOWN (sink n s)
      else enqueue env i h s)"

definition serve_client :: "env \<Rightarrow> nat list \<Rightarrow> state \<Rightarrow> nat \<Rightarrow> state" where
  "serve_client env rs s i =
     (if cl s ! i < 0 \<or> i \<notin> set rs then s
      else case rd env JOB_HDR s of
          (None, s) \<Rightarrow> drop_client env i s
        | (Some h, s) \<Rightarrow> serve_request env i h (tk s))"

definition flush_ready :: "env \<Rightarrow> nat list \<Rightarrow> state \<Rightarrow> nat \<Rightarrow> state" where
  "flush_ready env ws s i = (if 0 \<le> cl s ! i \<and> i \<in> set ws then flush_out env i s else s)"

definition flush_pending :: "env \<Rightarrow> state \<Rightarrow> nat \<Rightarrow> state" where
  "flush_pending env s i = (if 0 \<le> cl s ! i \<and> oq s ! i \<noteq> [] then flush_out env i s else s)"

text \<open>The watchdog: \<open>clock\<close> is asked once per job until one is late.\<close>

fun late_job :: "env \<Rightarrow> nat \<Rightarrow> job list \<Rightarrow> bool \<times> nat" where
  "late_job env t [] = (False, t)"
| "late_job env t (j # js) =
     (if 0 < e_clock env t - j_due j then (True, Suc t) else late_job env (Suc t) js)"

definition watchdog :: "env \<Rightarrow> state \<Rightarrow> state" where
  "watchdog env s =
     (let (late, t) = late_job env (tick s) (inflight s); s = s\<lparr>tick := t\<rparr> in
      if late then reboot env ((go_down env (tk s))\<lparr>rbuf := []\<rparr>) else s)"

definition retry_boot :: "env \<Rightarrow> state \<Rightarrow> state" where
  "retry_boot env s =
     (if \<not> up s \<and> down_since s \<noteq> 0 then
        (if REBOOT_RETRY_S \<le> e_time env (tick s) - down_since s then
           (let s = reboot env (tk s) in if up s then s\<lparr>down_since := 0\<rparr> else s)
         else tk s)
      else s)"

text \<open>\<open>(clock() - last_io) * 1000 / CLOCKS_PER_SEC < ms\<close>, with jobs in flight.\<close>

definition recent :: "env \<Rightarrow> int \<Rightarrow> state \<Rightarrow> bool" where
  "recent env ms s \<longleftrightarrow> inflight s \<noteq> [] \<and> cdiv ((e_clock env (tick s) - last_io s) * 1000) (e_cps env) < ms"

primrec spin :: "env \<Rightarrow> nat \<Rightarrow> nat \<Rightarrow> state \<Rightarrow> state" where
  "spin env was 0 s = s"
| "spin env was (Suc k) s =
     (if length (inflight s) = was then spin env was k (poll_link env s) else s)"

definition spin_pass :: "env \<Rightarrow> state \<Rightarrow> state" where
  "spin_pass env s =
     foldl (flush_pending env) (send_jobs env (spin env (length (inflight s)) 32 s)) [0..<MAXCL]"

definition select_pass :: "env \<Rightarrow> bool \<Rightarrow> nat list \<Rightarrow> nat list \<Rightarrow> state \<Rightarrow> state" where
  "select_pass env lis rs ws s =
     (let s = (if lis then accept_client env s else s);
          s = foldl (flush_ready env ws) s [0..<MAXCL];
          s = foldl (serve_client env rs) s [0..<MAXCL];
          s = send_jobs env s;
          s = (if inflight s \<noteq> [] then send_jobs env (poll_link env s) else s);
          s = watchdog env s
      in retry_boot env s)"

text \<open>One pass of \<open>main\<close>'s loop: \<open>Inl\<close> is the exit status when \<open>select\<close> fails.\<close>

definition main_iter :: "env \<Rightarrow> state \<Rightarrow> int + state" where
  "main_iter env s =
     (if recent env 20 s then Inr (spin_pass env (tk s))
      else
        let s = (if inflight s \<noteq> [] then tk (tk s) else s) in
        case e_select env (tick s) of
          Interrupted \<Rightarrow> Inr (tk s)
        | SelFailed \<Rightarrow> Inl 1
        | Ready lis rs ws \<Rightarrow> Inr (select_pass env lis rs ws (tk s)))"

text \<open>The start of \<open>main\<close>, after the lock is taken: boot, socket, deadline file, no clients.\<close>

definition zero_state :: "int \<Rightarrow> state" where
  "zero_state fd =
     \<lparr>queue = [], inflight = [], up = False, leased = -1, absent = replicate NODES False,
      down_since = 0, nextwid = 0, rbuf = [], big_max = JOB_MAX, last_io = 0,
      busy = replicate NODES False, end0 = 0, cl = replicate MAXCL (-1), oq = replicate MAXCL [],
      due_fd = fd, due_shown = -1, due_file = 0, tick = 0, sent = [], link_out = [], closed = []\<rparr>"

definition main_init :: "env \<Rightarrow> int \<Rightarrow> state" where
  "main_init env fd = due_note env 0 (reboot env (zero_state fd))"

end
