(* ===== verification/TtjobdInv.thy ===== *)
theory TtjobdInv
  imports Ttjobd
begin

text \<open>
  The daemon's invariant, kept by every operation of theory Ttjobd: the tables stay within their
  bounds, every job is addressed to an open client or to nobody, the busy flags are the nodes of
  the jobs in flight, the reply buffer never holds more than the announced reply, and without a
  network (or while the board is leased) no job is held.
\<close>

section \<open>The invariant\<close>

definition cl_ok :: "int list \<Rightarrow> bool" where
  "cl_ok c \<longleftrightarrow> length c = MAXCL \<and> (\<forall>f \<in> set c. -1 \<le> f) \<and>
     (\<forall>i < MAXCL. \<forall>k < MAXCL. c ! i = c ! k \<longrightarrow> 0 \<le> c ! i \<longrightarrow> i = k)"

definition fd_ok :: "int list \<Rightarrow> int \<Rightarrow> bool" where
  "fd_ok c f \<longleftrightarrow> f = -1 \<or> (0 \<le> f \<and> f \<in> set c)"

definition buf_ok :: "job \<Rightarrow> bool" where
  "buf_ok j \<longleftrightarrow> 0 \<le> j_n j \<and> j_n j \<le> JOB_BIG \<and> length (j_buf j) = JOB_HDR + nat (j_n j)"

definition jobs_ok :: "int list \<Rightarrow> job list \<Rightarrow> bool" where
  "jobs_ok c js \<longleftrightarrow> (\<forall>j \<in> set js. fd_ok c (j_fd j) \<and> buf_ok j)"

definition nodes_ok :: "bool list \<Rightarrow> nat list \<Rightarrow> bool" where
  "nodes_ok ab ns \<longleftrightarrow> length ab = NODES \<and> \<not> ab ! 0 \<and> distinct ns \<and>
     (\<forall>k \<in> set ns. k < NODES \<and> \<not> ab ! k)"

definition busy_ok :: "bool list \<Rightarrow> nat list \<Rightarrow> bool" where
  "busy_ok bs ns \<longleftrightarrow> length bs = NODES \<and> (\<forall>k < NODES. bs ! k \<longleftrightarrow> k \<in> set ns)"

definition oq_ok :: "int list \<Rightarrow> chunk list list \<Rightarrow> bool" where
  "oq_ok c q \<longleftrightarrow> length q = MAXCL \<and> (\<forall>i < MAXCL. c ! i = -1 \<longrightarrow> q ! i = [])"

definition rbuf_ok :: "bytes \<Rightarrow> bool" where
  "rbuf_ok r \<longleftrightarrow> length r < LREP_HDR \<or>
     (0 \<le> rep_len r \<and> rep_len r \<le> JOB_BIG \<and> int (length r) \<le> int LREP_HDR + rep_len r)"

text \<open>What holds even in the middle of \<open>go_down\<close>, and the whole.\<close>

definition dinv0 :: "state \<Rightarrow> bool" where
  "dinv0 s \<longleftrightarrow> cl_ok (cl s) \<and> oq_ok (cl s) (oq s) \<and> length (queue s) \<le> QMAX \<and>
     jobs_ok (cl s) (queue s) \<and> jobs_ok (cl s) (inflight s) \<and>
     nodes_ok (absent s) (map j_node (inflight s)) \<and>
     JOB_MAX \<le> big_max s \<and> big_max s \<le> JOB_BIG \<and> -1 \<le> leased s \<and> leased s < int MAXCL"

definition dinv :: "state \<Rightarrow> bool" where
  "dinv s \<longleftrightarrow> dinv0 s \<and> busy_ok (busy s) (map j_node (inflight s)) \<and> rbuf_ok (rbuf s) \<and> (\<not> up s \<longrightarrow> queue s = [] \<and> inflight s = []) \<and>
     (0 \<le> leased s \<longrightarrow> \<not> up s \<and> down_since s = 0)"

lemma nodes_ok_length: "nodes_ok ab ns \<Longrightarrow> length ns \<le> NODES"
proof -
  assume n: "nodes_ok ab ns"
  then have "set ns \<subseteq> {..<NODES}" by (auto simp: nodes_ok_def)
  then have "card (set ns) \<le> NODES" using card_mono [of "{..<NODES}" "set ns"] by simp
  with n show ?thesis by (simp add: nodes_ok_def distinct_card)
qed

section \<open>Steps that do not touch the jobs\<close>

text \<open>\<open>keeps s t\<close>: what answering clients leaves as it was.\<close>

definition keeps :: "state \<Rightarrow> state \<Rightarrow> bool" where
  "keeps s t \<longleftrightarrow> leased t = leased s \<and> up t = up s \<and> length (queue t) = length (queue s) \<and>
     map j_node (inflight t) = map j_node (inflight s) \<and> rbuf t = rbuf s \<and> busy t = busy s \<and>
     absent t = absent s \<and> big_max t = big_max s \<and> down_since t = down_since s"

lemma keeps_refl [simp]: "keeps s s"
  by (simp add: keeps_def)

lemma keeps_trans: "keeps s t \<Longrightarrow> keeps t u \<Longrightarrow> keeps s u"
  by (simp add: keeps_def)

lemma keeps_length: "keeps s t \<Longrightarrow> length (inflight t) = length (inflight s)"
  unfolding keeps_def by (metis length_map)

lemma inv0_tick [simp]: "dinv0 (s\<lparr>tick := t\<rparr>) = dinv0 s" "dinv0 (tk s) = dinv0 s"
  by (simp_all add: dinv0_def tk_def)

lemma inv_tick [simp]: "dinv (s\<lparr>tick := t\<rparr>) = dinv s" "dinv (tk s) = dinv s"
  by (simp_all add: dinv_def dinv0_def tk_def)

lemma keeps_tick [simp]: "keeps s (t\<lparr>tick := n\<rparr>) = keeps s t" "keeps s (tk t) = keeps s t"
  "keeps (s\<lparr>tick := n\<rparr>) t = keeps s t" "keeps (tk s) t = keeps s t"
  by (simp_all add: keeps_def tk_def)

lemma tk_simps [simp]:
  "queue (tk s) = queue s" "up (tk s) = up s" "leased (tk s) = leased s" "absent (tk s) = absent s"
  "down_since (tk s) = down_since s" "nextwid (tk s) = nextwid s" "big_max (tk s) = big_max s"
  "last_io (tk s) = last_io s" "busy (tk s) = busy s" "end0 (tk s) = end0 s" "cl (tk s) = cl s"
  "oq (tk s) = oq s" "sent (tk s) = sent s" "link_out (tk s) = link_out s" "closed (tk s) = closed s"
  "due_fd (tk s) = due_fd s" "due_shown (tk s) = due_shown s" "due_file (tk s) = due_file s"
  by (simp_all add: tk_def)

lemma due_note_keeps:
  "dinv0 (due_note env d s) = dinv0 s" "dinv (due_note env d s) = dinv s" "keeps s (due_note env d s)"
  by (simp_all add: due_note_def Let_def dinv0_def dinv_def keeps_def)

lemma oq_ok_update: "oq_ok c q \<Longrightarrow> (c ! i = -1 \<Longrightarrow> x = []) \<Longrightarrow> oq_ok c (q[i := x])"
  by (cases "i < MAXCL") (auto simp: oq_ok_def nth_list_update list_update_beyond)

lemma flush_out_inv0:
  assumes "dinv0 s" and "i < MAXCL"
  shows "dinv0 (flush_out env i s)"
proof -
  obtain w q t where f: "flush_q env (tick s) (oq s ! i) = (w, q, t)" by (metis surj_pair)
  have "cl s ! i = -1 \<Longrightarrow> q = []" using assms f by (auto simp: dinv0_def oq_ok_def)
  with assms(1) show ?thesis
    by (simp add: flush_out_def f dinv0_def oq_ok_update)
qed

lemma flush_out_keeps: "keeps s (flush_out env i s)"
  by (simp add: flush_out_def keeps_def split: prod.splits)

section \<open>Dropping a client\<close>

lemma cl_ok_drop: "cl_ok c \<Longrightarrow> i < MAXCL \<Longrightarrow> cl_ok (c[i := -1])"
  by (auto simp: cl_ok_def nth_list_update dest!: set_update_subset_insert [THEN subsetD])

lemma jobs_ok_disown:
  assumes c: "cl_ok c" and "i < MAXCL" and js: "jobs_ok c js"
  shows "jobs_ok (c[i := -1]) (map (disown (c ! i)) js)"
proof -
  have *: "fd_ok (c[i := -1]) (j_fd (disown (c ! i) j))" if "fd_ok c (j_fd j)" for j
  proof (cases "j_fd j = c ! i \<or> j_fd j = -1")
    case True
    then show ?thesis by (auto simp: disown_def fd_ok_def)
  next
    case False
    with that obtain k where "k < length c" "c ! k = j_fd j" "0 \<le> j_fd j"
      by (auto simp: fd_ok_def in_set_conv_nth)
    with False have "j_fd j \<in> set (c[i := -1])"
      by (metis in_set_conv_nth length_list_update nth_list_update_neq)
    with False \<open>0 \<le> j_fd j\<close> show ?thesis by (simp add: disown_def fd_ok_def)
  qed
  moreover have "buf_ok (disown f j) = buf_ok j" for f j
    by (simp add: disown_def buf_ok_def)
  ultimately show ?thesis using js by (auto simp: jobs_ok_def)
qed

lemma node_disown [simp]: "map j_node (map (disown f) js) = map j_node js" "j_node (disown f j) = j_node j"
  by (simp_all add: disown_def)

lemma oq_ok_drop: "oq_ok c q \<Longrightarrow> cl_ok c \<Longrightarrow> oq_ok (c[i := -1]) (q[i := []])"
  by (cases "i < MAXCL") (auto simp: oq_ok_def cl_ok_def nth_list_update list_update_beyond)

definition dropped :: "nat \<Rightarrow> state \<Rightarrow> state" where
  "dropped i s = drop_out i (s\<lparr>inflight := map (disown (cl s ! i)) (inflight s),
     queue := map (disown (cl s ! i)) (queue s), cl := (cl s)[i := -1], closed := closed s @ [cl s ! i]\<rparr>)"

lemma drop_client_alt:
  "drop_client env i s =
     (if int i = leased s then reboot env ((dropped i s)\<lparr>leased := -1, rbuf := []\<rparr>) else dropped i s)"
  by (simp add: drop_client_def dropped_def Let_def)

lemma dropped_inv0: "dinv0 s \<Longrightarrow> i < MAXCL \<Longrightarrow> dinv0 (dropped i s)"
  by (auto simp: dinv0_def dropped_def drop_out_def cl_ok_drop jobs_ok_disown oq_ok_drop comp_def)

lemma dropped_keeps: "keeps s (dropped i s)"
  by (simp add: keeps_def dropped_def drop_out_def)

lemma buf_ok_caps: "buf_ok caps_job" "j_fd caps_job = -1"
  by (simp_all add: buf_ok_def caps_job_def caps_buf_def JOB_BIG_def)

lemma jobs_ok_append: "jobs_ok c (xs @ ys) \<longleftrightarrow> jobs_ok c xs \<and> jobs_ok c ys"
  by (auto simp: jobs_ok_def)

lemma ask_caps_inv0: "dinv0 s \<Longrightarrow> dinv0 (ask_caps env s)"
  using buf_ok_caps
  by (auto simp: ask_caps_def dinv0_def jobs_ok_append, auto simp: jobs_ok_def fd_ok_def)

lemma ask_caps_simps [simp]:
  "inflight (ask_caps env s) = inflight s" "leased (ask_caps env s) = leased s"
  "rbuf (ask_caps env s) = rbuf s" "busy (ask_caps env s) = busy s" "cl (ask_caps env s) = cl s"
  "oq (ask_caps env s) = oq s"
  by (simp_all add: ask_caps_def)

lemma boot_loop_inv0:
  "dinv0 s \<Longrightarrow> inflight s = [] \<Longrightarrow> i + length ps \<le> NODES \<Longrightarrow> boot_loop env i ps s = (ok, s') \<Longrightarrow>
   dinv0 s' \<and> inflight s' = [] \<and> leased s' = leased s \<and> rbuf s' = rbuf s \<and> busy s' = busy s \<and>
   (\<not> ok \<longrightarrow> queue s' = queue s)"
proof (induction env i ps s rule: boot_loop.induct)
  case (1 env i s)
  then show ?case by auto
next
  case (2 env i p ps s)
  show ?case
  proof (cases "e_boot env (tick s) p = 0")
    case True
    let ?t = "(tk s)\<lparr>absent := map (\<lambda>k. NODES - i \<le> k) [0..<NODES], big_max := JOB_MAX\<rparr>"
    have "dinv0 ?t" using 2 by (auto simp: dinv0_def nodes_ok_def JOB_MAX_def JOB_BIG_def NODES_def)
    then have "dinv0 (ask_caps env ?t)" by (rule ask_caps_inv0)
    with 2 True show ?thesis by auto
  next
    case False
    with 2 show ?thesis by auto
  qed
qed

lemma length_split_images: "length (split_images k p) \<le> k"
  by (induction k p rule: split_images.induct) auto

lemma length_boot_images: "length (boot_images env) \<le> NODES"
  using length_split_images [of 3] by (auto simp: boot_images_def NODES_def split: option.splits)

lemma reboot_inv:
  assumes "dinv0 s" and "queue s = []" and "inflight s = []" and "leased s = -1" and "rbuf_ok (rbuf s)"
    and "busy_ok (busy s) []"
  shows "dinv (reboot env s) \<and> leased (reboot env s) = -1"
proof -
  obtain ok s1 where b: "boot_loop env 0 (boot_images env) s = (ok, s1)" by (metis surj_pair)
  from boot_loop_inv0 [OF assms(1,3) _ b] length_boot_images
  have "dinv0 s1 \<and> inflight s1 = [] \<and> leased s1 = -1 \<and> rbuf s1 = rbuf s \<and> busy s1 = busy s \<and>
      (\<not> ok \<longrightarrow> queue s1 = [])"
    using assms by auto
  with assms(5,6) show ?thesis
    by (auto simp: reboot_def boot_network_def b Let_def dinv_def dinv0_def)
qed

lemma rbuf_ok_Nil [simp]: "rbuf_ok []"
  by (simp add: rbuf_ok_def LREP_HDR_def)

lemma drop_client_inv:
  assumes "dinv s" and "i < MAXCL"
  shows "dinv (drop_client env i s)"
proof (cases "int i = leased s")
  case True
  let ?t = "(dropped i s)\<lparr>leased := -1, rbuf := []\<rparr>"
  from assms True have "queue s = []" "inflight s = []" by (auto simp: dinv_def)
  then have "queue ?t = []" "inflight ?t = []" "busy_ok (busy ?t) []"
    using assms(1) by (simp_all add: dropped_def drop_out_def dinv_def)
  moreover have "dinv0 ?t" using dropped_inv0 [of s i] assms by (simp add: dinv_def dinv0_def MAXCL_def)
  ultimately show ?thesis using reboot_inv [of ?t env] True by (simp add: drop_client_alt)
next
  case False
  then show ?thesis using assms dropped_inv0 [of s i]
    by (auto simp: drop_client_alt dinv_def dropped_def drop_out_def comp_def)
qed

lemma drop_client_unleased:
  "dinv0 s \<Longrightarrow> i < MAXCL \<Longrightarrow> leased s < 0 \<Longrightarrow> dinv0 (drop_client env i s) \<and> keeps s (drop_client env i s)"
  by (auto simp: drop_client_alt dropped_inv0 dropped_keeps)

section \<open>Answering clients\<close>

lemma find_cl_SomeD: "find_cl f s = Some i \<Longrightarrow> i < MAXCL \<and> cl s ! i = f"
  by (auto simp: find_cl_def find_Some_iff)

lemma wr_cases:
  obtains (nobody) "wr env f b s = s"
  | (no_memory) i where "i < MAXCL" "cl s ! i = f" "0 \<le> f" "wr env f b s = drop_client env i (tk s)"
  | (queued) i where "i < MAXCL" "cl s ! i = f" "0 \<le> f"
      "wr env f b s = flush_out env i ((tk s)\<lparr>oq := (oq s)[i := oq s ! i @ [(b, 0)]]\<rparr>)"
  using find_cl_SomeD [of f s] by (fastforce simp: wr_def split: option.splits if_splits)

lemma push_inv0:
  "dinv0 s \<Longrightarrow> 0 \<le> cl s ! i \<Longrightarrow> dinv0 ((tk s)\<lparr>oq := (oq s)[i := x]\<rparr>)"
  by (auto simp: dinv0_def intro: oq_ok_update)

lemma push_keeps: "keeps s ((tk s)\<lparr>oq := q\<rparr>)"
  by (simp add: keeps_def)

lemma wr_inv0:
  assumes "dinv0 s" and "leased s < 0"
  shows "dinv0 (wr env f b s) \<and> keeps s (wr env f b s)"
proof (cases rule: wr_cases [of env f b s])
  case nobody
  then show ?thesis using assms by simp
next
  case (no_memory i)
  then show ?thesis using drop_client_unleased [of "tk s" i env] assms by simp
next
  case (queued i)
  let ?t = "(tk s)\<lparr>oq := (oq s)[i := oq s ! i @ [(b, 0)]]\<rparr>"
  have "dinv0 ?t" using assms queued push_inv0 [of s i] by simp
  then have "dinv0 (flush_out env i ?t)" using queued(1) by (rule flush_out_inv0)
  moreover have "keeps s (flush_out env i ?t)"
    using keeps_trans [OF push_keeps flush_out_keeps] .
  ultimately show ?thesis using queued(4) by simp
qed

lemma inv_frame:
  "dinv s \<Longrightarrow> dinv0 t \<Longrightarrow> keeps s t \<Longrightarrow> dinv t"
  by (auto simp: dinv_def keeps_def)

lemma wr_inv:
  assumes "dinv s"
  shows "dinv (wr env f b s)"
proof (cases rule: wr_cases [of env f b s])
  case nobody
  then show ?thesis using assms by simp
next
  case (no_memory i)
  then show ?thesis using assms by (simp add: drop_client_inv)
next
  case (queued i)
  let ?t = "(tk s)\<lparr>oq := (oq s)[i := oq s ! i @ [(b, 0)]]\<rparr>"
  have "dinv0 ?t" using assms queued push_inv0 [of s i] by (simp add: dinv_def)
  then have "dinv0 (flush_out env i ?t)" using queued(1) by (rule flush_out_inv0)
  moreover have "keeps s (flush_out env i ?t)"
    using keeps_trans [OF push_keeps flush_out_keeps] .
  ultimately show ?thesis using inv_frame [OF assms] queued(4) by simp
qed

lemma answer_inv0:
  "dinv0 s \<Longrightarrow> leased s < 0 \<Longrightarrow> dinv0 (answer env f c st s) \<and> keeps s (answer env f c st s)"
  by (simp add: answer_def wr_inv0)

lemma answer_inv: "dinv s \<Longrightarrow> dinv (answer env f c st s)"
  by (simp add: answer_def wr_inv)

lemma flush_out_inv: "dinv s \<Longrightarrow> i < MAXCL \<Longrightarrow> dinv (flush_out env i s)"
  by (rule inv_frame [OF _ _ flush_out_keeps]) (simp_all add: dinv_def flush_out_inv0)

section \<open>Going down\<close>

lemma down_fold:
  assumes "\<And>s i. f s i = answer env (g s i) (h s i) st s"
  shows "dinv0 s \<Longrightarrow> leased s < 0 \<Longrightarrow> dinv0 (foldl f s is) \<and> keeps s (foldl f s is)"
proof (induction "is" arbitrary: s)
  case Nil
  then show ?case by simp
next
  case (Cons i "is")
  have a: "dinv0 (f s i)" "keeps s (f s i)" using answer_inv0 [OF Cons.prems] assms by simp_all
  then have "leased (f s i) < 0" using Cons.prems by (simp add: keeps_def)
  from Cons.IH [OF a(1) this] a(2) show ?case by (auto intro: keeps_trans)
qed

lemma down_in_fold:
  "dinv0 s \<Longrightarrow> leased s < 0 \<Longrightarrow> dinv0 (foldl (down_in env) s is) \<and> keeps s (foldl (down_in env) s is)"
  by (rule down_fold) (auto simp: down_in_def)

lemma down_q_fold:
  "dinv0 s \<Longrightarrow> leased s < 0 \<Longrightarrow> dinv0 (foldl (down_q env) s is) \<and> keeps s (foldl (down_q env) s is)"
  by (rule down_fold) (auto simp: down_q_def)

lemma inv0_up [simp]: "dinv0 (s\<lparr>up := b\<rparr>) = dinv0 s" "dinv0 (s\<lparr>down_since := d\<rparr>) = dinv0 s"
  "dinv0 (s\<lparr>rbuf := r\<rparr>) = dinv0 s"
  by (simp_all add: dinv0_def)

lemma inv0_clear:
  "dinv0 s \<Longrightarrow> dinv0 (s\<lparr>inflight := [], busy := b\<rparr>)"
  "dinv0 s \<Longrightarrow> dinv0 (s\<lparr>queue := []\<rparr>)"
  by (auto simp: dinv0_def jobs_ok_def nodes_ok_def NODES_def)

text \<open>\<open>due_note\<close> looks at the jobs in flight alone.\<close>

lemma due_note_busy: "(due_note env d s)\<lparr>busy := b\<rparr> = due_note env d (s\<lparr>busy := b\<rparr>)"
  by (simp add: due_note_def Let_def tk_def)

lemma queue_due_note [simp]: "queue (due_note env d s) = queue s"
  by (simp add: due_note_def Let_def)

lemma go_down_inv0:
  assumes "dinv0 s" and "leased s = -1"
  shows "dinv0 (go_down env s) \<and> queue (go_down env s) = [] \<and> inflight (go_down env s) = [] \<and>
    leased (go_down env s) = -1 \<and> \<not> up (go_down env s) \<and> rbuf (go_down env s) = rbuf s \<and>
    busy_ok (busy (go_down env s)) []"
proof -
  define s1 where "s1 = tk (s\<lparr>up := False, down_since := e_time env (tick s)\<rparr>)"
  define s2 where "s2 = foldl (down_in env) s1 [0..<length (inflight s1)]"
  define s3 where "s3 = due_note env 0 (s2\<lparr>inflight := [], busy := replicate NODES False\<rparr>)"
  define s4 where "s4 = foldl (down_q env) s3 [0..<length (queue s3)]"
  have g: "go_down env s = s4\<lparr>queue := []\<rparr>"
    by (simp add: go_down_def Let_def s1_def s2_def s3_def s4_def due_note_busy)
  have "dinv0 s1" "leased s1 = -1" using assms by (simp_all add: s1_def)
  then have s2: "dinv0 s2" "keeps s1 s2" using down_in_fold [of s1 env] by (simp_all add: s2_def)
  then have s3: "dinv0 s3" "leased s3 = -1" "inflight s3 = []" "\<not> up s3" "rbuf s3 = rbuf s"
      "busy_ok (busy s3) []"
    using \<open>leased s1 = -1\<close> due_note_keeps(3) [of "s2\<lparr>inflight := [], busy := replicate NODES False\<rparr>" env 0]
    by (simp_all add: s3_def due_note_keeps inv0_clear keeps_def s1_def busy_ok_def)
  then have "dinv0 s4" "keeps s3 s4" using down_q_fold [of s3 env] by (simp_all add: s4_def)
  with s3 show ?thesis unfolding g by (auto simp: inv0_clear keeps_def)
qed

lemma go_down_inv: "dinv s \<Longrightarrow> leased s = -1 \<Longrightarrow> dinv (go_down env s) \<and> leased (go_down env s) = -1"
  using go_down_inv0 [of s env] by (auto simp: dinv_def)

lemma inv_unleased: "dinv s \<Longrightarrow> up s \<or> inflight s \<noteq> [] \<Longrightarrow> leased s = -1"
  by (auto simp: dinv_def dinv0_def)

section \<open>Sending\<close>

lemma pick_tram_SomeD:
  "pick_tram s j t = Some k \<Longrightarrow> 1 \<le> k \<and> k < NODES \<and> free_node s k \<and> est_ms (j_buf j ! 2) (j_n j) True < t"
  by (auto simp: pick_tram_def find_Some_iff NODES_def)

lemma pick_from_free:
  assumes "\<not> absent s ! 0" and "pick_from s q js b = Some (i, k)"
  shows "k < NODES \<and> free_node s k"
  using assms
proof (induction s q js b rule: pick_from.induct)
  case (1 s q b)
  then show ?case by simp
next
  case (2 s q j js b)
  show ?case
  proof (cases "j_buf j ! 3 = NODE_ANY")
    case False
    with 2 show ?thesis by (auto simp: Let_def split: if_splits)
  next
    case any: True
    show ?thesis
    proof (cases "\<not> busy s ! 0 \<and> b = 0")
      case True
      with 2 any show ?thesis by (auto simp: free_node_def NODES_def)
    next
      case False
      with 2 any show ?thesis by (auto simp: Let_def split: option.splits dest: pick_tram_SomeD)
    qed
  qed
qed

lemma nodes_ok_add: "nodes_ok ab ns \<Longrightarrow> k < NODES \<Longrightarrow> k \<notin> set ns \<Longrightarrow> \<not> ab ! k \<Longrightarrow> nodes_ok ab (ns @ [k])"
  by (auto simp: nodes_ok_def)

lemma busy_ok_add: "busy_ok bs ns \<Longrightarrow> k < NODES \<Longrightarrow> busy_ok (bs[k := True]) (ns @ [k])"
  by (auto simp: busy_ok_def nth_list_update)

lemma jobs_ok_subset: "jobs_ok c js \<Longrightarrow> set js' \<subseteq> set js \<Longrightarrow> jobs_ok c js'"
  by (auto simp: jobs_ok_def)

lemma remove_at_le: "length (remove_at i xs) \<le> length xs"
  by (simp add: remove_at_def)

lemma wire_job_simps [simp]:
  "j_node (wire_job node wid j) = node" "j_fd (wire_job node wid j) = j_fd j"
  "j_cid (wire_job node wid j) = j_cid j" "j_n (wire_job node wid j) = j_n j"
  "j_wid (wire_job node wid j) = wid" "length (j_buf (wire_job node wid j)) = length (j_buf j)"
  by (simp_all add: wire_job_def)

lemma due_note_frame [simp]:
  "busy (due_note env d s) = busy s" "absent (due_note env d s) = absent s" "cl (due_note env d s) = cl s"
  "oq (due_note env d s) = oq s" "big_max (due_note env d s) = big_max s"
  "leased (due_note env d s) = leased s" "up (due_note env d s) = up s"
  "rbuf (due_note env d s) = rbuf s" "nextwid (due_note env d s) = nextwid s"
  "sent (due_note env d s) = sent s" "link_out (due_note env d s) = link_out s"
  by (simp_all add: due_note_def Let_def)

lemma send_prep_state:
  assumes "send_prep env q node s = (j, t)"
  shows "queue t = remove_at q (queue s)" and "busy t = (busy s)[node := True]"
    and "inflight t = inflight s" and "absent t = absent s" and "cl t = cl s" and "oq t = oq s"
    and "big_max t = big_max s" and "leased t = leased s" and "up t = up s" and "rbuf t = rbuf s"
    and "nextwid t = nextwid s + 1" and "sent t = sent s" and "link_out t = link_out s"
    and "j_node j = node" and "j_fd j = j_fd (queue s ! q)" and "j_n j = j_n (queue s ! q)"
    and "j_cid j = j_cid (queue s ! q)" and "j_wid j = nextwid s + 1"
    and "j_buf j = j_buf (wire_job node (nextwid s + 1) (queue s ! q))"
  using assms by (auto simp: send_prep_def Let_def split: if_splits)

lemma send_one_inv:
  assumes s: "dinv s" and "up s" and q: "q < length (queue s)" and k: "node < NODES" "free_node s node"
    and r: "send_one env q node s = (ok, s')"
  shows "dinv s' \<and> (ok \<longrightarrow> up s')"
proof -
  obtain j t where p: "send_prep env q node s = (j, t)" by (metis surj_pair)
  note f = send_prep_state [OF p]
  have i0: "dinv0 s" and l: "leased s = -1" using s \<open>up s\<close> by (auto simp: dinv_def dinv0_def)
  have j: "fd_ok (cl s) (j_fd j) \<and> buf_ok j"
    using i0 q nth_mem [OF q] by (auto simp: dinv0_def jobs_ok_def f buf_ok_def)
  have t: "dinv0 t"
    using i0 remove_at_le [of q "queue s"] set_remove_at [of q "queue s"]
    by (auto simp: dinv0_def f intro: jobs_ok_subset)
  have n: "node \<notin> j_node ` set (inflight s)"
    using s k by (auto simp: dinv_def busy_ok_def free_node_def)
  show ?thesis
  proof (cases ok)
    case False
    then have "s' = go_down env (tk t)" using r by (auto simp: send_one_def p Let_def split: if_splits)
    then show ?thesis
      using go_down_inv0 [of "tk t" env] t l f s False by (auto simp: dinv_def)
  next
    case True
    let ?t = "t\<lparr>inflight := inflight t @ [j]\<rparr>"
    have "dinv0 ?t"
      using t i0 j k n by (auto simp: dinv0_def f jobs_ok_append jobs_ok_def free_node_def nodes_ok_add)
    moreover have "busy_ok (busy ?t) (map j_node (inflight ?t))"
      using s k busy_ok_add [of "busy s" "map j_node (inflight s)" node] by (simp add: dinv_def f)
    ultimately show ?thesis
      using r True \<open>up s\<close> l s
      by (auto simp: send_one_def p Let_def f dinv_def dinv0_def split: if_splits)
  qed
qed

lemma pick_inv:
  assumes "dinv s" and "pick env s = (r, s')"
  shows "dinv s'" and "up s' = up s" and "queue s' = queue s" and "busy s' = busy s"
    and "absent s' = absent s" and "inflight s' = inflight s"
  using assms by (auto simp: pick_def split: if_splits)

lemma pick_chosen:
  assumes "dinv s" and "pick env s = (Some (q, k), s')"
  shows "q < length (queue s)" and "k < NODES" and "free_node s k"
proof -
  have p: "pick_from s 0 (queue s) (pick_backlog env s) = Some (q, k)"
    using assms(2) by (simp add: pick_def)
  have "\<not> absent s ! 0" using assms(1) by (simp add: dinv_def dinv0_def nodes_ok_def)
  from pick_from_free [OF this p] pick_from_index [OF p]
  show "q < length (queue s)" "k < NODES" "free_node s k" by simp_all
qed

lemma send_jobs_inv: "dinv s \<Longrightarrow> dinv (send_jobs env s)"
proof (induction env s rule: send_jobs.induct)
  case (1 env s)
  show ?case
  proof (cases "up s \<and> queue s \<noteq> [] \<and> length (inflight s) < NODES")
    case False
    then have "send_jobs env s = s" by (subst send_jobs.simps) (simp only: False if_False)
    with 1 show ?thesis by simp
  next
    case c: True
    obtain r s1 where p: "pick env s = (r, s1)" by (metis surj_pair)
    note pi = pick_inv [OF "1.prems" p]
    show ?thesis
    proof (cases r)
      case None
      with c p pi(1) show ?thesis by (simp add: send_jobs.simps [of env s])
    next
      case (Some qk)
      obtain q k where qk: "r = Some (q, k)" using Some by (metis surj_pair)
      obtain ok s2 where o: "send_one env q k s1 = (ok, s2)" by (metis surj_pair)
      have "dinv s2"
        using send_one_inv [OF pi(1) _ _ _ _ o] pi c pick_chosen [OF "1.prems" p [unfolded qk]]
        by (simp add: free_node_def)
      with "1.IH" [OF c p [symmetric] qk] o c p qk show ?thesis
        by (cases ok) (auto simp: send_jobs.simps [of env s])
    qed
  qed
qed

section \<open>Replies\<close>

lemma find_wid_SomeD: "find_wid w js = Some i \<Longrightarrow> i < length js \<and> j_wid (js ! i) = w"
  by (auto simp: find_wid_def find_Some_iff)

lemma learn_caps_bounds: "JOB_MAX \<le> learn_caps r \<and> learn_caps r \<le> JOB_BIG"
  by (simp add: learn_caps_def Let_def JOB_MAX_def JOB_BIG_def)

lemma map_swap_last: "i < length xs \<Longrightarrow> map f (swap_last i xs) = swap_last i (map f xs)"
proof -
  assume i: "i < length xs"
  then have "xs \<noteq> []" by auto
  then show ?thesis using i by (simp add: swap_last_def map_butlast map_update last_map)
qed

lemma swap_last_remove:
  assumes "distinct ns" and "i < length ns"
  shows "distinct (swap_last i ns) \<and> set (swap_last i ns) = set ns - {ns ! i}"
proof (cases ns rule: rev_cases)
  case Nil
  then show ?thesis using assms by simp
next
  case (snoc ms x)
  show ?thesis
  proof (cases "i = length ms")
    case True
    then have "swap_last i ns = ms" using snoc by (simp add: swap_last_def)
    then show ?thesis using assms snoc True by auto
  next
    case False
    then have i: "i < length ms" using assms snoc by simp
    then have e: "swap_last i ns = ms[i := x]" using snoc by (simp add: swap_last_def list_update_append)
    have d: "distinct ms" "x \<notin> set ms" using assms snoc by auto
    have "set (ms[i := x]) = insert x (set ms - {ms ! i})"
      using d i by (simp add: set_update_distinct)
    moreover have "distinct (ms[i := x])" using d i by (simp add: distinct_list_update)
    ultimately show ?thesis using snoc i d unfolding e by (auto simp: nth_append)
  qed
qed

lemma set_swap_last: "i < length xs \<Longrightarrow> set (swap_last i xs) \<subseteq> set xs"
proof -
  assume i: "i < length xs"
  then have "xs \<noteq> []" by auto
  then have "last xs \<in> set xs" by simp
  then show ?thesis
    unfolding swap_last_def using set_update_subset_insert [of xs i "last xs"]
    by (auto dest!: in_set_butlastD)
qed

lemma busy_ok_remove:
  "busy_ok bs ns \<Longrightarrow> n < NODES \<Longrightarrow> set ms = set ns - {n} \<Longrightarrow> busy_ok (bs[n := False]) ms"
  by (auto simp: busy_ok_def nth_list_update)

lemma finish_inv:
  assumes s: "dinv s" and i: "i < length (inflight s)"
  shows "dinv (s\<lparr>busy := (busy s)[j_node (inflight s ! i) := False], inflight := swap_last i (inflight s),
    rbuf := []\<rparr>)"
proof -
  let ?ns = "map j_node (inflight s)"
  have n: "nodes_ok (absent s) ?ns" "busy_ok (busy s) ?ns" using s by (simp_all add: dinv_def dinv0_def)
  then have d: "distinct (swap_last i ?ns) \<and> set (swap_last i ?ns) = set ?ns - {?ns ! i}"
    using i by (intro swap_last_remove) (auto simp: nodes_ok_def)
  have "nodes_ok (absent s) (swap_last i ?ns)" using n d by (auto simp: nodes_ok_def)
  moreover have "busy_ok ((busy s)[j_node (inflight s ! i) := False]) (swap_last i ?ns)"
    using n(2) by (rule busy_ok_remove) (use n(1) d i in \<open>auto simp: nodes_ok_def\<close>)
  moreover have "jobs_ok (cl s) (swap_last i (inflight s))"
    using s set_swap_last [OF i] by (auto simp: dinv_def dinv0_def intro: jobs_ok_subset)
  moreover have "swap_last i [] = []" by (simp add: swap_last_def)
  ultimately show ?thesis using s i
    by (auto simp: dinv_def dinv0_def map_swap_last)
qed

lemma due_note_rbuf: "(due_note env d s)\<lparr>rbuf := r\<rparr> = due_note env d (s\<lparr>rbuf := r\<rparr>)"
  by (simp add: due_note_def Let_def tk_def)

lemma inv_reset: "dinv s \<Longrightarrow> dinv (s\<lparr>rbuf := []\<rparr>)"
  by (simp add: dinv_def dinv0_def)

text \<open>In \<open>poll_loop\<close> the header may just have become complete.\<close>

definition inv_poll :: "state \<Rightarrow> bool" where
  "inv_poll s \<longleftrightarrow> dinv (s\<lparr>rbuf := []\<rparr>) \<and> (length (rbuf s) \<le> LREP_HDR \<or> rbuf_ok (rbuf s))"

lemma inv_imp_poll: "dinv s \<Longrightarrow> inv_poll s"
  by (simp add: inv_poll_def dinv_def dinv0_def)

lemma inv_poll_imp: "inv_poll s \<Longrightarrow> rbuf_ok (rbuf s) \<Longrightarrow> dinv s"
  by (simp add: inv_poll_def dinv_def dinv0_def)

text \<open>A whole reply comes only when something is in flight, or is dropped.\<close>

lemma wr_inflight:
  assumes "dinv s" and "up s"
  shows "keeps s (wr env f b s)"
  using wr_inv0 [of s env f b] assms by (auto simp: dinv_def)

lemma take_reply_inv:
  assumes s: "dinv s"
  shows "dinv (take_reply env s)"
proof (cases "find_wid (g2 (rbuf s) 0) (inflight s)")
  case None
  then show ?thesis using s by (simp add: take_reply_def inv_reset)
next
  case (Some i)
  define j where "j = inflight s ! i"
  define s1 where "s1 = (if j_buf j ! 2 = OP_CAPS then s\<lparr>big_max := learn_caps (rbuf s)\<rparr> else s)"
  define s2 where "s2 = (if 0 \<le> j_fd j then wr env (j_fd j) (to_client (j_cid j) (rbuf s)) s1 else s1)"
  have i: "i < length (inflight s)" using find_wid_SomeD [OF Some] by simp
  then have up: "up s" using s by (auto simp: dinv_def)
  have s1: "dinv s1" "up s1" "inflight s1 = inflight s"
    using s up learn_caps_bounds [of "rbuf s"] by (auto simp: s1_def dinv_def dinv0_def)
  have s2: "dinv s2" "keeps s1 s2"
    using wr_inv [OF s1(1)] wr_inflight [OF s1(1,2)] s1 by (auto simp: s2_def)
  then have "i < length (inflight s2)" using i s1 keeps_length [of s1 s2] by simp
  then have "dinv ((tk s2)\<lparr>busy := (busy (tk s2))[j_node (inflight (tk s2) ! i) := False],
      inflight := swap_last i (inflight (tk s2)), rbuf := []\<rparr>)"
    using s2 by (intro finish_inv) simp_all
  then show ?thesis unfolding s2_def
    by (simp add: take_reply_def Some Let_def j_def [symmetric] s1_def [symmetric]
        due_note_rbuf due_note_keeps split: if_splits)
qed

lemma rep_len_append: "LREP_HDR \<le> length r \<Longrightarrow> rep_len (r @ x) = rep_len r"
  by (simp add: rep_len_def g4_append LREP_HDR_def)

lemma inv_poll_read:
  assumes "inv_poll s" and "\<not> bad_reply (rbuf s)" and "int k \<le> rep_want (rbuf s)" and "length x = k"
  shows "inv_poll (tk ((tk s)\<lparr>rbuf := rbuf s @ x, last_io := l\<rparr>))"
proof -
  have "length (rbuf s @ x) \<le> LREP_HDR \<or> rbuf_ok (rbuf s @ x)"
  proof (cases "length (rbuf s) < LREP_HDR")
    case True
    then show ?thesis using assms by (simp add: rep_want_def)
  next
    case False
    then show ?thesis
      using assms by (auto simp: rbuf_ok_def rep_len_append bad_reply_def rep_want_def)
  qed
  then show ?thesis using assms(1) by (simp add: inv_poll_def dinv_def dinv0_def tk_def)
qed

lemma poll_down_inv:
  assumes "inv_poll s" and "leased s = -1"
  shows "dinv ((go_down env s)\<lparr>rbuf := []\<rparr>)"
proof -
  have "dinv0 s" using assms(1) by (simp add: inv_poll_def dinv_def)
  from go_down_inv0 [OF this assms(2), of env] show ?thesis by (simp add: dinv_def)
qed

lemma leased_take_reply:
  assumes "dinv s" and "leased s = -1"
  shows "leased (take_reply env s) = -1"
proof -
  have "leased (wr env f b t) = -1" if "dinv0 t" "leased t = -1" for f b t
    using wr_inv0 [of t env f b] that by (simp add: keeps_def)
  moreover have "dinv0 (s\<lparr>big_max := learn_caps r\<rparr>)" for r
    using assms(1) learn_caps_bounds [of r] by (simp add: dinv_def dinv0_def)
  ultimately show ?thesis
    using assms by (auto simp: take_reply_def Let_def dinv_def split: option.splits)
qed

lemma poll_loop_inv:
  "inv_poll s \<Longrightarrow> leased s = -1 \<Longrightarrow> dinv (poll_loop env ch s)"
proof (induction env ch s rule: poll_loop.induct)
  case (1 env ch s)
  show ?case
  proof (cases "bad_reply (rbuf s)")
    case True
    then show ?thesis using poll_down_inv "1.prems" by (simp add: poll_loop.simps [of env ch s])
  next
    case good: False
    then have ok: "LREP_HDR \<le> length (rbuf s) \<Longrightarrow> rbuf_ok (rbuf s)"
      using "1.prems"(1) by (auto simp: inv_poll_def rbuf_ok_def bad_reply_def)
    then have s: "dinv s"
      using "1.prems"(1) by (cases "length (rbuf s) < LREP_HDR") (auto intro!: inv_poll_imp simp: rbuf_ok_def)
    show ?thesis
    proof (cases "rep_want (rbuf s) = 0")
      case True
      with good "1.IH"(1) [OF good True] take_reply_inv [OF s] leased_take_reply [OF s "1.prems"(2)]
      show ?thesis by (simp add: poll_loop.simps [of env ch s] inv_imp_poll)
    next
      case more: False
      show ?thesis
      proof (cases ch)
        case Nil
        with good more s show ?thesis by (simp add: poll_loop.simps [of env "[]" s])
      next
        case (Cons c ch')
        define k where "k = min (nat (rep_want (rbuf s))) (min ATW_READ_CAP (length c))"
        show ?thesis
        proof (cases "k = 0")
          case True
          then have "poll_loop env ch s = tk s"
            using good more Cons by (subst poll_loop.simps) (simp add: Let_def k_def [symmetric])
          with s show ?thesis by simp
        next
          case False
          define t where "t = tk ((tk s)\<lparr>rbuf := rbuf s @ take k c, last_io := e_clock env (tick (tk s))\<rparr>)"
          have "int k \<le> rep_want (rbuf s)" "k \<le> length c" using False by (auto simp: k_def)
          then have t: "inv_poll t"
            using "1.prems"(1) good unfolding t_def by (intro inv_poll_read) auto
          have "poll_loop env ch s = poll_loop env (if k < length c then drop k c # ch' else ch') t"
            using good more Cons False
            by (subst poll_loop.simps) (simp add: Let_def k_def [symmetric] t_def del: if_split)
          moreover have "dinv (poll_loop env (if k < length c then drop k c # ch' else ch') t)"
            using "1.IH"(2) [OF good more Cons k_def False] t "1.prems"(2)
            by (simp add: t_def Let_def del: if_split)
          ultimately show ?thesis by (simp only:)
        qed
      qed
    qed
  qed
qed

lemma poll_link_inv: "dinv s \<Longrightarrow> inflight s \<noteq> [] \<Longrightarrow> dinv (poll_link env s)"
  using poll_loop_inv [of s env] inv_unleased [of s] by (simp add: poll_link_def inv_imp_poll)

section \<open>The main loop\<close>

lemma jobs_ok_accept: "jobs_ok c js \<Longrightarrow> c ! i < 0 \<Longrightarrow> jobs_ok (c[i := f]) js"
proof -
  assume js: "jobs_ok c js" and i: "c ! i < 0"
  have "g \<in> set (c[i := f])" if g: "g \<in> set c" "0 \<le> g" for g
  proof -
    obtain k where k: "k < length c" "c ! k = g" using g by (auto simp: in_set_conv_nth)
    then have "k \<noteq> i" using i g by auto
    with k show ?thesis by (metis in_set_conv_nth length_list_update nth_list_update_neq)
  qed
  with js show ?thesis by (auto simp: jobs_ok_def fd_ok_def)
qed

lemma cl_ok_accept:
  assumes c: "cl_ok c" and f: "f \<notin> set c" "0 \<le> f"
  shows "cl_ok (c[i := f])"
proof -
  have len: "length c = MAXCL" using c by (simp add: cl_ok_def)
  have "a = b" if ab: "a < MAXCL" "b < MAXCL" "c[i := f] ! a = c[i := f] ! b" "0 \<le> c[i := f] ! a" for a b
  proof (cases "a = i \<or> b = i")
    case True
    then show ?thesis using ab f len nth_mem [of a c] nth_mem [of b c]
      by (auto simp: nth_list_update split: if_splits)
  next
    case False
    then show ?thesis using ab c by (simp add: cl_ok_def)
  qed
  moreover have "\<forall>g \<in> set (c[i := f]). -1 \<le> g"
    using c f set_update_subset_insert [of c i f] by (auto simp: cl_ok_def)
  ultimately show ?thesis using len by (auto simp: cl_ok_def)
qed

lemma oq_ok_accept: "oq_ok c q \<Longrightarrow> oq_ok (c[i := f]) (q[i := []])"
  unfolding oq_ok_def by (metis length_list_update nth_list_update_eq nth_list_update_neq)

text \<open>\<open>accept\<close> gives a descriptor that is not open: the one thing the invariant asks of the system.\<close>

definition fresh_accept :: "env \<Rightarrow> state \<Rightarrow> bool" where
  "fresh_accept env s \<longleftrightarrow> e_accept env (tick s) < 0 \<or> e_accept env (tick s) \<notin> set (cl s)"

lemma accept_client_inv:
  assumes s: "dinv s" and f: "fresh_accept env s"
  shows "dinv (accept_client env s)"
proof (cases "find (\<lambda>i. cl s ! i < 0) [0..<MAXCL]")
  case None
  then show ?thesis using s by (auto simp: accept_client_def Let_def dinv_def dinv0_def)
next
  case (Some i)
  let ?c = "e_accept env (tick s)"
  have i: "i < MAXCL" "cl s ! i < 0" using Some by (auto simp: find_Some_iff)
  show ?thesis
  proof (cases "0 \<le> ?c")
    case False
    then show ?thesis using s Some by (simp add: accept_client_def Let_def)
  next
    case True
    with f have c: "?c \<notin> set (cl s)" by (auto simp: fresh_accept_def)
    have ok: "cl_ok (cl s)" "oq_ok (cl s) (oq s)" using s by (simp_all add: dinv_def dinv0_def)
    have "dinv ((tk s)\<lparr>cl := (cl s)[i := ?c], oq := (oq s)[i := []]\<rparr>)"
      using s i cl_ok_accept [OF ok(1) c True, of i] oq_ok_accept [OF ok(2), of i ?c]
      unfolding dinv_def dinv0_def by (simp add: jobs_ok_accept)
    then show ?thesis
      using Some True by (simp add: accept_client_def Let_def drop_out_def)
  qed
qed

lemma inv_job:
  assumes "dinv s" and "up s" and "length (queue s) < QMAX" and "fd_ok (cl s) (j_fd j)" and "buf_ok j"
  shows "dinv (s\<lparr>queue := queue s @ [j]\<rparr>)"
  using assms by (auto simp: dinv_def dinv0_def jobs_ok_append, auto simp: jobs_ok_def)

lemma rd_loop_length: "rd_loop n rs = Some b \<Longrightarrow> length b = n"
proof (induction n rs arbitrary: b rule: rd_loop.induct)
  case (1 n)
  then show ?case by (simp split: if_splits)
next
  case (2 n r rs)
  show ?case
  proof (cases "n = 0")
    case True
    with 2 show ?thesis by simp
  next
    case n: False
    show ?thesis
    proof (cases r)
      case (Got g)
      then have g: "g \<noteq> []" using "2.prems" n by auto
      then obtain x where x: "rd_loop (n - length (take n g)) rs = Some x" "b = take n g @ x"
        using "2.prems" n Got by (auto simp: Let_def simp del: length_take)
      from "2.IH"(1) [OF n Got g refl x(1)] x(2) show ?thesis by simp
    next
      case Waited
      with "2.prems" n have "rd_loop n rs = Some b" by simp
      with "2.IH"(2) [OF n Waited] show ?thesis by blast
    next
      case Lost
      with "2.prems" n show ?thesis by simp
    qed
  qed
qed

lemma enqueue_inv:
  assumes s: "dinv s" and up: "up s" and q: "length (queue s) < QMAX" and i: "i < MAXCL" "0 \<le> cl s ! i"
    and h: "length h = JOB_HDR" and n: "0 \<le> sint (g4 h H_LEN)" "sint (g4 h H_LEN) \<le> JOB_BIG"
  shows "dinv (enqueue env i h s)"
proof -
  let ?n = "sint (g4 h H_LEN)"
  have f: "fd_ok (cl s) (cl s ! i)" using i s by (auto simp: fd_ok_def dinv_def dinv0_def cl_ok_def)
  have "dinv ((tk t)\<lparr>queue := queue s @ [\<lparr>j_fd = cl s ! i, j_cid = c, j_wid = 0, j_n = ?n, j_buf = h @ p,
      j_node = 0, j_due = 0, j_due_t = 0\<rparr>]\<rparr>)"
    if "length p = nat ?n" "dinv t" "up t" "queue t = queue s" "cl t = cl s" for c p t
    using inv_job [of "tk t" "\<lparr>j_fd = cl s ! i, j_cid = c, j_wid = 0, j_n = ?n, j_buf = h @ p,
      j_node = 0, j_due = 0, j_due_t = 0\<rparr>"] s up q f h n that by (simp add: buf_ok_def)
  note push = this
  show ?thesis
  proof (cases "0 < ?n")
    case True
    show ?thesis
    proof (cases "rd_loop (nat ?n) (e_read env (tick (tk s)))")
      case None
      then show ?thesis using True s by (simp add: enqueue_def Let_def rd_def answer_inv)
    next
      case (Some p)
      have "dinv ((tk (tk s))\<lparr>queue := queue s @ [\<lparr>j_fd = cl s ! i, j_cid = g2 h 0, j_wid = 0, j_n = ?n,
        j_buf = h @ p, j_node = 0, j_due = 0, j_due_t = 0\<rparr>]\<rparr>)"
        using push [of p "tk s" "g2 h 0"] rd_loop_length [OF Some] s up q by simp
      then show ?thesis using Some True s by (simp add: enqueue_def Let_def rd_def answer_inv)
    qed
  next
    case False
    then show ?thesis using push [of "[]" s "g2 h 0"] s n up
      by (simp add: enqueue_def Let_def answer_inv)
  qed
qed

lemma sink_inv [simp]: "dinv (sink n s) = dinv s"
  by (simp add: sink_def)

lemma grant_lease_inv:
  assumes "dinv s" and "leased s < 0" and "i < MAXCL"
  shows "dinv (grant_lease env i c s)"
proof -
  have "leased s = -1" using assms by (auto simp: dinv_def dinv0_def)
  from go_down_inv [OF assms(1) this, of env] go_down_inv0 [of s env] this assms
  have "dinv ((go_down env s)\<lparr>down_since := 0, leased := int i\<rparr>)"
    by (auto simp: dinv_def dinv0_def)
  then show ?thesis by (simp add: grant_lease_def Let_def answer_inv)
qed

lemma serve_request_inv:
  assumes s: "dinv s" and i: "i < MAXCL" "0 \<le> cl s ! i" and h: "length h = JOB_HDR"
  shows "dinv (serve_request env i h s)"
proof -
  have "dinv (enqueue env i h s)" if "\<not> too_big s h" "up s" "length (queue s) < QMAX"
    using that s enqueue_inv [OF s _ _ i h, of env] by (auto simp: too_big_def Let_def dinv_def dinv0_def)
  then show ?thesis
    using s i by (simp add: serve_request_def Let_def drop_client_inv answer_inv grant_lease_inv)
qed

lemma serve_client_inv:
  assumes "dinv s" and "i < MAXCL"
  shows "dinv (serve_client env rs s i)"
proof (cases "rd_loop JOB_HDR (e_read env (tick s))")
  case None
  then show ?thesis using assms by (simp add: serve_client_def rd_def drop_client_inv)
next
  case (Some h)
  then show ?thesis
    using assms rd_loop_length [OF Some] by (simp add: serve_client_def rd_def serve_request_inv)
qed

lemma foldl_inv: "(\<And>s i. dinv s \<Longrightarrow> i \<in> set xs \<Longrightarrow> dinv (f s i)) \<Longrightarrow> dinv s \<Longrightarrow> dinv (foldl f s xs)"
  by (induction xs arbitrary: s) auto

lemma watchdog_inv: "dinv s \<Longrightarrow> dinv (watchdog env s)"
proof -
  assume s: "dinv s"
  obtain late t where l: "late_job env (tick s) (inflight s) = (late, t)" by (metis surj_pair)
  show ?thesis
  proof (cases late)
    case False
    then show ?thesis using s by (simp add: watchdog_def l)
  next
    case True
    then have "inflight s \<noteq> []" using l by auto
    then have lea: "leased s = -1" using s inv_unleased by blast
    let ?t = "tk (s\<lparr>tick := t\<rparr>)"
    have "dinv0 ?t" "leased ?t = -1" using s lea by (simp_all add: dinv_def)
    from reboot_inv [of "(go_down env ?t)\<lparr>rbuf := []\<rparr>" env] go_down_inv0 [OF this, of env]
    show ?thesis using True by (simp add: watchdog_def l)
  qed
qed

lemma retry_boot_inv: "dinv s \<Longrightarrow> dinv (retry_boot env s)"
proof -
  assume s: "dinv s"
  have "dinv (reboot env (tk s)) \<and> leased (reboot env (tk s)) = -1" if "\<not> up s" "down_since s \<noteq> 0"
    using reboot_inv [of "tk s" env] s that by (auto simp: dinv_def dinv0_def)
  then show ?thesis using s by (auto simp: retry_boot_def Let_def dinv_def dinv0_def)
qed

lemma spin_inv: "dinv s \<Longrightarrow> 0 < was \<Longrightarrow> dinv (spin env was k s)"
  by (induction k arbitrary: s) (auto simp: poll_link_inv)

lemma spin_pass_inv: "dinv s \<Longrightarrow> inflight s \<noteq> [] \<Longrightarrow> dinv (spin_pass env s)"
  unfolding spin_pass_def
  by (intro foldl_inv send_jobs_inv spin_inv) (auto simp: flush_pending_def flush_out_inv)

lemma select_pass_inv:
  assumes "dinv s" and "lis \<longrightarrow> fresh_accept env s"
  shows "dinv (select_pass env lis rs ws s)"
proof -
  define s1 where "s1 = (if lis then accept_client env s else s)"
  define s2 where "s2 = foldl (flush_ready env ws) s1 [0..<MAXCL]"
  define s3 where "s3 = send_jobs env (foldl (serve_client env rs) s2 [0..<MAXCL])"
  define s4 where "s4 = (if inflight s3 \<noteq> [] then send_jobs env (poll_link env s3) else s3)"
  have "dinv s1" using assms by (simp add: s1_def accept_client_inv)
  then have "dinv s2" unfolding s2_def by (rule foldl_inv [rotated]) (auto simp: flush_ready_def flush_out_inv)
  then have "dinv s3" unfolding s3_def by (intro send_jobs_inv foldl_inv) (auto simp: serve_client_inv)
  then have "dinv s4" by (simp add: s4_def send_jobs_inv poll_link_inv)
  then have "dinv (retry_boot env (watchdog env s4))" by (intro retry_boot_inv watchdog_inv)
  then show ?thesis
    unfolding select_pass_def Let_def s4_def s3_def s2_def s1_def .
qed

text \<open>The state in which the \<open>select\<close> of an iteration finds the daemon.\<close>

definition at_select :: "state \<Rightarrow> state" where
  "at_select s = (if inflight s \<noteq> [] then tk (tk s) else s)"

lemma main_iter_inv:
  assumes "dinv s" and "fresh_accept env (tk (at_select s))" and "main_iter env s = Inr s'"
  shows "dinv s'"
proof (cases "recent env 20 s")
  case True
  then show ?thesis using assms spin_pass_inv [of "tk s" env] by (auto simp: main_iter_def recent_def)
next
  case False
  have "dinv (at_select s)" using assms(1) by (simp add: at_select_def)
  then show ?thesis
    using assms False select_pass_inv [of "tk (at_select s)" _ env]
    by (auto simp: main_iter_def Let_def at_select_def [symmetric] split: sres.splits)
qed

lemma main_init_inv: "dinv (main_init env fd)"
proof -
  have "dinv0 (zero_state fd)"
    by (auto simp: dinv0_def zero_state_def cl_ok_def oq_ok_def jobs_ok_def nodes_ok_def JOB_MAX_def JOB_BIG_def
        NODES_def MAXCL_def QMAX_def)
  then have "dinv (reboot env (zero_state fd))"
    using reboot_inv [of "zero_state fd" env] by (auto simp: zero_state_def busy_ok_def)
  then show ?thesis by (simp add: main_init_def due_note_keeps)
qed

text \<open>The states \<open>main\<close> goes through.\<close>

inductive reachable :: "env \<Rightarrow> int \<Rightarrow> state \<Rightarrow> bool" for env :: env and fd :: int where
  start: "reachable env fd (main_init env fd)"
| iter: "reachable env fd s \<Longrightarrow> fresh_accept env (tk (at_select s)) \<Longrightarrow> main_iter env s = Inr s' \<Longrightarrow>
    reachable env fd s'"

lemma reachable_dinv: "reachable env fd s \<Longrightarrow> dinv s"
  by (induction rule: reachable.induct) (auto simp: main_init_inv intro: main_iter_inv)

lemma dinv_safe:
  assumes "dinv s"
  shows "length (queue s) \<le> QMAX" and "length (inflight s) \<le> NODES"
    and "int (length (rbuf s)) \<le> int LREP_HDR + JOB_BIG"
    and "distinct (map j_node (inflight s))"
    and "\<forall>j \<in> set (inflight s). j_node j < NODES \<and> \<not> absent s ! j_node j"
    and "\<forall>k < NODES. busy s ! k \<longleftrightarrow> (\<exists>j \<in> set (inflight s). j_node j = k)"
    and "\<forall>j \<in> set (queue s) \<union> set (inflight s). length (j_buf j) = JOB_HDR + nat (j_n j) \<and>
      (j_fd j = -1 \<or> (\<exists>i < MAXCL. cl s ! i = j_fd j))"
    and "\<not> up s \<Longrightarrow> queue s = [] \<and> inflight s = []" and "0 \<le> leased s \<Longrightarrow> \<not> up s"
proof -
  note i = assms [unfolded dinv_def dinv0_def]
  show "length (inflight s) \<le> NODES" using i nodes_ok_length [of "absent s" "map j_node (inflight s)"] by simp
  show "int (length (rbuf s)) \<le> int LREP_HDR + JOB_BIG" using i by (auto simp: rbuf_ok_def JOB_BIG_def)
  show "\<forall>k < NODES. busy s ! k \<longleftrightarrow> (\<exists>j \<in> set (inflight s). j_node j = k)" using i by (auto simp: busy_ok_def)
  show "\<forall>j \<in> set (queue s) \<union> set (inflight s). length (j_buf j) = JOB_HDR + nat (j_n j) \<and>
      (j_fd j = -1 \<or> (\<exists>i < MAXCL. cl s ! i = j_fd j))"
  proof
    fix j assume "j \<in> set (queue s) \<union> set (inflight s)"
    then have "fd_ok (cl s) (j_fd j)" "buf_ok j" using i by (auto simp: jobs_ok_def)
    moreover have "length (cl s) = MAXCL" using i by (simp add: cl_ok_def)
    ultimately show "length (j_buf j) = JOB_HDR + nat (j_n j) \<and> (j_fd j = -1 \<or> (\<exists>i < MAXCL. cl s ! i = j_fd j))"
      by (simp add: fd_ok_def buf_ok_def in_set_conv_nth) blast
  qed
qed (use assms in \<open>auto simp: dinv_def dinv0_def nodes_ok_def\<close>)

end
