(* ===== verification/TtjobdProps.thy ===== *)
theory TtjobdProps
  imports TtjobdInv
begin

text \<open>
  What clients of the daemon see. The \<open>stream\<close> of a descriptor is everything written to it followed
  by what still waits in its output queue; on a system that has memory and whose sockets do not
  break (\<open>calm\<close>) posting a reply appends it to its client's stream and touches no other. From that
  contract, stated as a locale and interpreted on \<open>wr\<close>, follow the replies of \<open>go_down\<close>, of a
  finished job and of a refused request. The scheduling rule and the arithmetic of the
  estimates are stated here as well.
\<close>

section \<open>Reply channels\<close>

locale reply_channel =
  fixes post :: "int \<Rightarrow> bytes \<Rightarrow> 's \<Rightarrow> 's"
    and str :: "int \<Rightarrow> 's \<Rightarrow> bytes"
    and good :: "'s \<Rightarrow> bool"
    and opened :: "'s \<Rightarrow> int \<Rightarrow> bool"
  assumes post_good: "good s \<Longrightarrow> b \<noteq> [] \<Longrightarrow> good (post f b s)"
    and post_opened: "good s \<Longrightarrow> b \<noteq> [] \<Longrightarrow> opened (post f b s) = opened s"
    and post_stream: "good s \<Longrightarrow> b \<noteq> [] \<Longrightarrow>
      str g (post f b s) = (if g = f \<and> opened s f then str g s @ b else str g s)"
begin

text \<open>A series of replies arrives in order, each at its own client.\<close>

lemma post_all:
  "good s \<Longrightarrow> \<forall>x \<in> set xs. snd x \<noteq> [] \<Longrightarrow>
   good (foldl (\<lambda>s x. post (fst x) (snd x) s) s xs) \<and>
   opened (foldl (\<lambda>s x. post (fst x) (snd x) s) s xs) = opened s \<and>
   str g (foldl (\<lambda>s x. post (fst x) (snd x) s) s xs) =
     str g s @ (if opened s g then concat (map snd (filter (\<lambda>x. fst x = g) xs)) else [])"
proof (induction xs arbitrary: s)
  case Nil
  then show ?case by simp
next
  case (Cons x xs)
  then have g: "good (post (fst x) (snd x) s)" "opened (post (fst x) (snd x) s) = opened s"
    by (simp_all add: post_good post_opened)
  from Cons.prems have "str g (post (fst x) (snd x) s) =
      (if g = fst x \<and> opened s (fst x) then str g s @ snd x else str g s)"
    by (simp add: post_stream)
  with Cons.IH [OF g(1)] Cons.prems(2) g(2) show ?case by auto
qed

end

definition rest :: "chunk list \<Rightarrow> bytes" where
  "rest q = concat (map (\<lambda>(d, off). drop off d) q)"

definition sent_to :: "int \<Rightarrow> (int \<times> bytes) list \<Rightarrow> bytes" where
  "sent_to f l = concat (map snd (filter (\<lambda>p. fst p = f) l))"

definition stream :: "int \<Rightarrow> state \<Rightarrow> bytes" where
  "stream f s = sent_to f (sent s) @ (case find_cl f s of Some i \<Rightarrow> rest (oq s ! i) | None \<Rightarrow> [])"

definition calm :: "env \<Rightarrow> bool" where
  "calm env \<longleftrightarrow> (\<forall>t. e_malloc env t \<and> e_write env t \<noteq> Broken \<and> e_write env t \<noteq> Wrote 0)"

definition live_chunks :: "chunk list \<Rightarrow> bool" where
  "live_chunks q \<longleftrightarrow> (\<forall>(d, off) \<in> set q. off < length d)"

definition chunks_ok :: "state \<Rightarrow> bool" where
  "chunks_ok s \<longleftrightarrow> length (oq s) = MAXCL \<and> (\<forall>i < MAXCL. live_chunks (oq s ! i))"

definition client_open :: "state \<Rightarrow> int \<Rightarrow> bool" where
  "client_open s f \<longleftrightarrow> 0 \<le> f \<and> find_cl f s \<noteq> None"

lemma rest_simps [simp]: "rest [] = []" "rest ((d, off) # q) = drop off d @ rest q" "rest (p @ q) = rest p @ rest q"
  by (simp_all add: rest_def)

lemma live_simps [simp]:
  "live_chunks []" "live_chunks ((d, off) # q) \<longleftrightarrow> off < length d \<and> live_chunks q"
  "live_chunks (p @ q) \<longleftrightarrow> live_chunks p \<and> live_chunks q"
  by (auto simp: live_chunks_def)

lemma flush_q_calm:
  "calm env \<Longrightarrow> live_chunks q \<Longrightarrow> flush_q env t q = (w, q', t') \<Longrightarrow> w @ rest q' = rest q \<and> live_chunks q'"
proof (induction env t q arbitrary: w q' t' rule: flush_q.induct)
  case (1 env t)
  then show ?case by simp
next
  case (2 env t d off cs)
  show ?case
  proof (cases "e_write env t")
    case (Wrote r)
    define k where "k = min r (length d - off)"
    define q1 where "q1 = (if off + k = length d then cs else (d, off + k) # cs)"
    have "r \<noteq> 0" using 2(2) Wrote by (metis calm_def)
    then have k: "k \<noteq> 0" "off + k \<le> length d" using 2(3) by (auto simp: k_def)
    obtain w1 q2 t2 where f: "flush_q env (Suc t) q1 = (w1, q2, t2)" by (metis surj_pair)
    have "live_chunks q1" using 2(3) k by (auto simp: q1_def)
    from "2.IH" [OF Wrote k_def k(1) 2(2)] this f have "w1 @ rest q2 = rest q1 \<and> live_chunks q2"
      by (simp add: q1_def)
    moreover have "w = take k (drop off d) @ w1" "q' = q2"
      using 2(4) Wrote k f by (simp_all add: Let_def k_def [symmetric] q1_def [symmetric] del: if_split)
    moreover have "take k (drop off d) @ rest q1 = rest ((d, off) # cs)"
    proof (cases "off + k = length d")
      case True
      then show ?thesis by (auto simp: q1_def)
    next
      case False
      have "take k (drop off d) @ drop k (drop off d) = drop off d" by (rule append_take_drop_id)
      with False show ?thesis by (simp add: q1_def add.commute)
    qed
    ultimately show ?thesis by simp
  next
    case Again
    with 2 show ?thesis by auto
  next
    case Broken
    with 2(2) show ?thesis by (auto simp: calm_def)
  qed
qed

lemma find_cl_cl: "cl s = cl t \<Longrightarrow> find_cl f s = find_cl f t"
  by (simp add: find_cl_def)

lemma sent_to_snoc: "sent_to g (l @ [(f, w)]) = sent_to g l @ (if g = f then w else [])"
  by (simp add: sent_to_def)

lemma same_output:
  assumes "cl t = cl s" and "oq t = oq s" and "sent t = sent s"
  shows "stream f t = stream f s" and "client_open t = client_open s" and "chunks_ok t = chunks_ok s"
  using assms by (simp_all add: stream_def chunks_ok_def client_open_def find_cl_def fun_eq_iff
      split: option.split)

text \<open>On a calm system \<open>wr\<close> changes the output side alone.\<close>

definition posted :: "state \<Rightarrow> state \<Rightarrow> bool" where
  "posted s t \<longleftrightarrow> (\<exists>o' w' n. t = s\<lparr>oq := o', sent := w', tick := n\<rparr>)"

lemma posted_frame:
  assumes "posted s t"
  shows "queue t = queue s" and "inflight t = inflight s" and "cl t = cl s" and "busy t = busy s"
    and "up t = up s" and "leased t = leased s" and "rbuf t = rbuf s" and "find_cl f t = find_cl f s"
    and "absent t = absent s" and "big_max t = big_max s" and "link_out t = link_out s"
  using assms by (auto simp: posted_def find_cl_def)

lemma wr_calm:
  assumes "calm env" and "chunks_ok s" and "b \<noteq> []"
  shows "chunks_ok (wr env f b s) \<and> posted s (wr env f b s) \<and>
    stream g (wr env f b s) = (if g = f \<and> client_open s f then stream g s @ b else stream g s)"
proof (cases "client_open s f")
  case False
  then have "wr env f b s = s" by (auto simp: wr_def client_open_def split: option.splits)
  moreover have "posted s s" unfolding posted_def by (rule exI [of _ "oq s"], rule exI [of _ "sent s"], rule exI [of _ "tick s"]) simp
  ultimately show ?thesis using assms False by simp
next
  case True
  then obtain i where i: "find_cl f s = Some i" "0 \<le> f" by (auto simp: client_open_def)
  note c = find_cl_SomeD [OF i(1)]
  define q0 where "q0 = oq s ! i @ [(b, 0)]"
  obtain w q t where f: "flush_q env (Suc (tick s)) q0 = (w, q, t)" by (metis surj_pair)
  have "live_chunks q0" using assms c by (auto simp: q0_def chunks_ok_def)
  from flush_q_calm [OF assms(1) this f] have q: "w @ rest q = rest (oq s ! i) @ b" "live_chunks q"
    by (simp_all add: q0_def)
  have len: "length (oq s) = MAXCL" using assms(2) by (simp add: chunks_ok_def)
  have wr: "wr env f b s = s\<lparr>oq := (oq s)[i := q], tick := t,
      sent := (if w = [] then sent s else sent s @ [(f, w)])\<rparr>"
    using i c assms(1) len f
    by (simp add: wr_def calm_def flush_out_def tk_def q0_def)
  have "chunks_ok (wr env f b s)"
    using assms(2) q(2) c by (auto simp: wr chunks_ok_def nth_list_update)
  moreover have "posted s (wr env f b s)"
    unfolding wr posted_def
    by (rule exI [of _ "(oq s)[i := q]"], rule exI [of _ "if w = [] then sent s else sent s @ [(f, w)]"],
        rule exI [of _ t]) simp
  moreover have "stream g (wr env f b s) = (if g = f then stream g s @ b else stream g s)"
  proof (cases "g = f")
    case True
    then show ?thesis
      using q(1) i c len by (auto simp: stream_def wr find_cl_def sent_to_snoc)
  next
    case False
    have "oq s ! k = (oq s)[i := q] ! k" if "find_cl g s = Some k" for k
      using find_cl_SomeD [OF that] c False by (metis nth_list_update_neq)
    then show ?thesis using False
      by (auto simp: stream_def wr sent_to_snoc find_cl_def split: option.splits)
  qed
  ultimately show ?thesis using True by simp
qed

interpretation replies: reply_channel "wr env" stream "\<lambda>s. calm env \<and> chunks_ok s" client_open for env
proof unfold_locales
  fix s f g and b :: bytes
  assume s: "calm env \<and> chunks_ok s" and b: "b \<noteq> []"
  then show "calm env \<and> chunks_ok (wr env f b s)"
    and "stream g (wr env f b s) = (if g = f \<and> client_open s f then stream g s @ b else stream g s)"
    using wr_calm [of env s b] by auto
  have "find_cl h (wr env f b s) = find_cl h s" for h
    using wr_calm [of env s b f 0] s b posted_frame(8) by blast
  then show "client_open (wr env f b s) = client_open s"
    by (simp add: client_open_def fun_eq_iff)
qed

section \<open>Going down\<close>

definition down_replies :: "job list \<Rightarrow> (int \<times> bytes) list" where
  "down_replies js = map (\<lambda>j. (j_fd j, status_reply (j_cid j) ST_DOWN)) js"

lemma status_reply_nonempty [simp]: "status_reply c st \<noteq> []"
  by (simp add: status_reply_def mk_rep_def le16_def)

lemma answer_wr: "answer env f c st s = wr env f (status_reply c st) s"
  by (auto simp: answer_def wr_def split: option.splits)

lemma posted_trans: "posted s t \<Longrightarrow> posted t u \<Longrightarrow> posted s u"
proof -
  assume "posted s t" and "posted t u"
  then obtain a b c d e f where "t = s\<lparr>oq := a, sent := b, tick := c\<rparr>" "u = t\<lparr>oq := d, sent := e, tick := f\<rparr>"
    by (auto simp: posted_def)
  then have "u = s\<lparr>oq := d, sent := e, tick := f\<rparr>" by simp
  then show ?thesis unfolding posted_def by blast
qed

lemma posted_refl: "posted s s"
  unfolding posted_def by (rule exI [of _ "oq s"], rule exI [of _ "sent s"], rule exI [of _ "tick s"]) simp

text \<open>The loops of \<open>go_down\<close> read the tables as they go; on a calm system these do not change.\<close>

lemma fold_posts:
  assumes "calm env" and "chunks_ok s" and "\<And>t i. posted s t \<Longrightarrow> i < length js \<Longrightarrow>
    step t i = answer env (j_fd (js ! i)) (j_cid (js ! i)) ST_DOWN t" and "n \<le> length js"
  shows "foldl step s [0..<n] = foldl (\<lambda>s x. wr env (fst x) (snd x) s) s (down_replies (take n js)) \<and>
    posted s (foldl step s [0..<n]) \<and> chunks_ok (foldl step s [0..<n])"
  using assms(4)
proof (induction n)
  case 0
  then show ?case by (simp add: down_replies_def posted_refl assms)
next
  case (Suc n)
  define t where "t = foldl step s [0..<n]"
  have "t = foldl (\<lambda>s x. wr env (fst x) (snd x) s) s (down_replies (take n js)) \<and> posted s t \<and> chunks_ok t"
    unfolding t_def by (rule Suc.IH) (use Suc.prems in simp)
  then have t: "t = foldl (\<lambda>s x. wr env (fst x) (snd x) s) s (down_replies (take n js))" "posted s t" "chunks_ok t"
    by blast+
  have "step t n = wr env (j_fd (js ! n)) (status_reply (j_cid (js ! n)) ST_DOWN) t"
    using assms(3) [OF t(2)] Suc.prems by (simp add: answer_wr)
  moreover have "foldl step s [0..<Suc n] = step t n" by (simp add: t_def)
  moreover have "take (Suc n) js = take n js @ [js ! n]" using Suc.prems by (simp add: take_Suc_conv_app_nth)
  ultimately show ?case
    using wr_calm [OF assms(1) t(3), of "status_reply (j_cid (js ! n)) ST_DOWN"] t(1,2)
    by (auto simp: down_replies_def intro: posted_trans)
qed

lemma go_down_streams:
  assumes "calm env" and "chunks_ok s"
  shows "stream f (go_down env s) = stream f s @
      (if client_open s f then concat (map snd (filter (\<lambda>x. fst x = f) (down_replies (inflight s @ queue s)))) else [])"
proof -
  define s1 where "s1 = tk (s\<lparr>up := False, down_since := e_time env (tick s)\<rparr>)"
  define s2 where "s2 = foldl (down_in env) s1 [0..<length (inflight s1)]"
  define s3 where "s3 = due_note env 0 (s2\<lparr>inflight := [], busy := replicate NODES False\<rparr>)"
  define s4 where "s4 = foldl (down_q env) s3 [0..<length (queue s3)]"
  have g: "go_down env s = s4\<lparr>queue := []\<rparr>"
    by (simp add: go_down_def Let_def s1_def s2_def s3_def s4_def due_note_busy)
  have s1: "chunks_ok s1" "inflight s1 = inflight s" "queue s1 = queue s"
    "stream f s1 = stream f s" "client_open s1 = client_open s"
    using assms(2) same_output [of s s1] by (simp_all add: s1_def)
  have "s2 = foldl (\<lambda>s x. wr env (fst x) (snd x) s) s1 (down_replies (take (length (inflight s1)) (inflight s1)))
      \<and> posted s1 s2 \<and> chunks_ok s2"
    unfolding s2_def by (rule fold_posts [OF assms(1) s1(1)]) (auto simp: down_in_def posted_frame(2))
  then have s2: "s2 = foldl (\<lambda>s x. wr env (fst x) (snd x) s) s1 (down_replies (inflight s))"
    "posted s1 s2" "chunks_ok s2"
    using s1(2) by auto
  have nonempty: "\<forall>x \<in> set (down_replies js). snd x \<noteq> []" for js by (auto simp: down_replies_def)
  have st2: "stream f s2 = stream f s @
      (if client_open s f then concat (map snd (filter (\<lambda>x. fst x = f) (down_replies (inflight s)))) else [])"
    "client_open s2 = client_open s"
    using replies.post_all [of env s1 "down_replies (inflight s)" f] assms(1) s1 nonempty
    unfolding s2(1) by simp_all
  have s3: "chunks_ok s3" "queue s3 = queue s" "stream f s3 = stream f s2" "client_open s3 = client_open s2"
    using s2(3) posted_frame(1) [OF s2(2)] s1(3) same_output [of s2 s3] by (simp_all add: s3_def)
  have "s4 = foldl (\<lambda>s x. wr env (fst x) (snd x) s) s3 (down_replies (take (length (queue s3)) (queue s3)))
      \<and> posted s3 s4 \<and> chunks_ok s4"
    unfolding s4_def by (rule fold_posts [OF assms(1) s3(1)]) (auto simp: down_q_def posted_frame(1))
  then have s4: "s4 = foldl (\<lambda>s x. wr env (fst x) (snd x) s) s3 (down_replies (queue s))"
    using s3(2) by auto
  have "stream f s4 = stream f s3 @
      (if client_open s f then concat (map snd (filter (\<lambda>x. fst x = f) (down_replies (queue s)))) else [])"
    using replies.post_all [of env s3 "down_replies (queue s)" f] assms(1) s3 st2(2) nonempty
    unfolding s4 by simp
  moreover have "stream f (s4\<lparr>queue := []\<rparr>) = stream f s4" by (rule same_output) simp_all
  ultimately show ?thesis unfolding g using st2(1) s3(3) by (simp add: down_replies_def)
qed

section \<open>A finished job\<close>

lemma take_reply_streams:
  assumes "calm env" and "chunks_ok s" and w: "find_wid (g2 (rbuf s) 0) (inflight s) = Some i"
    and j: "j = inflight s ! i"
  shows "stream f (take_reply env s) =
      (if f = j_fd j \<and> client_open s f then stream f s @ to_client (j_cid j) (rbuf s) else stream f s)"
    and "inflight (take_reply env s) = swap_last i (inflight s)"
    and "busy (take_reply env s) = (busy s)[j_node j := False]"
    and "queue (take_reply env s) = queue s"
proof -
  define s1 where "s1 = (if j_buf j ! 2 = OP_CAPS then s\<lparr>big_max := learn_caps (rbuf s)\<rparr> else s)"
  define s2 where "s2 = (if 0 \<le> j_fd j then wr env (j_fd j) (to_client (j_cid j) (rbuf s)) s1 else s1)"
  define s3 where "s3 = (tk s2)\<lparr>busy := (busy (tk s2))[j_node (inflight (tk s2) ! i) := False],
    inflight := swap_last i (inflight (tk s2))\<rparr>"
  have r: "take_reply env s = (due_note env 0 s3)\<lparr>rbuf := []\<rparr>"
    using w by (simp add: take_reply_def Let_def j [symmetric] s1_def [symmetric] s2_def s3_def)
  have s1: "stream f s1 = stream f s" "client_open s1 = client_open s" "chunks_ok s1"
      "inflight s1 = inflight s" "busy s1 = busy s" "queue s1 = queue s" for f
    using same_output [of s1 s] assms(2) by (simp_all add: s1_def)
  have ne: "to_client (j_cid j) (rbuf s) \<noteq> []" by (simp add: to_client_def le16_def)
  note wrc = wr_calm [OF assms(1) s1(3) ne, of "j_fd j"]
  have s2: "stream f s2 = (if f = j_fd j \<and> client_open s f then stream f s @ to_client (j_cid j) (rbuf s) else stream f s)"
    using wrc s1 by (auto simp: s2_def client_open_def)
  have p: "inflight s2 = inflight s" "busy s2 = busy s" "queue s2 = queue s"
    using wrc posted_frame [of s1] s1 by (auto simp: s2_def)
  have s4: "stream f (take_reply env s) = stream f s2" for f
    unfolding r by (rule same_output) (simp_all add: s3_def)
  show "stream f (take_reply env s) =
      (if f = j_fd j \<and> client_open s f then stream f s @ to_client (j_cid j) (rbuf s) else stream f s)"
    unfolding s4 by (rule s2)
  show "inflight (take_reply env s) = swap_last i (inflight s)"
    "busy (take_reply env s) = (busy s)[j_node j := False]" "queue (take_reply env s) = queue s"
    unfolding r using p by (simp_all add: s3_def j)
qed

section \<open>The scheduling rule\<close>

text \<open>The T425 time of the jobs that wait for it.\<close>

fun reserved :: "job list \<Rightarrow> int" where
  "reserved [] = 0"
| "reserved (j # js) =
     (if j_buf j ! 3 = NODE_ANY then est_ms (j_buf j ! 2) (j_n j) False else 0) + reserved js"

text \<open>A job may start on node \<open>k\<close> now, \<open>t\<close> being the T425's backlog before it.\<close>

definition startable :: "state \<Rightarrow> int \<Rightarrow> job \<Rightarrow> nat \<Rightarrow> bool" where
  "startable s t j k \<longleftrightarrow>
     (if j_buf j ! 3 \<noteq> NODE_ANY then k = unat (j_buf j ! 3) \<and> k < NODES \<and> free_node s k
      else if \<not> busy s ! 0 \<and> t = 0 then k = 0
      else 1 \<le> k \<and> k < NODES \<and> free_node s k \<and>
        est_ms (j_buf j ! 2) (j_n j) True < t + est_ms (j_buf j ! 2) (j_n j) False)"

definition first_startable :: "state \<Rightarrow> int \<Rightarrow> job list \<Rightarrow> nat \<Rightarrow> (nat \<times> nat) option \<Rightarrow> bool" where
  "first_startable s b js q0 r \<longleftrightarrow>
     (case r of
        Some (q, k) \<Rightarrow> q0 \<le> q \<and> q - q0 < length js \<and>
          startable s (b + reserved (take (q - q0) js)) (js ! (q - q0)) k \<and>
          (\<forall>i < q - q0. \<forall>k. \<not> startable s (b + reserved (take i js)) (js ! i) k)
      | None \<Rightarrow> \<forall>i < length js. \<forall>k. \<not> startable s (b + reserved (take i js)) (js ! i) k)"

lemma pick_tram_None: "pick_tram s j t = None \<longleftrightarrow>
    (\<forall>k. 1 \<le> k \<and> k < NODES \<longrightarrow> \<not> (free_node s k \<and> est_ms (j_buf j ! 2) (j_n j) True < t))"
  by (auto simp: pick_tram_def find_None_iff)

lemma first_startable_skip:
  assumes "\<And>k. \<not> startable s b j k" and "first_startable s (b + reserved [j]) js (Suc q0) r"
  shows "first_startable s b (j # js) q0 r"
proof -
  have shift: "b + reserved (take i (j # js)) = b + reserved [j] + reserved (take (i - 1) js)"
    and nth: "(j # js) ! i = js ! (i - 1)" if "0 < i" for i
    using that by (cases i; simp)+
  have low: "\<not> startable s (b + reserved (take i (j # js))) ((j # js) ! i) k"
    if "i < Suc n" "\<forall>i < n. \<forall>k. \<not> startable s (b + reserved [j] + reserved (take i js)) (js ! i) k" for i k n
  proof (cases i)
    case 0
    then show ?thesis using assms(1) by simp
  next
    case (Suc m)
    then show ?thesis using that shift [of i] nth [of i] by (simp only: diff_Suc_1 zero_less_Suc Suc_less_eq) blast
  qed
  show ?thesis
  proof (cases r)
    case None
    then show ?thesis using assms(2) low [of _ "length js"] by (simp add: first_startable_def)
  next
    case (Some qk)
    obtain q k where qk: "r = Some (q, k)" using Some by (metis surj_pair)
    then have q: "Suc q0 \<le> q" "q - Suc q0 < length js"
      "startable s (b + reserved [j] + reserved (take (q - Suc q0) js)) (js ! (q - Suc q0)) k"
      "\<forall>i < q - Suc q0. \<forall>k. \<not> startable s (b + reserved [j] + reserved (take i js)) (js ! i) k"
      using assms(2) by (simp_all add: first_startable_def)
    have d: "q - q0 = Suc (q - Suc q0)" using q(1) by simp
    show ?thesis
      using q low [of _ "q - Suc q0"] shift [of "q - q0"] nth [of "q - q0"]
      by (simp add: first_startable_def qk d add.assoc)
  qed
qed

lemma first_startable_head: "startable s b j k \<Longrightarrow> first_startable s b (j # js) q0 (Some (q0, k))"
  by (simp add: first_startable_def)

lemma pick_from_first: "first_startable s b js q0 (pick_from s q0 js b)"
proof (induction s q0 js b rule: pick_from.induct)
  case (1 s q b)
  then show ?case by (simp add: first_startable_def)
next
  case (2 s q j js b)
  show ?case
  proof (cases "j_buf j ! 3 = NODE_ANY")
    case False
    show ?thesis
    proof (cases "unat (j_buf j ! 3) < NODES \<and> free_node s (unat (j_buf j ! 3))")
      case True
      with False show ?thesis by (auto simp: Let_def startable_def intro!: first_startable_head)
    next
      case blocked: False
      then have "first_startable s b (j # js) q (pick_from s (Suc q) js b)"
        using False 2(1) by (intro first_startable_skip) (auto simp: startable_def)
      moreover have "pick_from s q (j # js) b = pick_from s (Suc q) js b"
        using False blocked by (auto simp: Let_def)
      ultimately show ?thesis by simp
    qed
  next
    case any: True
    show ?thesis
    proof (cases "\<not> busy s ! 0 \<and> b = 0")
      case True
      with any show ?thesis by (auto simp: startable_def intro!: first_startable_head)
    next
      case no: False
      define t where "t = b + est_ms (j_buf j ! 2) (j_n j) False"
      show ?thesis
      proof (cases "pick_tram s j t")
        case (Some k)
        have "startable s b j k" using pick_tram_SomeD [OF Some] any no by (auto simp: startable_def t_def)
        then have "first_startable s b (j # js) q (Some (q, k))" by (rule first_startable_head)
        then show ?thesis using any no Some by (auto simp: Let_def t_def)
      next
        case None
        then have "first_startable s b (j # js) q (pick_from s (Suc q) js t)"
          using any no 2(2) by (intro first_startable_skip) (auto simp: startable_def t_def pick_tram_None)
        then show ?thesis using any no None by (auto simp: Let_def t_def)
      qed
    qed
  qed
qed

section \<open>Times in a 32-bit \<open>long\<close>\<close>

lemma in_long_range: "0 \<le> x \<Longrightarrow> x \<le> 2147483647 \<Longrightarrow> in_long x"
  by (simp add: in_long_def)

lemma est_us_bounds:
  assumes "0 \<le> n" and "n \<le> JOB_BIG"
  shows "0 \<le> fst (est_us op n) \<and> fst (est_us op n) \<le> 841432000"
proof -
  have "n div 2 \<le> n" using assms(1) by presburger
  with assms show ?thesis by (auto simp: est_us_def JOB_BIG_def)
qed

lemma est_us_tram_bounds:
  assumes "0 \<le> n" and "n \<le> JOB_BIG" and "\<not> t425_only op n"
  shows "0 \<le> fst (est_us op n) \<and> fst (est_us op n) \<le> 25804800"
proof -
  have "n div 2 \<le> n" using assms(1) by presburger
  with assms show ?thesis by (auto simp: est_us_def t425_only_def JOB_MAX_def)
qed

text \<open>The intermediate \<open>long\<close> values of an estimate for a TRAM: the product before the division.\<close>

definition tram_us :: "u8 \<Rightarrow> int \<Rightarrow> int" where
  "tram_us op n = (let (us, comp) = est_us op n in if comp then cdiv us 10 * 28 else us * 2)"

lemma tram_us_bounds:
  assumes "0 \<le> n" and "n \<le> JOB_BIG" and "\<not> t425_only op n"
  shows "0 \<le> tram_us op n \<and> tram_us op n \<le> 72253440"
proof -
  obtain us comp where e: "est_us op n = (us, comp)" by (metis surj_pair)
  have "0 \<le> us" "us \<le> 25804800" using est_us_tram_bounds [OF assms] e by simp_all
  then have "us div 10 \<le> 2580480" "0 \<le> us div 10"
    using zdiv_mono1 [of us 25804800 10] by simp_all
  with \<open>0 \<le> us\<close> \<open>us \<le> 25804800\<close> show ?thesis by (simp add: tram_us_def e)
qed

lemma est_ms_bounds:
  assumes "0 \<le> n" and "n \<le> JOB_BIG"
  shows "0 \<le> est_ms op n tram \<and> est_ms op n tram \<le> 2147483"
proof (cases tram)
  case False
  obtain us comp where e: "est_us op n = (us, comp)" by (metis surj_pair)
  have "0 \<le> us" "us \<le> 841432000" using est_us_bounds [OF assms, of op] e by simp_all
  then have "0 \<le> us div 1000" "us div 1000 \<le> 2147483"
    using zdiv_mono1 [of us 841432000 1000] by simp_all
  with False \<open>0 \<le> us\<close> show ?thesis by (simp add: est_ms_def e)
next
  case tram: True
  show ?thesis
  proof (cases "t425_only op n")
    case True
    with tram show ?thesis by (simp add: est_ms_def split_beta)
  next
    case False
    then have b: "0 \<le> tram_us op n" "tram_us op n \<le> 72253440" using tram_us_bounds [OF assms] by simp_all
    then have "0 \<le> tram_us op n div 1000" "tram_us op n div 1000 \<le> 2147483"
      using zdiv_mono1 [of "tram_us op n" 72253440 1000] by simp_all
    moreover have "est_ms op n True = cdiv (tram_us op n) 1000"
      using False by (simp add: est_ms_def tram_us_def split_beta)
    ultimately show ?thesis using tram b by simp
  qed
qed

lemma deadline_bounds:
  assumes "0 \<le> j_n j" and "j_n j \<le> JOB_BIG"
  shows "5000 \<le> deadline_ms j node \<and> deadline_ms j node \<le> 6447449"
  using est_ms_bounds [OF assms, of "j_buf j ! 2" "node \<noteq> 0"] by (simp add: deadline_ms_def)

section \<open>Properties\<close>

text \<open>A system on which everything works, for the examples: client 0 is descriptor 5.\<close>

definition demo_env :: env where
  "demo_env = \<lparr>e_cps = 200, e_img = ''/usr/lib/t425/jobfull.btl'', e_images = None,
     e_clock = (\<lambda>_. 0), e_time = (\<lambda>_. 0), e_malloc = (\<lambda>_. True), e_write = (\<lambda>_. Wrote 7),
     e_read = (\<lambda>_. []), e_select = (\<lambda>_. Interrupted), e_accept = (\<lambda>_. -1), e_seek = (\<lambda>_. True),
     e_boot = (\<lambda>_ _. 0), e_link_write = (\<lambda>_ b. int (length b)), e_link_read = (\<lambda>_. [])\<rparr>"

definition demo_job :: "u16 \<Rightarrow> u16 \<Rightarrow> nat \<Rightarrow> job" where
  "demo_job cid wid node = \<lparr>j_fd = 5, j_cid = cid, j_wid = wid, j_n = 0,
     j_buf = mk_req cid OP_ECHO NODE_ANY 0 0 1, j_node = node, j_due = 0, j_due_t = 0\<rparr>"

definition demo_state :: state where
  "demo_state = (zero_state 3)\<lparr>up := True, cl := [5, -1, -1, -1, -1, -1, -1, -1],
     inflight := [demo_job 7 1 0], busy := [True, False, False], queue := [demo_job 8 0 0]\<rparr>"

lemma demo_calm: "calm demo_env"
  by (simp add: calm_def demo_env_def)

lemma demo_chunks: "chunks_ok demo_state"
  by (simp add: chunks_ok_def demo_state_def zero_state_def MAXCL_def)

lemma demo_open: "client_open demo_state 5"
  by (simp add: client_open_def find_cl_def demo_state_def MAXCL_def upt_rec)

text \<open>C1. In every state the daemon's main loop reaches: at most 32 jobs are queued and 3 in flight,
  each of these on a node of its own that the image has, and a node is marked busy exactly when a
  job runs there; the reply buffer never holds more than a header and the largest reply; every
  job's buffer has the length its header says; a job is addressed to a connected client or to nobody;
  no job is held while the network is down; and a leased board means the network is down.\<close>

theorem ttjobd_reachable_safe:
  assumes "reachable env fd s"
  shows "length (queue s) \<le> QMAX \<and> length (inflight s) \<le> NODES \<and>
    int (length (rbuf s)) \<le> int LREP_HDR + JOB_BIG \<and>
    distinct (map j_node (inflight s)) \<and>
    (\<forall>j \<in> set (inflight s). j_node j < NODES \<and> \<not> absent s ! j_node j) \<and>
    (\<forall>k < NODES. busy s ! k \<longleftrightarrow> (\<exists>j \<in> set (inflight s). j_node j = k)) \<and>
    (\<forall>j \<in> set (queue s) \<union> set (inflight s). length (j_buf j) = JOB_HDR + nat (j_n j) \<and>
      (j_fd j = -1 \<or> (\<exists>i < MAXCL. cl s ! i = j_fd j))) \<and>
    (\<not> up s \<longrightarrow> queue s = [] \<and> inflight s = []) \<and> (0 \<le> leased s \<longrightarrow> \<not> up s)"
  using dinv_safe [OF reachable_dinv [OF assms]] by (intro conjI impI) simp_all

theorem ttjobd_reachable_safe_witness:
  "length (queue (main_init demo_env 3)) \<le> QMAX \<and> length (inflight (main_init demo_env 3)) \<le> NODES"
  using ttjobd_reachable_safe [OF reachable.start [of demo_env 3]] by simp

text \<open>C10. \<open>go_down\<close> on a calm system sends every connected client exactly one \<open>ST_DOWN\<close> reply, with the
  client's own job id, for each of its jobs, those in flight first, after whatever was already
  queued for it; no other bytes are sent, and no job is left.\<close>

theorem ttjobd_go_down_answers_all:
  assumes "calm env" and "chunks_ok s" and "client_open s f" and "dinv s" and "leased s = -1"
  shows "stream f (go_down env s) = stream f s @
      concat (map (\<lambda>j. mk_rep (j_cid j) ST_DOWN 0 0 0) (filter (\<lambda>j. j_fd j = f) (inflight s @ queue s))) \<and>
    queue (go_down env s) = [] \<and> inflight (go_down env s) = [] \<and> \<not> up (go_down env s)"
proof -
  have "map snd (filter (\<lambda>x. fst x = f) (down_replies js)) =
      map (\<lambda>j. mk_rep (j_cid j) ST_DOWN 0 0 0) (filter (\<lambda>j. j_fd j = f) js)" for js
    by (induction js) (auto simp: down_replies_def status_reply_def)
  then show ?thesis
    using go_down_streams [OF assms(1,2), of f] go_down_inv0 [of s env] assms(3-5)
    by (simp add: dinv_def del: filter_append map_append)
qed

text \<open>C2. A whole reply from the link goes to the client that sent the job and to nobody else: with the
  client's own job id in place of the wire id, without the node byte, the status, lengths,
  checksums and output unchanged. The job leaves the table and its node is free again.\<close>

theorem ttjobd_reply_routed:
  assumes "calm env" and "chunks_ok s" and "dinv s"
    and "rbuf s = mk_lrep wid st n ck oc node @ out" and "find_wid wid (inflight s) = Some i"
    and "j = inflight s ! i" and "client_open s (j_fd j)"
  shows "stream (j_fd j) (take_reply env s) = stream (j_fd j) s @ mk_rep (j_cid j) st n ck oc @ out \<and>
    (\<forall>f. f \<noteq> j_fd j \<longrightarrow> stream f (take_reply env s) = stream f s) \<and>
    j \<in> set (inflight s) \<and> j_wid j = wid \<and>
    j_node ` set (inflight (take_reply env s)) = j_node ` set (inflight s) - {j_node j} \<and>
    \<not> busy (take_reply env s) ! j_node j"
proof -
  have w: "find_wid (g2 (rbuf s) 0) (inflight s) = Some i" using assms(4,5) by (simp add: lrep_fields)
  note i = find_wid_SomeD [OF assms(5)] and t = take_reply_streams [OF assms(1,2) w assms(6)]
  have n: "distinct (map j_node (inflight s))" "j_node j < length (busy s)"
    using dinv_safe(4,5) [OF assms(3)] i assms(3,6) by (auto simp: dinv_def busy_ok_def)
  have "j_node ` set (swap_last i (inflight s)) = j_node ` set (inflight s) - {j_node j}"
    using swap_last_remove [OF n(1), of i] map_swap_last [of i "inflight s" j_node] i assms(6)
    by (metis length_map list.set_map nth_map)
  then show ?thesis
    using t(1) [of "j_fd j"] t(1) t(2,3) n(2) i assms(4,6,7) by (simp add: to_client_lrep)
qed

text \<open>C13. The job \<open>pick\<close> sends next is the first in queue order that may start now, and if it picks
  none then none may: an explicit node when that node is free; otherwise the T425 when it is idle
  and nothing is reserved for it, else a free TRAM that finishes the job before the T425 would,
  counting the rest of its present job and all earlier jobs that wait for it.\<close>

theorem ttjobd_pick_rule:
  "first_startable s (pick_backlog env s) (queue s) 0 (fst (pick env s))"
  using pick_from_first [of s "pick_backlog env s" "queue s" 0] by (simp add: pick_def)

text \<open>For every request the daemon admits, each product and sum of the estimate, of the T425
  end time and of the deadline fits the 32-bit \<open>long\<close> it is computed in, with a clock of up to 333
  ticks a second, and an admitted job has between 5 s and 6448 s.\<close>

lemma ttjobd_times_fit:
  assumes "0 \<le> j_n j" and "j_n j \<le> JOB_BIG" and "0 < cps" and "cps \<le> 333"
  shows "in_long (fst (est_us op (j_n j))) \<and>
    (\<not> t425_only op (j_n j) \<longrightarrow> in_long (tram_us op (j_n j))) \<and>
    in_long (est_ms (j_buf j ! 2) (j_n j) False * cps) \<and>
    in_long (deadline_ms j node * cps) \<and>
    5000 \<le> deadline_ms j node \<and> deadline_ms j node < 6448000"
proof -
  have mult: "in_long (x * cps)" if "0 \<le> x" "x \<le> 6447449" for x
  proof -
    have "x * cps \<le> 6447449 * 333" using that assms(3,4) by (intro mult_mono) auto
    moreover have "0 \<le> x * cps" using that assms(3) by simp
    ultimately show ?thesis by (intro in_long_range) linarith+
  qed
  show ?thesis
    using mult [of "est_ms (j_buf j ! 2) (j_n j) False"] mult [of "deadline_ms j node"]
      est_us_bounds [OF assms(1,2), of op] tram_us_bounds [OF assms(1,2), of op]
      est_ms_bounds [OF assms(1,2), of "j_buf j ! 2" False] deadline_bounds [OF assms(1,2), of node]
    by (auto simp: in_long_def)
qed

lemma demo_dinv: "dinv demo_state"
  by (auto simp: dinv_def dinv0_def demo_state_def demo_job_def zero_state_def cl_ok_def oq_ok_def jobs_ok_def
      nodes_ok_def busy_ok_def fd_ok_def buf_ok_def JOB_MAX_def JOB_BIG_def NODES_def MAXCL_def QMAX_def
      less_Suc_eq numeral_eq_Suc)

lemma demo_stream: "stream 5 demo_state = []"
  by (simp add: stream_def find_cl_def demo_state_def zero_state_def sent_to_def MAXCL_def upt_rec)

theorem ttjobd_go_down_answers_all_witness:
  "stream 5 (go_down demo_env demo_state) = mk_rep 7 ST_DOWN 0 0 0 @ mk_rep 8 ST_DOWN 0 0 0"
  using ttjobd_go_down_answers_all [OF demo_calm demo_chunks demo_open demo_dinv] demo_stream
  by (simp add: demo_state_def zero_state_def demo_job_def)

definition demo_reply :: state where
  "demo_reply = demo_state\<lparr>rbuf := mk_lrep 1 ST_OK 1 1 2 0 @ [65]\<rparr>"

theorem ttjobd_reply_routed_witness:
  "stream 5 (take_reply demo_env demo_reply) = mk_rep 7 ST_OK 1 1 2 @ [65]"
proof -
  have r: "rep_len (mk_lrep 1 ST_OK 1 1 2 0 @ [65]) = 1" by (simp add: rep_len_def lrep_fields)
  have "dinv demo_reply"
    using demo_dinv r by (simp add: dinv_def dinv0_def demo_reply_def rbuf_ok_def JOB_BIG_def)
  moreover have "stream 5 demo_reply = stream 5 demo_state" "client_open demo_reply 5" "chunks_ok demo_reply"
    using same_output [of demo_reply demo_state] demo_open demo_chunks by (simp_all add: demo_reply_def)
  moreover have "find_wid 1 (inflight demo_reply) = Some 0"
    by (simp add: find_wid_def demo_reply_def demo_state_def demo_job_def)
  moreover have "rbuf demo_reply = mk_lrep 1 ST_OK 1 1 2 0 @ [65]" by (simp add: demo_reply_def)
  moreover have "inflight demo_reply ! 0 = demo_job 7 1 0" by (simp add: demo_reply_def demo_state_def)
  ultimately show ?thesis
    using ttjobd_reply_routed [of demo_env demo_reply 1 ST_OK 1 1 2 0 "[65]" 0 "demo_job 7 1 0"]
      demo_calm demo_stream by (simp add: demo_job_def)
qed

section \<open>Admission\<close>

lemma client_open_index: "i < MAXCL \<Longrightarrow> 0 \<le> cl s ! i \<Longrightarrow> client_open s (cl s ! i)"
  by (auto simp: client_open_def find_cl_def find_None_iff)

lemma answer_calm:
  assumes "calm env" and "chunks_ok s" and "client_open s f"
  shows "stream f (answer env f c st s) = stream f s @ mk_rep c st 0 0 0 \<and> queue (answer env f c st s) = queue s"
proof -
  have "posted s (wr env f (status_reply c st) s)"
    "stream f (wr env f (status_reply c st) s) = stream f s @ status_reply c st"
    using wr_calm [OF assms(1,2) status_reply_nonempty, of f c st f] assms(3) by simp_all
  then show ?thesis using posted_frame(1) by (simp add: answer_wr status_reply_def)
qed

lemma sink_output: "stream f (sink n s) = stream f s" "client_open (sink n s) = client_open s"
  "chunks_ok (sink n s) = chunks_ok s" "queue (sink n s) = queue s"
  using same_output [of "sink n s" s] by (simp_all add: sink_def)

text \<open>C16. What the daemon does with a well-formed job request of a client: a node the image lacks is
  answered \<open>ST_NONODE\<close>; without a network, with a full queue or with sixteen jobs of that client
  outstanding the answer is \<open>ST_DOWN\<close>, always under the client's own id and without keeping the
  job; otherwise the job is queued behind all others with the payload that was read, for that
  client, and nothing is answered yet.\<close>

theorem ttjobd_admission:
  assumes "calm env" and "chunks_ok s" and "dinv s" and "i < MAXCL" and "f = cl s ! i" and "0 \<le> f"
    and "h = mk_req cid op node level n ck" and "op \<noteq> OP_LEASE" and "\<not> too_big s h"
  shows "if node \<noteq> NODE_ANY \<and> (NODES \<le> unat node \<or> absent s ! unat node) then
      stream f (serve_request env i h s) = stream f s @ mk_rep cid ST_NONODE 0 0 0 \<and>
      queue (serve_request env i h s) = queue s
    else if \<not> up s \<or> QMAX \<le> length (queue s) \<or> CLIENT_MAX_JOBS \<le> mine s f then
      stream f (serve_request env i h s) = stream f s @ mk_rep cid ST_DOWN 0 0 0 \<and>
      queue (serve_request env i h s) = queue s
    else rd_loop (unat n) (e_read env (Suc (tick s))) = Some p \<longrightarrow>
      stream f (serve_request env i h s) = stream f s \<and>
      (\<exists>j. queue (serve_request env i h s) = queue s @ [j] \<and> j_fd j = f \<and> j_cid j = cid \<and>
        j_n j = int (unat n) \<and> j_buf j = h @ p)"
proof -
  have op: "client_open s f" using client_open_index assms(4-6) by simp
  have h: "g2 h 0 = cid" "h ! 2 = op" "h ! 3 = node" "g4 h H_LEN = n"
    using req_fields [of cid op node level n ck "[]"] by (simp_all add: assms(7))
  have n: "0 \<le> sint n" using assms(9) by (simp add: too_big_def h Let_def)
  then have sn: "sint n = int (unat n)"
    by (rule sint_nonneg_unat)
  have refuse: "stream f (answer env f cid st (sink (sint n) s)) = stream f s @ mk_rep cid st 0 0 0"
    "queue (answer env f cid st (sink (sint n) s)) = queue s" for st
    using answer_calm [OF assms(1), of "sink (sint n) s" f cid st] assms(2) op
    by (simp_all add: sink_output)
  have req: "serve_request env i h s =
     (if node \<noteq> NODE_ANY \<and> (NODES \<le> unat node \<or> absent s ! unat node)
      then answer env f cid ST_NONODE (sink (sint n) s)
      else if \<not> up s \<or> QMAX \<le> length (queue s) \<or> CLIENT_MAX_JOBS \<le> mine s f
      then answer env f cid ST_DOWN (sink (sint n) s) else enqueue env i h s)"
    using assms(8,9) by (simp only: serve_request_def Let_def h assms(5) if_False)
  have "stream f (enqueue env i h s) = stream f s \<and>
      (\<exists>j. queue (enqueue env i h s) = queue s @ [j] \<and> j_fd j = f \<and> j_cid j = cid \<and>
        j_n j = int (unat n) \<and> j_buf j = h @ p)"
    if p: "rd_loop (unat n) (e_read env (Suc (tick s))) = Some p"
  proof -
    define j where "j = \<lparr>j_fd = f, j_cid = cid, j_wid = 0, j_n = int (unat n), j_buf = h @ p,
      j_node = 0, j_due = 0, j_due_t = 0\<rparr>"
    define t where "t = (if 0 < sint n then tk (tk s) else tk s)"
    have e: "enqueue env i h s = t\<lparr>queue := queue s @ [j]\<rparr>"
    proof (cases "unat n = 0")
      case True
      then have "sint n = 0" "p = []" using sn rd_loop_length [OF p] by simp_all
      with True show ?thesis using assms(1,5) by (simp add: enqueue_def Let_def h calm_def t_def j_def)
    next
      case False
      then have "0 < sint n" "nat (sint n) = unat n" unfolding sn by (simp_all only: nat_int of_nat_0_less_iff)
      with p show ?thesis using assms(1,5)
        by (simp add: enqueue_def Let_def h rd_def calm_def t_def j_def tk_def) (simp add: sn)
    qed
    have "stream f (t\<lparr>queue := queue s @ [j]\<rparr>) = stream f s"
      by (rule same_output) (simp_all add: t_def)
    then show ?thesis unfolding e by (auto simp: j_def)
  qed
  then show ?thesis using refuse unfolding req by simp
qed

theorem ttjobd_admission_witness:
  "\<exists>j. queue (serve_request demo_env 0 (mk_req 9 OP_ECHO NODE_ANY 0 0 1) demo_state) = queue demo_state @ [j] \<and>
     j_fd j = 5 \<and> j_cid j = 9"
proof -
  let ?h = "mk_req 9 OP_ECHO NODE_ANY 0 0 1"
  have h: "g4 ?h H_LEN = 0" "?h ! 3 = NODE_ANY" using req_fields [of 9 OP_ECHO NODE_ANY 0 0 1 "[]"] by simp_all
  have "\<not> too_big demo_state ?h"
    by (simp add: too_big_def h demo_state_def zero_state_def JOB_MAX_def)
  moreover have "cl demo_state ! 0 = 5" "up demo_state" "length (queue demo_state) = 1" "mine demo_state 5 = 2"
    by (simp_all add: demo_state_def zero_state_def mine_def demo_job_def)
  ultimately show ?thesis
    using ttjobd_admission [OF demo_calm demo_chunks demo_dinv _ refl _ refl,
      where i = 0 and cid = 9 and op = OP_ECHO and node = NODE_ANY and level = 0 and n = 0 and ck = 1 and p = "[]"]
    by (auto simp: MAXCL_def QMAX_def CLIENT_MAX_JOBS_def wire_ops demo_env_def)
qed

text \<open>A new connection never inherits replies: when \<open>accept\<close> hands out a descriptor that is not
  open, no queued or running job of the daemon is addressed to it, even if an earlier client had
  the same number.\<close>

lemma ttjobd_accept_clean:
  assumes "reachable env fd s" and "0 \<le> f" and "f \<notin> set (cl s)"
  shows "f \<notin> j_fd ` (set (queue s) \<union> set (inflight s))"
  using reachable_dinv [OF assms(1)] assms(2,3)
  by (auto simp: dinv_def dinv0_def jobs_ok_def fd_ok_def)

end
