(* ===== verification/Jobheap.thy ===== *)
theory Jobheap
  imports Prelude
begin

text \<open>
  The heap of the resident image, \<open>sam-job-tt/llvm/jobheap.c\<close>: the wrapped \<open>malloc\<close>, \<open>free\<close>,
  \<open>realloc\<close> and \<open>calloc\<close> and the bracket \<open>jobheap_begin\<close>/\<open>jobheap_end\<close> around a job. Addresses
  are natural numbers below \<open>2 ^ 32\<close>; the two intrusive lists are lists of (address, size) pairs
  and of block records, the bounds of the heap (the run-time library's) parameters; payload bytes
  live in \<open>mem\<close>. Freeing what is not a live block is undefined in C and \<open>None\<close> here. Shown: blocks
  tile the heap, an allocation fails only when no contiguous free range is long enough, and after
  \<open>jobheap_end\<close> the free list is exactly the one before the job.
\<close>

section \<open>The code\<close>

type_synonym fblock = "nat \<times> nat"

record hb =
  b_addr :: nat
  b_n :: nat
  b_job :: bool

record heap =
  h_base :: nat
  h_fl :: "fblock list"
  h_live :: "hb list"
  h_on :: bool
  h_hiwater :: nat
  h_last :: nat
  h_total :: nat
  h_mem :: "nat \<Rightarrow> u8"

definition HB :: nat where "HB = 16"
definition ULONG :: nat where "ULONG = 2 ^ 32"

definition align_down :: "nat \<Rightarrow> nat" where
  "align_down x = x div 8 * 8"

text \<open>First fit, carved from the head of the block; the rest stays free when it is worth a block.\<close>

fun fl_take :: "fblock list \<Rightarrow> nat \<Rightarrow> (fblock \<times> fblock list) option" where
  "fl_take [] sz = None"
| "fl_take ((a, s) # r) sz =
     (if s < sz then map_option (\<lambda>(b, r'). (b, (a, s) # r')) (fl_take r sz)
      else if HB + 8 \<le> s - sz then Some ((a, sz), (a + sz, s - sz) # r)
      else Some ((a, s), r))"

definition heap_init :: "nat \<Rightarrow> nat \<Rightarrow> heap \<Rightarrow> heap" where
  "heap_init hs he h =
     (if h_base h = 0 then
        (let b = align_down (hs + 7) in h\<lparr>h_base := b, h_fl := [(b, align_down (he - b))]\<rparr>)
      else h)"

definition block_size :: "nat \<Rightarrow> nat" where
  "block_size n = align_down ((HB + n + 7) mod ULONG)"

definition wrap_malloc :: "nat \<Rightarrow> nat \<Rightarrow> nat \<Rightarrow> heap \<Rightarrow> nat option \<times> heap" where
  "wrap_malloc hs he n h0 =
     (let h = heap_init hs he h0 in
      if he - h_base h < n then (None, h)
      else
        case fl_take (h_fl h) (block_size n) of
          None \<Rightarrow> (None, h)
        | Some ((a, sz), fl) \<Rightarrow>
            (Some (a + HB),
             h\<lparr>h_fl := fl, h_hiwater := max (h_hiwater h) (a + sz - h_base h),
               h_live := \<lparr>b_addr = a, b_n = sz - HB, b_job = h_on h\<rparr> # h_live h\<rparr>))"

text \<open>Insertion in address order: \<open>prev\<close> is the last block below, the new block merges with the
  one above it and then with \<open>prev\<close>.\<close>

fun fl_insert :: "fblock list \<Rightarrow> nat \<Rightarrow> nat \<Rightarrow> fblock list" where
  "fl_insert [] a s = [(a, s)]"
| "fl_insert ((b, t) # r) a s =
     (if b < a then
        (case fl_insert r a s of
           (c, u) # r' \<Rightarrow> if c = a \<and> b + t = a then (b, t + u) # r' else (b, t) # (c, u) # r'
         | [] \<Rightarrow> [(b, t)])
      else if a + s = b then (a, s + t) # r else (a, s) # (b, t) # r)"

definition find_block :: "nat \<Rightarrow> heap \<Rightarrow> hb option" where
  "find_block a h = find (\<lambda>b. b_addr b = a) (h_live h)"

definition release :: "hb \<Rightarrow> heap \<Rightarrow> heap" where
  "release b h = h\<lparr>h_live := filter (\<lambda>c. b_addr c \<noteq> b_addr b) (h_live h),
     h_fl := fl_insert (h_fl h) (b_addr b) (b_n b + HB)\<rparr>"

definition wrap_free :: "nat option \<Rightarrow> heap \<Rightarrow> heap option" where
  "wrap_free p h =
     (case p of
        None \<Rightarrow> Some h
      | Some a \<Rightarrow> map_option (\<lambda>b. release b h) (if HB \<le> a then find_block (a - HB) h else None))"

definition mem_copy :: "nat \<Rightarrow> nat \<Rightarrow> nat \<Rightarrow> (nat \<Rightarrow> u8) \<Rightarrow> nat \<Rightarrow> u8" where
  "mem_copy q p n m = (\<lambda>x. if q \<le> x \<and> x < q + n then m (p + (x - q)) else m x)"

definition wrap_realloc ::
    "nat \<Rightarrow> nat \<Rightarrow> nat option \<Rightarrow> nat \<Rightarrow> heap \<Rightarrow> (nat option \<times> heap) option" where
  "wrap_realloc hs he p n h =
     (case p of
        None \<Rightarrow> Some (wrap_malloc hs he n h)
      | Some a \<Rightarrow>
          (case wrap_malloc hs he n h of
             (None, h1) \<Rightarrow> Some (None, h1)
           | (Some q, h1) \<Rightarrow>
               (case (if HB \<le> a then find_block (a - HB) h1 else None) of
                  None \<Rightarrow> None
                | Some b \<Rightarrow>
                    Some (Some q, release b (h1\<lparr>h_mem := mem_copy q a (if n < b_n b then n else b_n b) (h_mem h1)\<rparr>)))))"

definition wrap_calloc :: "nat \<Rightarrow> nat \<Rightarrow> nat \<Rightarrow> nat \<Rightarrow> heap \<Rightarrow> nat option \<times> heap" where
  "wrap_calloc hs he k n h =
     (let sz = k * n mod ULONG in
      case wrap_malloc hs he sz h of
        (None, h1) \<Rightarrow> (None, h1)
      | (Some p, h1) \<Rightarrow>
          (Some p, h1\<lparr>h_mem := (\<lambda>x. if p \<le> x \<and> x < p + sz then 0 else h_mem h1 x)\<rparr>))"

definition jobheap_begin :: "heap \<Rightarrow> heap" where
  "jobheap_begin h = h\<lparr>h_on := True\<rparr>"

definition end_block :: "heap \<Rightarrow> hb \<Rightarrow> heap" where
  "end_block h b =
     (if b_job b then release b (h\<lparr>h_last := (h_last h + b_n b) mod ULONG\<rparr>) else h)"

definition jobheap_end :: "heap \<Rightarrow> heap" where
  "jobheap_end h =
     (let h1 = foldl end_block (h\<lparr>h_on := False, h_last := 0\<rparr>) (h_live h)
      in h1\<lparr>h_total := (h_total h1 + h_last h1) mod ULONG\<rparr>)"

definition heap0 :: heap where
  "heap0 = \<lparr>h_base = 0, h_fl = [], h_live = [], h_on = False, h_hiwater = 0, h_last = 0,
     h_total = 0, h_mem = (\<lambda>_. 0)\<rparr>"

section \<open>Free lists as sets of addresses\<close>

text \<open>Sorted from \<open>l\<close> on, no empty block, and never two blocks that touch.\<close>

fun fl_ok :: "nat \<Rightarrow> fblock list \<Rightarrow> bool" where
  "fl_ok l [] \<longleftrightarrow> True"
| "fl_ok l ((a, s) # r) \<longleftrightarrow> l \<le> a \<and> 0 < s \<and> fl_ok (Suc (a + s)) r"

definition span :: "fblock \<Rightarrow> nat set" where
  "span b = {fst b..<fst b + snd b}"

definition cover :: "fblock list \<Rightarrow> nat set" where
  "cover fl = (\<Union>b \<in> set fl. span b)"

lemma cover_simps [simp]: "cover [] = {}" "cover (b # r) = span b \<union> cover r"
  by (simp_all add: cover_def)

lemma span_simps [simp]: "span (a, s) = {a..<a + s}"
  by (simp add: span_def)

lemma fl_ok_mono: "fl_ok l fl \<Longrightarrow> k \<le> l \<Longrightarrow> fl_ok k fl"
  by (cases "(k, fl)" rule: fl_ok.cases) auto

lemma fl_ok_above: "fl_ok l fl \<Longrightarrow> x \<in> cover fl \<Longrightarrow> l \<le> x"
  by (induction l fl rule: fl_ok.induct) auto

lemma fl_insert_head:
  "\<exists>c u r'. fl_insert r a s = (c, u) # r' \<and> (c = a \<or> (r \<noteq> [] \<and> c = fst (hd r)))"
  by (induction r a s rule: fl_insert.induct) (auto split: list.splits)

lemma fl_insert_ok:
  assumes "fl_ok (Suc l) fl \<or> fl_ok l fl" and "l \<le> a" and "0 < s" and "{a..<a + s} \<inter> cover fl = {}"
  shows "fl_ok l (fl_insert fl a s) \<and> cover (fl_insert fl a s) = cover fl \<union> {a..<a + s}"
  using assms
proof (induction fl a s arbitrary: l rule: fl_insert.induct)
  case (1 a s)
  then show ?case by auto
next
  case (2 b t r a s)
  have bt: "l \<le> b" "0 < t" "fl_ok (Suc (b + t)) r" using "2.prems"(1) by auto
  show ?case
  proof (cases "b < a")
    case True
    have le: "b + t \<le> a"
    proof (rule ccontr)
      assume "\<not> b + t \<le> a"
      then have "a \<in> {a..<a + s} \<inter> cover ((b, t) # r)" using True \<open>0 < s\<close> by auto
      with "2.prems"(4) show False by blast
    qed
    have "{a..<a + s} \<inter> cover r = {}" using "2.prems"(4) by auto
    with "2.IH" [OF True, of "b + t"] bt le "2.prems"(3)
    have ih: "fl_ok (b + t) (fl_insert r a s)" "cover (fl_insert r a s) = cover r \<union> {a..<a + s}" by auto
    obtain c u r' where h: "fl_insert r a s = (c, u) # r'" "c = a \<or> (r \<noteq> [] \<and> c = fst (hd r))"
      using fl_insert_head [of r a s] by blast
    have c: "b + t \<le> c" "0 < u" "fl_ok (Suc (c + u)) r'" using ih(1) h(1) by auto
    show ?thesis
    proof (cases "c = a \<and> b + t = a")
      case m: True
      then have "{b..<b + t} \<union> {c..<c + u} = {b..<b + (t + u)}" using bt by auto
      then show ?thesis using True m h c bt ih(2) by (auto simp: add.assoc)
    next
      case False
      have "b + t \<noteq> c"
      proof
        assume e: "b + t = c"
        then have "c \<noteq> a" using False by simp
        then have "r \<noteq> []" "c = fst (hd r)" using h(2) by auto
        then have "Suc (b + t) \<le> c" using bt(3) by (cases r) auto
        with e show False by simp
      qed
      then show ?thesis using True False h c bt ih(2) by auto
    qed
  next
    case False
    show ?thesis
    proof (cases "a + s = b")
      case True
      then have "{a..<a + s} \<union> {b..<b + t} = {a..<a + (s + t)}" by auto
      then show ?thesis using False True bt "2.prems"(2,3) by (auto simp: add.assoc)
    next
      case gap: False
      have "a + s \<le> b"
      proof (rule ccontr)
        assume "\<not> a + s \<le> b"
        then have "b \<in> {a..<a + s} \<inter> cover ((b, t) # r)" using False bt by auto
        with "2.prems"(4) show False by blast
      qed
      then show ?thesis using False gap bt "2.prems"(2,3) by auto
    qed
  qed
qed

text \<open>A free list is determined by the addresses it covers.\<close>

lemma fl_ok_tail: "fl_ok (Suc (a + s)) r \<Longrightarrow> x \<in> cover r \<Longrightarrow> a + s < x"
  using fl_ok_above [of "Suc (a + s)" r x] by simp

lemma fl_ok_head_le:
  assumes "fl_ok l ((a, s) # r)" and "fl_ok k ((b, t) # q)" and "cover ((a, s) # r) = cover ((b, t) # q)"
  shows "b \<le> a" and "t \<le> s \<or> b \<noteq> a"
proof -
  have "a \<in> cover ((b, t) # q)" using assms by (auto simp flip: assms(3))
  then show "b \<le> a" using assms(2) fl_ok_tail [of b t q a] by auto
  show "t \<le> s \<or> b \<noteq> a"
  proof (rule ccontr)
    assume "\<not> (t \<le> s \<or> b \<noteq> a)"
    then have "a + s \<in> cover ((b, t) # q)" by auto
    then have "a + s \<in> cover ((a, s) # r)" by (simp only: assms(3))
    then show False using assms(1) fl_ok_tail [of a s r "a + s"] by auto
  qed
qed

lemma fl_ok_unique:
  "fl_ok l xs \<Longrightarrow> fl_ok l ys \<Longrightarrow> cover xs = cover ys \<Longrightarrow> xs = ys"
proof (induction l xs arbitrary: ys rule: fl_ok.induct)
  case (1 l)
  then show ?case by (cases "(l, ys)" rule: fl_ok.cases) auto
next
  case (2 l a s r)
  have "a \<in> cover ys" using 2 by (auto simp flip: "2.prems"(3))
  then obtain b t q where y: "ys = (b, t) # q" by (cases ys) auto
  note h1 = fl_ok_head_le [OF 2(2) "2.prems"(2) [unfolded y] "2.prems"(3) [unfolded y]]
    and h2 = fl_ok_head_le [OF "2.prems"(2) [unfolded y] 2(2) "2.prems"(3) [unfolded y, symmetric]]
  then have e: "b = a" "t = s" by auto
  have "cover r = cover q"
  proof -
    have "cover r = cover ((a, s) # r) - {a..<a + s}" "cover q = cover ((b, t) # q) - {a..<a + s}"
      using 2(2) "2.prems"(2) fl_ok_tail [of a s r] fl_ok_tail [of a s q] y e by fastforce+
    then show ?thesis using "2.prems"(3) y by simp
  qed
  with 2 y e show ?case by auto
qed

lemma fl_take_Some:
  "fl_ok l fl \<Longrightarrow> 0 < sz \<Longrightarrow> fl_take fl sz = Some ((a, s), fl') \<Longrightarrow>
   fl_ok l fl' \<and> l \<le> a \<and> sz \<le> s \<and> cover fl = cover fl' \<union> {a..<a + s} \<and> cover fl' \<inter> {a..<a + s} = {} \<and>
   (s = sz \<or> s < sz + HB + 8)"
proof (induction fl sz arbitrary: l a s fl' rule: fl_take.induct)
  case (1 sz)
  then show ?case by simp
next
  case (2 b t r sz)
  have bt: "l \<le> b" "0 < t" "fl_ok (Suc (b + t)) r" using 2(2) by auto
  show ?case
  proof (cases "t < sz")
    case True
    then obtain r' where r': "fl_take r sz = Some ((a, s), r')" "fl' = (b, t) # r'" using 2(4) by auto
    from "2.IH" [OF True bt(3) 2(3) r'(1)] have ih: "fl_ok (Suc (b + t)) r'" "Suc (b + t) \<le> a"
      "sz \<le> s" "cover r = cover r' \<union> {a..<a + s}" "cover r' \<inter> {a..<a + s} = {}" "s = sz \<or> s < sz + HB + 8" by auto
    then show ?thesis using bt r'(2) by auto
  next
    case False
    have tail: "b + t < x" if "x \<in> cover r" for x using fl_ok_tail [OF bt(3) that] .
    show ?thesis
    proof (cases "HB + 8 \<le> t - sz")
      case True
      then have e: "a = b" "s = sz" "fl' = (b + sz, t - sz) # r" using False 2(4) by auto
      have "{b..<b + t} = {b + sz..<b + t} \<union> {b..<b + sz}" using False by auto
      moreover have "cover r \<inter> {b..<b + sz} = {}" using tail False by fastforce
      ultimately show ?thesis using e True False bt by auto
    next
      case no: False
      then have e: "a = b" "s = t" "fl' = r" using False 2(4) by auto
      have "cover r \<inter> {b..<b + t} = {}" using tail by fastforce
      then show ?thesis using e no False bt fl_ok_mono [OF bt(3), of l] by auto
    qed
  qed
qed

text \<open>The list keeps whole runs together: a run of free addresses lies in one block.\<close>

lemma fl_ok_run:
  "fl_ok l fl \<Longrightarrow> 0 < n \<Longrightarrow> {x..<x + n} \<subseteq> cover fl \<Longrightarrow> \<exists>(a, s) \<in> set fl. {x..<x + n} \<subseteq> {a..<a + s}"
proof (induction l fl rule: fl_ok.induct)
  case (1 l)
  then show ?case by auto
next
  case (2 l a s r)
  show ?case
  proof (cases "a + s \<le> x")
    case True
    then have "{x..<x + n} \<subseteq> cover r" using 2(4) by fastforce
    with 2 show ?thesis by auto
  next
    case False
    have gap: "a + s \<notin> cover ((a, s) # r)" using 2(2) fl_ok_tail [of a s r "a + s"] by auto
    have "x + n \<le> a + s"
    proof (rule ccontr)
      assume "\<not> x + n \<le> a + s"
      then have "a + s \<in> {x..<x + n}" using False by auto
      then show False using 2(4) gap by blast
    qed
    moreover have "a \<le> x"
    proof -
      have "x \<in> {x..<x + n}" using 2(3) by simp
      then have "x \<in> cover ((a, s) # r)" using 2(4) by (rule subsetD [rotated])
      then show ?thesis using 2(2) fl_ok_tail [of a s r x] by auto
    qed
    ultimately show ?thesis by auto
  qed
qed

lemma fl_take_None: "fl_take fl sz = None \<longleftrightarrow> (\<forall>(a, s) \<in> set fl. s < sz)"
  by (induction fl sz rule: fl_take.induct) auto

lemma fl_take_run:
  assumes "fl_ok l fl" and "0 < sz"
  shows "fl_take fl sz = None \<longleftrightarrow> (\<nexists>x. {x..<x + sz} \<subseteq> cover fl)"
proof
  assume n: "fl_take fl sz = None"
  show "\<nexists>x. {x..<x + sz} \<subseteq> cover fl"
  proof
    assume "\<exists>x. {x..<x + sz} \<subseteq> cover fl"
    then obtain x a s where "(a, s) \<in> set fl" "{x..<x + sz} \<subseteq> {a..<a + s}"
      using fl_ok_run [OF assms] by blast
    moreover from this(2) have "sz \<le> s" using assms(2) by simp
    ultimately show False using n by (fastforce simp: fl_take_None)
  qed
next
  assume r: "\<nexists>x. {x..<x + sz} \<subseteq> cover fl"
  have "s < sz" if "(a, s) \<in> set fl" for a s
  proof (rule ccontr)
    assume "\<not> s < sz"
    then have "{a..<a + sz} \<subseteq> span (a, s)" by auto
    also have "\<dots> \<subseteq> cover fl" unfolding cover_def using that by blast
    finally show False using r by blast
  qed
  then show "fl_take fl sz = None" by (auto simp: fl_take_None)
qed

section \<open>The heap invariant\<close>

text \<open>The address range of a live block, its header included.\<close>

definition bspan :: "hb \<Rightarrow> nat set" where
  "bspan b = {b_addr b..<b_addr b + (b_n b + HB)}"

definition covered :: "hb list \<Rightarrow> nat set" where
  "covered bs = (\<Union>b \<in> set bs. bspan b)"

definition disjoint_blocks :: "hb list \<Rightarrow> bool" where
  "disjoint_blocks bs \<longleftrightarrow> distinct (map b_addr bs) \<and>
     (\<forall>b \<in> set bs. \<forall>c \<in> set bs. b_addr b \<noteq> b_addr c \<longrightarrow> bspan b \<inter> bspan c = {})"

text \<open>Blocks and free list tile \<open>[base, lim)\<close>, everything 8-aligned.\<close>

definition heap_lim :: "nat \<Rightarrow> heap \<Rightarrow> nat" where
  "heap_lim he h = h_base h + align_down (he - h_base h)"

definition heap_ok :: "nat \<Rightarrow> heap \<Rightarrow> bool" where
  "heap_ok he h \<longleftrightarrow> 0 < h_base h \<and> 8 dvd h_base h \<and> h_base h \<le> he \<and> he + 64 < ULONG \<and>
     fl_ok (h_base h) (h_fl h) \<and> disjoint_blocks (h_live h) \<and>
     cover (h_fl h) \<union> covered (h_live h) = {h_base h..<heap_lim he h} \<and>
     cover (h_fl h) \<inter> covered (h_live h) = {} \<and>
     (\<forall>(a, s) \<in> set (h_fl h). 8 dvd a \<and> 8 dvd s) \<and> (\<forall>b \<in> set (h_live h). 8 dvd b_addr b \<and> 8 dvd b_n b)"

lemma align_down_dvd [simp]: "8 dvd align_down x"
  by (simp add: align_down_def)

lemma align_down_le: "align_down x \<le> x \<and> x < align_down x + 8"
  unfolding align_down_def by presburger

lemma fl_take_aligned:
  "fl_take fl sz = Some ((a, s), fl') \<Longrightarrow> 8 dvd sz \<Longrightarrow> \<forall>(a, s) \<in> set fl. 8 dvd a \<and> 8 dvd s \<Longrightarrow>
   8 dvd a \<and> 8 dvd s \<and> (\<forall>(a, s) \<in> set fl'. 8 dvd a \<and> 8 dvd s)"
  by (induction fl sz arbitrary: a s fl' rule: fl_take.induct)
    (auto split: if_splits simp: dvd_diff_nat)

lemma fl_insert_aligned:
  "\<forall>(a, s) \<in> set fl. 8 dvd a \<and> 8 dvd s \<Longrightarrow> 8 dvd a \<Longrightarrow> 8 dvd s \<Longrightarrow>
   \<forall>(a, s) \<in> set (fl_insert fl a s). 8 dvd a \<and> 8 dvd (s :: nat)"
proof (induction fl a s rule: fl_insert.induct)
  case (1 a s)
  then show ?case by simp
next
  case (2 b t r a s)
  obtain c u r' where h: "fl_insert r a s = (c, u) # r'" using fl_insert_head by blast
  with 2 show ?case by (auto split: if_splits)
qed

lemma block_size_bounds:
  assumes "n \<le> he" and "he + 64 < ULONG"
  shows "n + HB \<le> block_size n" and "block_size n < n + HB + 8" and "8 dvd block_size n"
proof -
  have "(HB + n + 7) mod ULONG = HB + n + 7" using assms by (intro mod_less) (simp add: HB_def)
  then show "n + HB \<le> block_size n" "block_size n < n + HB + 8" "8 dvd block_size n"
    using align_down_le [of "HB + n + 7"] by (auto simp: block_size_def)
qed

lemma malloc_Some:
  assumes ok: "heap_ok he h" and m: "wrap_malloc hs he n h = (Some p, h')"
  obtains a s where "p = a + HB" and "h_live h' = \<lparr>b_addr = a, b_n = s - HB, b_job = h_on h\<rparr> # h_live h"
    and "h_base h' = h_base h" and "n + HB \<le> s" and "s < n + 2 * HB + 16" and "8 dvd a" and "8 dvd s"
    and "fl_ok (h_base h) (h_fl h')" and "cover (h_fl h) = cover (h_fl h') \<union> {a..<a + s}"
    and "cover (h_fl h') \<inter> {a..<a + s} = {}" and "h_on h' = h_on h" and "h_mem h' = h_mem h"
    and "\<forall>(a, s) \<in> set (h_fl h'). 8 dvd a \<and> 8 dvd s" and "h_total h' = h_total h"
proof -
  have i: "heap_init hs he h = h" using ok by (simp add: heap_init_def heap_ok_def)
  have n: "n \<le> he" using m i by (auto simp: wrap_malloc_def Let_def split: if_splits)
  have lim: "he + 64 < ULONG" using ok by (simp add: heap_ok_def)
  note bs = block_size_bounds [OF n lim]
  obtain a s fl where t: "fl_take (h_fl h) (block_size n) = Some ((a, s), fl)"
    using m i by (auto simp: wrap_malloc_def Let_def split: if_splits option.splits)
  have "0 < block_size n" using bs(1) by (simp add: HB_def)
  with fl_take_Some [OF _ _ t, of "h_base h"] ok have f: "fl_ok (h_base h) fl" "block_size n \<le> s"
    "cover (h_fl h) = cover fl \<union> {a..<a + s}" "cover fl \<inter> {a..<a + s} = {}"
    "s = block_size n \<or> s < block_size n + HB + 8" by (auto simp: heap_ok_def)
  have al: "8 dvd a \<and> 8 dvd s \<and> (\<forall>(a, s) \<in> set fl. 8 dvd a \<and> 8 dvd s)"
    using fl_take_aligned [OF t bs(3)] ok by (auto simp: heap_ok_def)
  show thesis
    using m i t f bs al that [of a s]
    by (auto simp: wrap_malloc_def Let_def HB_def split: if_splits)
qed

lemma heap_ok_malloc:
  assumes ok: "heap_ok he h" and m: "wrap_malloc hs he n h = (Some p, h')"
  shows "heap_ok he h'"
proof -
  from malloc_Some [OF assms] obtain a s where
    h': "h_live h' = \<lparr>b_addr = a, b_n = s - HB, b_job = h_on h\<rparr> # h_live h" "h_base h' = h_base h"
      "n + HB \<le> s" "8 dvd a" "8 dvd s" "fl_ok (h_base h) (h_fl h')"
      "cover (h_fl h) = cover (h_fl h') \<union> {a..<a + s}" "cover (h_fl h') \<inter> {a..<a + s} = {}"
      "\<forall>(a, s) \<in> set (h_fl h'). 8 dvd a \<and> 8 dvd s" by metis
  define b where "b = \<lparr>b_addr = a, b_n = s - HB, b_job = h_on h\<rparr>"
  have b: "bspan b = {a..<a + s}" "b_addr b = a" "8 dvd b_n b"
    using h'(3,5) by (auto simp: bspan_def b_def dvd_diff_nat HB_def)
  have free: "{a..<a + s} \<inter> covered (h_live h) = {}" using ok h'(7) by (auto simp: heap_ok_def)
  have ne: "a \<in> {a..<a + s}" using h'(3) by (simp add: HB_def)
  have "a \<notin> b_addr ` set (h_live h)"
  proof
    assume "a \<in> b_addr ` set (h_live h)"
    then obtain c where "c \<in> set (h_live h)" "b_addr c = a" by auto
    then have "a \<in> covered (h_live h)" by (force simp: covered_def bspan_def HB_def)
    with free ne show False by blast
  qed
  then have "disjoint_blocks (b # h_live h)"
    using ok b free by (auto simp: heap_ok_def disjoint_blocks_def covered_def)
  moreover have "cover (h_fl h') \<union> covered (b # h_live h) = cover (h_fl h) \<union> covered (h_live h)"
    using h'(7) b by (auto simp: covered_def)
  moreover have "cover (h_fl h') \<inter> covered (b # h_live h) = {}"
    using ok h'(7,8) b by (auto simp: covered_def heap_ok_def)
  ultimately show ?thesis using ok h' b by (auto simp: heap_ok_def heap_lim_def b_def)
qed

lemma disjoint_blocks_filter: "disjoint_blocks bs \<Longrightarrow> disjoint_blocks (filter P bs)"
  by (auto simp: disjoint_blocks_def intro: distinct_map_filter)

lemma covered_remove:
  assumes "disjoint_blocks bs" and "b \<in> set bs"
  shows "covered bs = covered (filter (\<lambda>c. b_addr c \<noteq> b_addr b) bs) \<union> bspan b"
    and "covered (filter (\<lambda>c. b_addr c \<noteq> b_addr b) bs) \<inter> bspan b = {}"
proof -
  have "c = b" if "c \<in> set bs" "b_addr c = b_addr b" for c
    using assms that by (auto simp: disjoint_blocks_def distinct_map inj_on_def)
  then show "covered bs = covered (filter (\<lambda>c. b_addr c \<noteq> b_addr b) bs) \<union> bspan b"
    using assms(2) by (auto simp: covered_def)
  show "covered (filter (\<lambda>c. b_addr c \<noteq> b_addr b) bs) \<inter> bspan b = {}"
    using assms by (fastforce simp: covered_def disjoint_blocks_def)
qed

lemma release_ok:
  assumes ok: "heap_ok he h" and b: "b \<in> set (h_live h)"
  shows "heap_ok he (release b h)"
    and "cover (h_fl (release b h)) = cover (h_fl h) \<union> bspan b"
proof -
  let ?rest = "filter (\<lambda>c. b_addr c \<noteq> b_addr b) (h_live h)"
  have d: "disjoint_blocks (h_live h)" using ok by (simp add: heap_ok_def)
  note c = covered_remove [OF d b]
  have fb: "bspan b \<inter> cover (h_fl h) = {}" using ok b by (auto simp: heap_ok_def covered_def)
  have in_heap: "bspan b \<subseteq> {h_base h..<heap_lim he h}" using ok c(1) by (auto simp: heap_ok_def)
  then have "h_base h \<le> b_addr b" by (auto simp: bspan_def HB_def)
  then have ins: "fl_ok (h_base h) (fl_insert (h_fl h) (b_addr b) (b_n b + HB))"
    "cover (fl_insert (h_fl h) (b_addr b) (b_n b + HB)) = cover (h_fl h) \<union> bspan b"
    using fl_insert_ok [of "h_base h" "h_fl h" "b_addr b" "b_n b + HB"] ok fb
    by (auto simp: heap_ok_def bspan_def HB_def)
  then show "cover (h_fl (release b h)) = cover (h_fl h) \<union> bspan b" by (simp add: release_def)
  have "8 dvd b_addr b" "8 dvd b_n b + HB" using ok b by (auto simp: heap_ok_def HB_def)
  then have al: "\<forall>(a, s) \<in> set (fl_insert (h_fl h) (b_addr b) (b_n b + HB)). 8 dvd a \<and> 8 dvd s"
    using ok by (intro fl_insert_aligned) (auto simp: heap_ok_def)
  have "cover (h_fl h) \<union> bspan b \<union> covered ?rest = cover (h_fl h) \<union> covered (h_live h)"
    "(cover (h_fl h) \<union> bspan b) \<inter> covered ?rest = {}"
    using c ok by (auto simp: heap_ok_def)
  then show "heap_ok he (release b h)"
    using ok ins al d disjoint_blocks_filter by (auto simp: heap_ok_def release_def heap_lim_def)
qed

lemma heap_ok_counters [simp]:
  "heap_ok he (h\<lparr>h_last := x\<rparr>) = heap_ok he h" "heap_ok he (h\<lparr>h_total := x\<rparr>) = heap_ok he h"
  "heap_ok he (h\<lparr>h_on := o'\<rparr>) = heap_ok he h" "heap_ok he (h\<lparr>h_mem := m\<rparr>) = heap_ok he h"
  by (simp_all add: heap_ok_def heap_lim_def)

lemma end_blocks_ok:
  "heap_ok he h \<Longrightarrow> set bs \<subseteq> set (h_live h) \<Longrightarrow> distinct (map b_addr bs) \<Longrightarrow>
   heap_ok he (foldl end_block h bs) \<and>
   set (h_live (foldl end_block h bs)) = set (h_live h) - {b \<in> set bs. b_job b} \<and>
   h_base (foldl end_block h bs) = h_base h \<and> h_on (foldl end_block h bs) = h_on h"
proof (induction bs arbitrary: h)
  case Nil
  then show ?case by simp
next
  case (Cons b bs)
  have inj: "c = b" if "c \<in> set (h_live h)" "b_addr c = b_addr b" for c
    using Cons.prems(1,2) that by (auto simp: heap_ok_def disjoint_blocks_def distinct_map inj_on_def)
  have e: "heap_ok he (end_block h b)" "h_base (end_block h b) = h_base h" "h_on (end_block h b) = h_on h"
    "set (h_live (end_block h b)) = set (h_live h) - {c. c = b \<and> b_job b}"
    using release_ok [of he "h\<lparr>h_last := (h_last h + b_n b) mod ULONG\<rparr>" b] Cons.prems inj
    by (auto simp: end_block_def release_def)
  moreover have "set bs \<subseteq> set (h_live (end_block h b))"
    using Cons.prems e by auto
  ultimately show ?case using Cons.IH [of "end_block h b"] Cons.prems by auto
qed

lemma jobheap_end_ok:
  assumes "heap_ok he h"
  shows "heap_ok he (jobheap_end h)" and "set (h_live (jobheap_end h)) = {b \<in> set (h_live h). \<not> b_job b}"
    and "h_base (jobheap_end h) = h_base h" and "\<not> h_on (jobheap_end h)"
proof -
  have "distinct (map b_addr (h_live h))" using assms by (simp add: heap_ok_def disjoint_blocks_def)
  then have "heap_ok he (foldl end_block (h\<lparr>h_on := False, h_last := 0\<rparr>) (h_live h)) \<and>
   set (h_live (foldl end_block (h\<lparr>h_on := False, h_last := 0\<rparr>) (h_live h))) = set (h_live h) - {b \<in> set (h_live h). b_job b} \<and>
   h_base (foldl end_block (h\<lparr>h_on := False, h_last := 0\<rparr>) (h_live h)) = h_base h \<and>
   \<not> h_on (foldl end_block (h\<lparr>h_on := False, h_last := 0\<rparr>) (h_live h))"
    using end_blocks_ok [of he "h\<lparr>h_on := False, h_last := 0\<rparr>" "h_live h"] assms by simp
  then show "heap_ok he (jobheap_end h)" "set (h_live (jobheap_end h)) = {b \<in> set (h_live h). \<not> b_job b}"
    "h_base (jobheap_end h) = h_base h" "\<not> h_on (jobheap_end h)"
    by (auto simp: jobheap_end_def Let_def)
qed

text \<open>Two heaps with the same live blocks have the same free list.\<close>

lemma heap_canonical:
  assumes "heap_ok he h" and "heap_ok he h'" and "h_base h = h_base h'"
    and "bspan ` set (h_live h) = bspan ` set (h_live h')"
  shows "h_fl h = h_fl h'"
proof (rule fl_ok_unique)
  show "fl_ok (h_base h) (h_fl h)" "fl_ok (h_base h) (h_fl h')" using assms by (simp_all add: heap_ok_def)
  have "covered (h_live h) = covered (h_live h')" using assms(4) by (simp add: covered_def)
  moreover have "cover (h_fl h) = {h_base h..<heap_lim he h} - covered (h_live h)"
    "cover (h_fl h') = {h_base h'..<heap_lim he h'} - covered (h_live h')"
    using assms(1,2) by (auto simp: heap_ok_def)
  ultimately show "cover (h_fl h) = cover (h_fl h')" using assms(3) by (simp add: heap_lim_def)
qed

section \<open>Allocators\<close>

text \<open>What a client of an allocator relies on: a new block is long enough and shares no byte with
  any block handed out before.\<close>

locale allocator =
  fixes alloc :: "nat \<Rightarrow> 'h \<Rightarrow> nat option \<times> 'h"
    and good :: "'h \<Rightarrow> bool"
    and blocks :: "'h \<Rightarrow> (nat \<times> nat) set"
  assumes alloc_good: "good h \<Longrightarrow> good (snd (alloc n h))"
    and alloc_fresh: "good h \<Longrightarrow> alloc n h = (Some p, h') \<Longrightarrow>
      \<exists>c \<ge> n. blocks h' = insert (p, c) (blocks h) \<and> (\<forall>(q, d) \<in> blocks h. {p..<p + c} \<inter> {q..<q + d} = {})"
begin

lemma two_allocs:
  assumes "good h" and "alloc n h = (Some p, h1)" and "alloc m h1 = (Some q, h2)"
  shows "{p..<p + n} \<inter> {q..<q + m} = {}"
proof -
  from alloc_fresh [OF assms(1,2)] obtain c where c: "n \<le> c" "blocks h1 = insert (p, c) (blocks h)" by blast
  have "good h1" using alloc_good [OF assms(1), of n] assms(2) by simp
  from alloc_fresh [OF this assms(3)] c(2) obtain d where d: "m \<le> d" "{q..<q + d} \<inter> {p..<p + c} = {}" by blast
  show ?thesis
  proof -
    have "{p..<p + n} \<subseteq> {p..<p + c}" "{q..<q + m} \<subseteq> {q..<q + d}" using c(1) d(1) by auto
    with d(2) show ?thesis by blast
  qed
qed

end

definition user_blocks :: "heap \<Rightarrow> (nat \<times> nat) set" where
  "user_blocks h = (\<lambda>b. (b_addr b + HB, b_n b)) ` set (h_live h)"

lemma malloc_None: "wrap_malloc hs he n h = (None, h') \<Longrightarrow> heap_ok he h \<Longrightarrow> h' = h"
  by (auto simp: wrap_malloc_def Let_def heap_init_def heap_ok_def split: if_splits option.splits)

lemma malloc_ok: "heap_ok he h \<Longrightarrow> wrap_malloc hs he n h = (r, h') \<Longrightarrow> heap_ok he h'"
  by (cases r) (auto dest: malloc_None heap_ok_malloc)

lemma malloc_disjoint:
  assumes ok: "heap_ok he h" and m: "wrap_malloc hs he n h = (Some p, h')" and c: "c \<in> set (h_live h)"
  obtains b where "h_live h' = b # h_live h" and "p = b_addr b + HB" and "n \<le> b_n b" and "bspan b \<inter> bspan c = {}"
proof -
  from malloc_Some [OF ok m] obtain a s where
    h': "p = a + HB" "h_live h' = \<lparr>b_addr = a, b_n = s - HB, b_job = h_on h\<rparr> # h_live h" "n + HB \<le> s"
      "cover (h_fl h) = cover (h_fl h') \<union> {a..<a + s}" by metis
  define b where "b = \<lparr>b_addr = a, b_n = s - HB, b_job = h_on h\<rparr>"
  have "bspan b = {a..<a + s}" using h'(3) by (auto simp: bspan_def b_def)
  then have "bspan b \<inter> bspan c = {}" using ok c h'(4) by (auto simp: heap_ok_def covered_def)
  then show thesis using that [of b] h' by (simp add: b_def)
qed

interpretation job_alloc: allocator "wrap_malloc hs he" "heap_ok he" user_blocks for hs he
proof unfold_locales
  fix h n
  assume "heap_ok he h"
  then show "heap_ok he (snd (wrap_malloc hs he n h))"
    using malloc_ok [of he h hs n] by (metis prod.collapse)
next
  fix h n p h'
  assume ok: "heap_ok he h" and m: "wrap_malloc hs he n h = (Some p, h')"
  from malloc_Some [OF ok m] obtain b where
    b: "h_live h' = b # h_live h" "p = b_addr b + HB" "n \<le> b_n b"
    by (metis HB_def add_diff_cancel_right' diff_le_mono hb.select_convs(1,2))
  have "{p..<p + b_n b} \<inter> {q..<q + d} = {}" if qd: "(q, d) \<in> user_blocks h" for q d
  proof -
    obtain c where c: "c \<in> set (h_live h)" "q = b_addr c + HB" "d = b_n c" using qd by (auto simp: user_blocks_def)
    obtain b' where "h_live h' = b' # h_live h" "bspan b' \<inter> bspan c = {}" using malloc_disjoint [OF ok m c(1)] by metis
    then have "bspan b \<inter> bspan c = {}" using b(1) by simp
    moreover have "{p..<p + b_n b} \<subseteq> bspan b" "{q..<q + d} \<subseteq> bspan c" using b(2) c by (auto simp: bspan_def)
    ultimately show ?thesis by blast
  qed
  then have "\<forall>(q, d) \<in> user_blocks h. {p..<p + b_n b} \<inter> {q..<q + d} = {}" by blast
  moreover have "user_blocks h' = insert (p, b_n b) (user_blocks h)" using b by (simp add: user_blocks_def)
  ultimately show "\<exists>c \<ge> n. user_blocks h' = insert (p, c) (user_blocks h) \<and>
      (\<forall>(q, d) \<in> user_blocks h. {p..<p + c} \<inter> {q..<q + d} = {})"
    using b(3) by blast
qed

section \<open>Sequences of heap calls\<close>

datatype hop = Malloc nat | Free "nat option" | Realloc "nat option" nat | Calloc nat nat

fun heap_op :: "nat \<Rightarrow> nat \<Rightarrow> hop \<Rightarrow> heap \<Rightarrow> heap option" where
  "heap_op hs he (Malloc n) h = Some (snd (wrap_malloc hs he n h))"
| "heap_op hs he (Free p) h = wrap_free p h"
| "heap_op hs he (Realloc p n) h = map_option snd (wrap_realloc hs he p n h)"
| "heap_op hs he (Calloc k n) h = Some (snd (wrap_calloc hs he k n h))"

fun heap_run :: "nat \<Rightarrow> nat \<Rightarrow> hop list \<Rightarrow> heap \<Rightarrow> heap option" where
  "heap_run hs he [] h = Some h"
| "heap_run hs he (x # xs) h = Option.bind (heap_op hs he x h) (heap_run hs he xs)"

text \<open>What a call inside a job keeps: the blocks that are not the job's only get fewer.\<close>

definition job_step :: "nat \<Rightarrow> heap \<Rightarrow> heap \<Rightarrow> bool" where
  "job_step he h h' \<longleftrightarrow> heap_ok he h' \<and> h_on h' = h_on h \<and> h_base h' = h_base h \<and>
     (h_on h \<longrightarrow> {b \<in> set (h_live h'). \<not> b_job b} \<subseteq> set (h_live h))"

lemma job_step_refl: "heap_ok he h \<Longrightarrow> job_step he h h"
  by (auto simp: job_step_def)

lemma job_step_trans: "job_step he h h1 \<Longrightarrow> job_step he h1 h2 \<Longrightarrow> job_step he h h2"
  by (auto simp: job_step_def)

lemma malloc_step:
  assumes "heap_ok he h"
  shows "job_step he h (snd (wrap_malloc hs he n h))"
proof (cases "wrap_malloc hs he n h")
  case (Pair r h')
  show ?thesis
  proof (cases r)
    case None
    then have "h' = h" using malloc_None [of hs he n h h'] assms Pair by simp
    then show ?thesis using assms Pair job_step_refl by simp
  next
    case (Some p)
    from malloc_Some [OF assms] Pair Some obtain b where
      b: "h_live h' = b # h_live h" "b_job b = h_on h" "h_base h' = h_base h" "h_on h' = h_on h"
      by (metis hb.select_convs(3))
    then show ?thesis using heap_ok_malloc [OF assms] Pair Some by (auto simp: job_step_def)
  qed
qed

lemma release_step: "heap_ok he h \<Longrightarrow> b \<in> set (h_live h) \<Longrightarrow> job_step he h (release b h)"
  using release_ok [of he h b] by (auto simp: job_step_def release_def)

lemma find_block_mem: "find_block a h = Some b \<Longrightarrow> b \<in> set (h_live h) \<and> b_addr b = a"
  by (auto simp: find_block_def find_Some_iff)

lemma job_step_mem: "job_step he h h' \<Longrightarrow> job_step he h (h'\<lparr>h_mem := m\<rparr>)"
  by (simp add: job_step_def)

lemma heap_op_step: "heap_ok he h \<Longrightarrow> heap_op hs he x h = Some h' \<Longrightarrow> job_step he h h'"
proof (cases x)
  case (Malloc n)
  assume "heap_ok he h" "heap_op hs he x h = Some h'"
  with Malloc show ?thesis using malloc_step by auto
next
  case (Free p)
  assume "heap_ok he h" "heap_op hs he x h = Some h'"
  with Free show ?thesis
    by (auto simp: wrap_free_def job_step_refl release_step dest!: find_block_mem split: option.splits if_splits)
next
  case (Calloc k n)
  assume h: "heap_ok he h" "heap_op hs he x h = Some h'"
  obtain r h1 where m: "wrap_malloc hs he (k * n mod ULONG) h = (r, h1)" by (metis surj_pair)
  with malloc_step [OF h(1), of hs "k * n mod ULONG"] have "job_step he h h1" by simp
  with Calloc h m show ?thesis by (cases r) (auto simp: wrap_calloc_def job_step_mem)
next
  case (Realloc p n)
  assume h: "heap_ok he h" "heap_op hs he x h = Some h'"
  obtain r h1 where m: "wrap_malloc hs he n h = (r, h1)" by (metis surj_pair)
  with malloc_step [OF h(1), of hs n] have j: "job_step he h h1" by simp
  show ?thesis
  proof (cases "p = None \<or> r = None")
    case True
    with Realloc h m j show ?thesis by (auto simp: wrap_realloc_def split: option.splits)
  next
    case False
    then obtain a q where p: "p = Some a" "r = Some q" by auto
    with Realloc h m obtain b mm where b: "find_block (a - HB) h1 = Some b" "h' = release b (h1\<lparr>h_mem := mm\<rparr>)"
      by (auto simp: wrap_realloc_def split: option.splits if_splits)
    have "job_step he (h1\<lparr>h_mem := mm\<rparr>) h'"
      unfolding b(2) using find_block_mem [OF b(1)] j by (intro release_step) (simp_all add: job_step_def)
    moreover have "job_step he h (h1\<lparr>h_mem := mm\<rparr>)" using j by (rule job_step_mem)
    ultimately show ?thesis by (rule job_step_trans [rotated])
  qed
qed

lemma heap_run_step: "heap_ok he h \<Longrightarrow> heap_run hs he xs h = Some h' \<Longrightarrow> job_step he h h'"
proof (induction xs arbitrary: h)
  case Nil
  then show ?case by (simp add: job_step_refl)
next
  case (Cons x xs)
  then obtain h1 where h1: "heap_op hs he x h = Some h1" "heap_run hs he xs h1 = Some h'"
    by (auto simp: Option.bind_eq_Some_conv)
  from heap_op_step [OF Cons.prems(1) h1(1)] have s: "job_step he h h1" .
  then have "heap_ok he h1" by (simp add: job_step_def)
  from Cons.IH [OF this h1(2)] show ?case using s job_step_trans by blast
qed

lemma heap_init_ok:
  assumes "h_base h = 0" and "h_live h = []" and "0 < hs" and "hs + 16 \<le> he" and "he + 64 < ULONG"
  shows "heap_ok he (heap_init hs he h)" and "h_live (heap_init hs he h) = []"
proof -
  define b where "b = align_down (hs + 7)"
  have b: "0 < b" "8 dvd b" "b + 8 \<le> he" using align_down_le [of "hs + 7"] assms(3,4) by (auto simp: b_def)
  then have "8 \<le> he - b" by simp
  then have "0 < align_down (he - b)" using align_down_le [of "he - b"] by linarith
  with b assms show "heap_ok he (heap_init hs he h)" "h_live (heap_init hs he h) = []"
    by (auto simp: heap_ok_def heap_init_def Let_def b_def [symmetric] disjoint_blocks_def covered_def
        heap_lim_def)
qed

section \<open>Properties\<close>

text \<open>An example heap of 1024 bytes with one block that belongs to no job.\<close>

definition demo_heap :: heap where
  "demo_heap = snd (wrap_malloc 8 1032 100 heap0)"

lemma demo_heap_init: "heap_ok 1032 (heap_init 8 1032 heap0)"
  by (rule heap_init_ok) (simp_all add: heap0_def ULONG_def)

lemma demo_heap_val:
  "demo_heap = heap0\<lparr>h_base := 8, h_fl := [(128, 904)], h_hiwater := 120,
     h_live := [\<lparr>b_addr = 8, b_n = 104, b_job = False\<rparr>]\<rparr>"
  by (simp add: demo_heap_def wrap_malloc_def heap_init_def heap0_def align_down_def block_size_def ULONG_def HB_def)

lemma demo_heap_ok: "heap_ok 1032 demo_heap"
proof -
  have "wrap_malloc 8 1032 100 (heap_init 8 1032 heap0) = wrap_malloc 8 1032 100 heap0"
    by (simp add: wrap_malloc_def heap_init_def heap0_def align_down_def)
  then show ?thesis
    unfolding demo_heap_def using malloc_ok [OF demo_heap_init, of 8 100] by (metis prod.collapse)
qed

text \<open>C22. A block \<open>malloc\<close> returns is 8-aligned, inside the heap, at least as long as asked, at most
  39 bytes longer, and shares no byte, header included, with any live block; the heap stays
  well-formed.\<close>

theorem jobheap_malloc_fresh:
  assumes "heap_ok he h" and "wrap_malloc hs he n h = (Some p, h')"
  shows "\<exists>b. h_live h' = b # h_live h \<and> p = b_addr b + HB \<and> 8 dvd p \<and> n \<le> b_n b \<and> b_n b < n + 40 \<and>
    h_base h \<le> b_addr b \<and> p + b_n b \<le> he \<and> (\<forall>c \<in> set (h_live h). bspan b \<inter> bspan c = {}) \<and> heap_ok he h'"
proof -
  from malloc_Some [OF assms] obtain a s where
    h': "p = a + HB" "h_live h' = \<lparr>b_addr = a, b_n = s - HB, b_job = h_on h\<rparr> # h_live h" "n + HB \<le> s"
      "s < n + 2 * HB + 16" "8 dvd a" "8 dvd s" "cover (h_fl h) = cover (h_fl h') \<union> {a..<a + s}"
    by metis
  define b where "b = \<lparr>b_addr = a, b_n = s - HB, b_job = h_on h\<rparr>"
  have ok: "heap_ok he h'" by (rule heap_ok_malloc [OF assms])
  have "cover (h_fl h) \<subseteq> {h_base h..<heap_lim he h}" using assms(1) unfolding heap_ok_def by blast
  then have sub: "{a..<a + s} \<subseteq> {h_base h..<heap_lim he h}" using h'(7) by (metis le_sup_iff)
  then have "h_base h \<le> a" "a + s \<le> heap_lim he h" using h'(3) by (auto simp: HB_def)
  moreover have "heap_lim he h \<le> he"
    using assms(1) align_down_le [of "he - h_base h"] by (auto simp: heap_lim_def heap_ok_def)
  moreover have "\<forall>c \<in> set (h_live h). bspan b \<inter> bspan c = {}"
    using malloc_disjoint [OF assms] h'(2) b_def by (metis list.inject)
  ultimately show ?thesis
    using h' ok by (intro exI [of _ b]) (auto simp: b_def HB_def)
qed

theorem jobheap_malloc_fresh_witness: "\<exists>h'. wrap_malloc 8 1032 8 demo_heap = (Some 144, h') \<and> heap_ok 1032 h'"
proof -
  have "fst (wrap_malloc 8 1032 8 demo_heap) = Some 144"
    by (simp add: demo_heap_val wrap_malloc_def heap_init_def heap0_def align_down_def block_size_def ULONG_def HB_def)
  then obtain h' where m: "wrap_malloc 8 1032 8 demo_heap = (Some 144, h')" by (metis prod.collapse)
  with jobheap_malloc_fresh [OF demo_heap_ok m] show ?thesis by blast
qed

text \<open>C20. \<open>malloc\<close> returns \<open>NULL\<close> only when it must: the request is larger than the whole heap or
  there is no contiguous range of free bytes that holds the block with its header, because
  neighbouring free blocks are always merged.\<close>

theorem jobheap_malloc_null_iff:
  assumes "heap_ok he h"
  shows "fst (wrap_malloc hs he n h) = None \<longleftrightarrow>
    he - h_base h < n \<or> (\<nexists>x. {x..<x + block_size n} \<subseteq> cover (h_fl h))"
proof (cases "he - h_base h < n")
  case True
  then show ?thesis using assms by (simp add: wrap_malloc_def heap_init_def heap_ok_def)
next
  case False
  then have "n \<le> he" by simp
  then have "0 < block_size n" using block_size_bounds(1) [of n he] assms by (simp add: heap_ok_def HB_def)
  then have "fl_take (h_fl h) (block_size n) = None \<longleftrightarrow> (\<nexists>x. {x..<x + block_size n} \<subseteq> cover (h_fl h))"
    using assms by (intro fl_take_run) (auto simp: heap_ok_def)
  then show ?thesis using False assms
    by (auto simp: wrap_malloc_def Let_def heap_init_def heap_ok_def split: option.splits)
qed

theorem jobheap_malloc_null_iff_witness:
  "fst (wrap_malloc 8 1032 1000 demo_heap) = None \<longleftrightarrow>
     1032 - h_base demo_heap < 1000 \<or> (\<nexists>x. {x..<x + block_size 1000} \<subseteq> cover (h_fl demo_heap))"
  by (rule jobheap_malloc_null_iff [OF demo_heap_ok])

text \<open>C6. After \<open>jobheap_end\<close> the heap is what it was before \<open>jobheap_begin\<close>, whatever the job
  allocated, resized, freed or forgot to free (as long as it freed nothing of others): the same
  blocks are live and the free list is the same list, block for block.\<close>

theorem jobheap_end_restores:
  assumes "heap_ok he h" and "\<forall>b \<in> set (h_live h). \<not> b_job b"
    and "heap_run hs he ops (jobheap_begin h) = Some h1" and "set (h_live h) \<subseteq> set (h_live h1)"
  shows "h_fl (jobheap_end h1) = h_fl h \<and> set (h_live (jobheap_end h1)) = set (h_live h) \<and>
    heap_ok he (jobheap_end h1) \<and> \<not> h_on (jobheap_end h1)"
proof -
  have "heap_ok he (jobheap_begin h)" using assms(1) by (simp add: jobheap_begin_def)
  from heap_run_step [OF this assms(3)] have s: "heap_ok he h1" "h_base h1 = h_base h"
    "{b \<in> set (h_live h1). \<not> b_job b} \<subseteq> set (h_live h)"
    by (auto simp: job_step_def jobheap_begin_def)
  note e = jobheap_end_ok [OF s(1)]
  have live: "set (h_live (jobheap_end h1)) = set (h_live h)" using e(2) s(3) assms(2,4) by auto
  then have "h_fl (jobheap_end h1) = h_fl h"
    using e(1,3) assms(1) s(2) by (intro heap_canonical) simp_all
  with live e show ?thesis by simp
qed

theorem jobheap_end_restores_witness:
  "\<exists>h1. heap_run 8 1032 [Malloc 40, Calloc 2 9, Free (Some 144)] (jobheap_begin demo_heap) = Some h1 \<and>
     h_fl (jobheap_end h1) = h_fl demo_heap"
proof -
  let ?ops = "[Malloc 40, Calloc 2 9, Free (Some 144)]"
  obtain h1 where r: "heap_run 8 1032 ?ops (jobheap_begin demo_heap) = Some h1"
    and l: "set (h_live demo_heap) \<subseteq> set (h_live h1)"
    by (simp add: demo_heap_val jobheap_begin_def wrap_malloc_def wrap_calloc_def wrap_free_def find_block_def
        release_def heap_init_def heap0_def align_down_def block_size_def ULONG_def HB_def)
  have "\<forall>b \<in> set (h_live demo_heap). \<not> b_job b" by (simp add: demo_heap_val)
  from jobheap_end_restores [OF demo_heap_ok this r l] r show ?thesis by blast
qed

text \<open>\<open>realloc\<close> of a live block to \<open>n\<close> bytes: the new block holds the old contents up to the
  smaller of the two sizes, the old block is free again, and no other live block, nor any byte of
  it, changes.\<close>

lemma jobheap_realloc_keeps:
  assumes "heap_ok he h" and "b \<in> set (h_live h)" and "a = b_addr b + HB"
    and "wrap_realloc hs he (Some a) n h = Some (Some q, h')"
  shows "heap_ok he h' \<and> (\<forall>i < min n (b_n b). h_mem h' (q + i) = h_mem h (a + i)) \<and>
    b \<notin> set (h_live h') \<and> (\<exists>c \<in> set (h_live h'). q = b_addr c + HB \<and> n \<le> b_n c) \<and>
    (\<forall>c \<in> set (h_live h). c \<noteq> b \<longrightarrow> c \<in> set (h_live h') \<and> (\<forall>x \<in> bspan c. h_mem h' x = h_mem h x))"
proof -
  obtain r h1 where m: "wrap_malloc hs he n h = (r, h1)" by (metis surj_pair)
  with assms(4) have r: "r = Some q" by (auto simp: wrap_realloc_def split: option.splits if_splits)
  from malloc_Some [OF assms(1) m [unfolded r]] obtain d where
    d: "h_live h1 = d # h_live h" "q = b_addr d + HB" "n \<le> b_n d" "h_mem h1 = h_mem h"
    by (metis HB_def add_diff_cancel_right' diff_le_mono hb.select_convs(1,2))
  have dis: "bspan d \<inter> bspan c = {}" if "c \<in> set (h_live h)" for c
    using malloc_disjoint [OF assms(1) m [unfolded r] that] d(1) by (metis list.inject)
  have ok1: "heap_ok he h1" by (rule heap_ok_malloc [OF assms(1) m [unfolded r]])
  have inj: "c = c'" if "c \<in> set (h_live h1)" "c' \<in> set (h_live h1)" "b_addr c = b_addr c'" for c c'
    using ok1 that by (auto simp: heap_ok_def disjoint_blocks_def distinct_map inj_on_def)
  have b1: "b \<in> set (h_live h1)" using assms(2) d(1) by simp
  then obtain b' where "find_block (b_addr b) h1 = Some b'"
    by (cases "find_block (b_addr b) h1") (auto simp: find_block_def find_None_iff)
  then have fb: "find_block (b_addr b) h1 = Some b" using inj [OF _ b1] find_block_mem by metis
  define k where "k = (if n < b_n b then n else b_n b)"
  define h2 where "h2 = h1\<lparr>h_mem := mem_copy q a k (h_mem h1)\<rparr>"
  have h': "h' = release b h2"
    using assms(3,4) m r fb by (auto simp: wrap_realloc_def h2_def k_def)
  have dspan: "{q..<q + k} \<subseteq> bspan d" using d(2,3) by (auto simp: bspan_def k_def)
  have "heap_ok he h'" unfolding h' using ok1 b1 by (intro release_ok) (simp_all add: h2_def)
  moreover have "\<forall>i < min n (b_n b). h_mem h' (q + i) = h_mem h (a + i)"
    by (auto simp: h' release_def h2_def mem_copy_def k_def d(4))
  moreover have live: "set (h_live h') = set (h_live h1) - {b}"
    using inj b1 by (auto simp: h' release_def h2_def)
  moreover have db: "d \<noteq> b" using dis [OF assms(2)] by (auto simp: bspan_def HB_def)
  moreover have "h_mem h' x = h_mem h x" if "c \<in> set (h_live h)" "x \<in> bspan c" for c x
    using dis [OF that(1)] that(2) dspan by (auto simp: h' release_def h2_def mem_copy_def d(4))
  ultimately show ?thesis using d by auto
qed

text \<open>\<open>calloc\<close> multiplies without a check: 65536 objects of 65537 bytes get a block of 64 KB.\<close>

lemma calloc_wraps: "65536 * 65537 mod ULONG = 65536"
  by (simp add: ULONG_def)

end
