(* ===== verification/Chacha20.thy ===== *)
theory Chacha20
  imports Prelude
begin

text \<open>
  The ChaCha20 stream of a crypto job, \<open>sam-job-tt/llvm/chacha20.c\<close>, on 32-bit words (the masks
  with \<open>M32\<close> are what 32-bit arithmetic does). Shown: the block loop is counter mode, byte
  \<open>i\<close> of the output depends on byte \<open>i\<close> of the input and on block \<open>i div 64\<close> of the key stream
  alone, and enciphering twice gives the input back.
\<close>

definition rotl :: "u32 \<Rightarrow> nat \<Rightarrow> u32" where
  "rotl v c = push_bit c v OR drop_bit (32 - c) v"

definition qr :: "nat \<Rightarrow> nat \<Rightarrow> nat \<Rightarrow> nat \<Rightarrow> u32 list \<Rightarrow> u32 list" where
  "qr ia ib ic iw x =
     (let a = x ! ia + x ! ib; d = rotl (x ! iw XOR a) 16;
          c = x ! ic + d; b = rotl (x ! ib XOR c) 12;
          a = a + b; d = rotl (d XOR a) 8;
          c = c + d; b = rotl (b XOR c) 7
      in x[ia := a, ib := b, ic := c, iw := d])"

definition double_round :: "u32 list \<Rightarrow> u32 list" where
  "double_round x =
     (let x = qr 3 7 11 15 (qr 2 6 10 14 (qr 1 5 9 13 (qr 0 4 8 12 x)))
      in qr 3 4 9 14 (qr 2 7 8 13 (qr 1 6 11 12 (qr 0 5 10 15 x))))"

definition le32_at :: "bytes \<Rightarrow> nat \<Rightarrow> u32" where
  "le32_at p i = g4_bytes (p ! i) (p ! (i + 1)) (p ! (i + 2)) (p ! (i + 3))"

text \<open>The state before the rounds of the block with the given counter.\<close>

definition chacha_state :: "bytes \<Rightarrow> bytes \<Rightarrow> u32 \<Rightarrow> u32 list" where
  "chacha_state key nonce counter =
     [0x61707865, 0x3320646e, 0x79622d32, 0x6b206574] @ map (\<lambda>k. le32_at key (4 * k)) [0..<8] @
     [counter, le32_at nonce 0, le32_at nonce 4, le32_at nonce 8]"

definition key_block :: "bytes \<Rightarrow> bytes \<Rightarrow> u32 \<Rightarrow> bytes" where
  "key_block key nonce counter =
     (let s = chacha_state key nonce counter; x = (double_round ^^ 10) s
      in concat (map (\<lambda>k. le32 (x ! k + s ! k)) [0..<16]))"

text \<open>The loop over the input, 64 bytes at a time.\<close>

function chacha20_xor :: "bytes \<Rightarrow> bytes \<Rightarrow> bytes \<Rightarrow> u32 \<Rightarrow> bytes" where
  "chacha20_xor inp key nonce counter =
     (if inp = [] then []
      else map2 (XOR) (take 64 inp) (key_block key nonce counter) @
        chacha20_xor (drop 64 inp) key nonce (counter + 1))"
  by pat_completeness auto
termination
  by (relation "measure (\<lambda>(inp, key, nonce, c). length inp)") auto

declare chacha20_xor.simps [simp del]

section \<open>Counter mode\<close>

lemma length_concat_le32: "length (concat (map (\<lambda>k. le32 (f k)) ks)) = 4 * length ks"
  by (induction ks) simp_all

lemma length_key_block [simp]: "length (key_block key nonce counter) = 64"
  by (simp add: key_block_def Let_def length_concat_le32)

lemma length_chacha20_xor [simp]: "length (chacha20_xor inp key nonce counter) = length inp"
proof (induction inp key nonce counter rule: chacha20_xor.induct)
  case (1 inp key nonce counter)
  then show ?case by (subst chacha20_xor.simps) auto
qed

lemma chacha20_xor_nth:
  "i < length inp \<Longrightarrow> chacha20_xor inp key nonce counter ! i =
     inp ! i XOR key_block key nonce (counter + of_nat (i div 64)) ! (i mod 64)"
proof (induction inp key nonce counter arbitrary: i rule: chacha20_xor.induct)
  case (1 inp key nonce counter)
  then have ne: "inp \<noteq> []" by auto
  show ?case
  proof (cases "i < 64")
    case True
    then show ?thesis using 1 ne
      by (subst chacha20_xor.simps) (simp add: nth_append)
  next
    case False
    define k where "k = i - 64"
    have k: "i = 64 + k" "k < length (drop 64 inp)" using False 1(2) by (auto simp: k_def)
    have "i div 64 = Suc (k div 64)" "i mod 64 = k mod 64" using k(1) by auto
    moreover have "chacha20_xor inp key nonce counter ! i = chacha20_xor (drop 64 inp) key nonce (counter + 1) ! k"
      using ne k 1(2) by (subst chacha20_xor.simps) (simp add: nth_append min_absorb2)
    ultimately show ?thesis using 1(1) [OF ne k(2)] k by (simp add: add.assoc add.left_commute)
  qed
qed

text \<open>The quarter round on the published test vector.\<close>

lemma qr_vector:
  "qr 0 1 2 3 [0x11111111, 0x01020304, 0x9b8d6f43, 0x01234567] =
     [0xea2a92f4, 0xcb1cf8ce, 0x4581472e, 0x5881c4bb]"
  by (simp add: qr_def rotl_def Let_def)

text \<open>C30. \<open>chacha20_xor\<close> is a counter-mode stream cipher: every output byte is the input byte
  exclusive-or the corresponding byte of the key stream block for the starting counter plus the
  block number, whatever the length; so applying it twice returns the input.\<close>

theorem chacha20_counter_mode:
  "length (chacha20_xor inp key nonce counter) = length inp \<and>
   (\<forall>i < length inp. chacha20_xor inp key nonce counter ! i =
      inp ! i XOR key_block key nonce (counter + of_nat (i div 64)) ! (i mod 64)) \<and>
   chacha20_xor (chacha20_xor inp key nonce counter) key nonce counter = inp"
proof -
  have "chacha20_xor (chacha20_xor inp key nonce counter) key nonce counter = inp"
    by (rule nth_equalityI) (simp_all add: chacha20_xor_nth xor.assoc)
  then show ?thesis by (simp add: chacha20_xor_nth)
qed

theorem chacha20_counter_mode_witness:
  "chacha20_xor [1, 2, 3] (replicate 32 7) (replicate 12 9) 1 ! 2 =
     3 XOR key_block (replicate 32 7) (replicate 12 9) 1 ! 2"
  using chacha20_counter_mode [of "[1, 2, 3]" "replicate 32 7" "replicate 12 9" 1]
  by (auto dest!: spec [of _ 2])

end
