(* ===== verification/Sha256.thy ===== *)
theory Sha256
  imports Prelude Complex_Main
begin

text \<open>
  SHA-256 as the jobs and \<open>ttsign\<close> use it, \<open>sam-yum-tt/src/sha256.c\<close>: the compression function
  on 32-bit words, and the byte-wise \<open>update\<close>/\<open>final\<close> with their 64-byte buffer (here the list of
  its \<open>fill\<close> bytes). FIPS 180-4 is stated on its own: the schedule as a recursion on the index, the rotations of the
  word library, and the constants as the fractions of roots of the first primes. Shown: for any split of the input into
  \<open>update\<close> calls the digest is the standard's.
\<close>

section \<open>The code\<close>

definition K256 :: "u32 list" where
  "K256 =
    [0x428a2f98, 0x71374491, 0xb5c0fbcf, 0xe9b5dba5, 0x3956c25b, 0x59f111f1, 0x923f82a4, 0xab1c5ed5] @
    [0xd807aa98, 0x12835b01, 0x243185be, 0x550c7dc3, 0x72be5d74, 0x80deb1fe, 0x9bdc06a7, 0xc19bf174] @
    [0xe49b69c1, 0xefbe4786, 0x0fc19dc6, 0x240ca1cc, 0x2de92c6f, 0x4a7484aa, 0x5cb0a9dc, 0x76f988da] @
    [0x983e5152, 0xa831c66d, 0xb00327c8, 0xbf597fc7, 0xc6e00bf3, 0xd5a79147, 0x06ca6351, 0x14292967] @
    [0x27b70a85, 0x2e1b2138, 0x4d2c6dfc, 0x53380d13, 0x650a7354, 0x766a0abb, 0x81c2c92e, 0x92722c85] @
    [0xa2bfe8a1, 0xa81a664b, 0xc24b8b70, 0xc76c51a3, 0xd192e819, 0xd6990624, 0xf40e3585, 0x106aa070] @
    [0x19a4c116, 0x1e376c08, 0x2748774c, 0x34b0bcb5, 0x391c0cb3, 0x4ed8aa4a, 0x5b9cca4f, 0x682e6ff3] @
    [0x748f82ee, 0x78a5636f, 0x84c87814, 0x8cc70208, 0x90befffa, 0xa4506ceb, 0xbef9a3f7, 0xc67178f2]"

definition ror :: "u32 \<Rightarrow> nat \<Rightarrow> u32" where
  "ror x n = drop_bit n x OR push_bit (32 - n) x"

definition be_word :: "bytes \<Rightarrow> nat \<Rightarrow> u32" where
  "be_word p i = push_bit 24 (ucast (p ! (4 * i))) OR push_bit 16 (ucast (p ! (4 * i + 1))) OR
     push_bit 8 (ucast (p ! (4 * i + 2))) OR ucast (p ! (4 * i + 3))"

definition sched_step :: "u32 list \<Rightarrow> nat \<Rightarrow> u32 list" where
  "sched_step w i =
     (let t1 = ror (w ! (i - 2)) 17 XOR ror (w ! (i - 2)) 19 XOR drop_bit 10 (w ! (i - 2));
          t2 = ror (w ! (i - 15)) 7 XOR ror (w ! (i - 15)) 18 XOR drop_bit 3 (w ! (i - 15))
      in w @ [t1 + w ! (i - 7) + t2 + w ! (i - 16)])"

definition round_step :: "u32 list \<Rightarrow> u32 list \<Rightarrow> nat \<Rightarrow> u32 list" where
  "round_step w v i =
     (case v of
        [a, b, c, d, e, f, g, hh] \<Rightarrow>
          let t1 = hh + (ror e 6 XOR ror e 11 XOR ror e 25) + ((e AND f) XOR (NOT e AND g)) + K256 ! i + w ! i;
              t2 = (ror a 2 XOR ror a 13 XOR ror a 22) + ((a AND b) XOR (a AND c) XOR (b AND c))
          in [t1 + t2, a, b, c, d + t1, e, f, g]
      | _ \<Rightarrow> v)"

definition sha_block :: "u32 list \<Rightarrow> bytes \<Rightarrow> u32 list" where
  "sha_block h p =
     (let w = foldl sched_step (map (be_word p) [0..<16]) [16..<64]
      in map2 (+) h (foldl (round_step w) h [0..<64]))"

record sha256 =
  s_h :: "u32 list"
  s_len :: u32
  s_buf :: bytes

definition sha256_init :: sha256 where
  "sha256_init =
     \<lparr>s_h = [0x6a09e667, 0xbb67ae85, 0x3c6ef372, 0xa54ff53a, 0x510e527f, 0x9b05688c, 0x1f83d9ab, 0x5be0cd19],
      s_len = 0, s_buf = []\<rparr>"

definition upd_byte :: "sha256 \<Rightarrow> u8 \<Rightarrow> sha256" where
  "upd_byte s b =
     (let buf = s_buf s @ [b] in
      if length buf = 64 then s\<lparr>s_h := sha_block (s_h s) buf, s_buf := []\<rparr> else s\<lparr>s_buf := buf\<rparr>)"

definition sha256_update :: "sha256 \<Rightarrow> bytes \<Rightarrow> sha256" where
  "sha256_update s p = foldl upd_byte (s\<lparr>s_len := s_len s + of_nat (length p)\<rparr>) p"

definition sha256_final :: "sha256 \<Rightarrow> bytes" where
  "sha256_final s =
     (let bits = push_bit 3 (s_len s); hi = drop_bit 29 (s_len s);
          buf = s_buf s @ [0x80];
          (h, buf) = (if 56 < length buf
             then (sha_block (s_h s) (buf @ replicate (64 - length buf) 0), []) else (s_h s, buf));
          buf = buf @ replicate (56 - length buf) 0 @ be4 hi @ be4 bits
      in concat (map be4 (sha_block h buf)))"

section \<open>The standard\<close>

text \<open>FIPS 180-4, section 4.2.2 and 5.3.3: the constants are the first 32 bits of the fractional parts of the cube roots
  of the first 64 primes, the initial value those of the square roots of the first 8. (A number below \<open>18 ^ 2\<close> is prime
  when no number from 2 to 17 below it divides it.)\<close>

definition fips_primes :: "int list" where
  "fips_primes = filter (\<lambda>p. list_all (\<lambda>d. p mod d \<noteq> 0 \<or> p \<le> d) [2..17]) [2..311]"

definition fips256_k :: "nat \<Rightarrow> u32" where
  "fips256_k t = word_of_int \<lfloor>2 ^ 32 * root 3 (of_int (fips_primes ! t))\<rfloor>"

definition fips256_h0 :: "u32 list" where
  "fips256_h0 = map (\<lambda>p. word_of_int \<lfloor>2 ^ 32 * root 2 (of_int p)\<rfloor>) (take 8 fips_primes)"

text \<open>Sections 4.1.2, 5.1.1, 5.2.1 and 6.2.\<close>

definition fips256_s0 :: "u32 \<Rightarrow> u32" where
  "fips256_s0 x = word_rotr 7 x XOR word_rotr 18 x XOR drop_bit 3 x"

definition fips256_s1 :: "u32 \<Rightarrow> u32" where
  "fips256_s1 x = word_rotr 17 x XOR word_rotr 19 x XOR drop_bit 10 x"

fun fips256_w :: "bytes \<Rightarrow> nat \<Rightarrow> u32" where
  "fips256_w blk t =
     (if t < 16 then word_rcat [blk ! (4 * t), blk ! (4 * t + 1), blk ! (4 * t + 2), blk ! (4 * t + 3)]
      else fips256_s1 (fips256_w blk (t - 2)) + fips256_w blk (t - 7) + fips256_s0 (fips256_w blk (t - 15)) + fips256_w blk (t - 16))"

declare fips256_w.simps [simp del]

definition fips256_round :: "bytes \<Rightarrow> u32 list \<Rightarrow> nat \<Rightarrow> u32 list" where
  "fips256_round blk v t =
     (case v of
        [a, b, c, d, e, f, g, h] \<Rightarrow>
          let ch = (e AND f) XOR (NOT e AND g);
              maj = (a AND b) XOR (a AND c) XOR (b AND c);
              t1 = h + (word_rotr 6 e XOR word_rotr 11 e XOR word_rotr 25 e) + ch + fips256_k t + fips256_w blk t;
              t2 = (word_rotr 2 a XOR word_rotr 13 a XOR word_rotr 22 a) + maj
          in [t1 + t2, a, b, c, d + t1, e, f, g]
      | _ \<Rightarrow> v)"

definition fips256_block :: "u32 list \<Rightarrow> bytes \<Rightarrow> u32 list" where
  "fips256_block h blk = map2 (+) h (foldl (fips256_round blk) h [0..<64])"

definition sha_pad :: "bytes \<Rightarrow> bytes" where
  "sha_pad m = m @ [0x80] @ replicate (nat ((55 - int (length m)) mod 64)) 0 @ be_bytes 8 (8 * length m)"

definition sha256_spec :: "bytes \<Rightarrow> bytes" where
  "sha256_spec m = concat (map be4 (foldl fips256_block fips256_h0 (blocks 64 (sha_pad m))))"

section \<open>The code computes the standard's compression function\<close>

lemma floor_root:
  assumes "0 < k" "0 \<le> x" "0 \<le> n" "x ^ k \<le> n * (2 ^ 32) ^ k" "n * (2 ^ 32) ^ k < (x + 1) ^ k"
  shows "\<lfloor>2 ^ 32 * root k (of_int n)\<rfloor> = x"
proof (rule floor_unique)
  let ?r = "2 ^ 32 * root k (real_of_int n)"
  have r: "?r ^ k = real_of_int (n * (2 ^ 32) ^ k)"
    using assms(1,3) by (simp add: power_mult_distrib)
  have pos: "0 \<le> ?r" using real_root_ge_zero [of "of_int n" k] assms(3) by simp
  have "real_of_int x ^ k \<le> ?r ^ k" unfolding r of_int_power [symmetric] of_int_le_iff by (rule assms)
  then show "of_int x \<le> ?r" using assms(1) pos by (metis power_mono_iff [of "of_int x" ?r k] assms(2) of_int_0_le_iff)
  have "?r ^ k < real_of_int (x + 1) ^ k" unfolding r of_int_power [symmetric] of_int_less_iff by (rule assms)
  then have "?r < of_int (x + 1)" by (rule power_less_imp_less_base) (use assms in simp)
  then show "?r < of_int x + 1" by simp
qed

lemma first_primes: "fips_primes =
    [2, 3, 5, 7, 11, 13, 17, 19] @ [23, 29, 31, 37, 41, 43, 47, 53] @ [59, 61, 67, 71, 73, 79, 83, 89] @
    [97, 101, 103, 107, 109, 113, 127, 131] @ [137, 139, 149, 151, 157, 163, 167, 173] @
    [179, 181, 191, 193, 197, 199, 211, 223] @ [227, 229, 233, 239, 241, 251, 257, 263] @
    [269, 271, 277, 281, 283, 293, 307, 311]"
  unfolding fips_primes_def by code_simp

text \<open>A table entry \<open>k\<close> is right for \<open>p\<close> when \<open>i * 2 ^ 32 + k\<close> is the root of \<open>p\<close> scaled by \<open>2 ^ 32\<close>, for its integer part \<open>i\<close>.\<close>

definition root_entry :: "nat \<Rightarrow> int \<Rightarrow> int \<times> u32 \<Rightarrow> bool" where
  "root_entry k p = (\<lambda>(i, c). let x = i * 2 ^ 32 + uint c in
     0 \<le> i \<and> 0 \<le> p \<and> x ^ k \<le> p * (2 ^ 32) ^ k \<and> p * (2 ^ 32) ^ k < (x + 1) ^ k)"

lemma root_entry_val:
  assumes "0 < k" "root_entry k p (i, c)"
  shows "word_of_int \<lfloor>2 ^ 32 * root k (of_int p)\<rfloor> = c"
proof -
  have "\<lfloor>2 ^ 32 * root k (of_int p)\<rfloor> = i * 2 ^ 32 + uint c"
    using assms by (intro floor_root) (auto simp: root_entry_def Let_def)
  moreover have "word_of_int (i * 2 ^ 32 + uint c) = c" 
  proof -
    have "(2 :: u32) ^ 32 = 0" by code_simp
    then show ?thesis by (simp only: of_int_add of_int_mult of_int_power of_int_numeral word_of_int_uint) simp
  qed
  ultimately show ?thesis by (simp only:)
qed

lemma cube_roots: "list_all2 (root_entry 3) fips_primes
    (zip (replicate 4 1 @ replicate 5 2 @ replicate 9 3 @ replicate 12 4 @ replicate 17 5 @ replicate 17 6) K256)"
  unfolding first_primes K256_def by code_simp

lemma square_roots: "list_all2 (root_entry 2) (take 8 fips_primes) (zip [1, 1, 2, 2, 3, 3, 4, 4] (s_h sha256_init))"
  unfolding first_primes sha256_init_def by code_simp

lemma K256_is_fips: "t < 64 \<Longrightarrow> K256 ! t = fips256_k t"
proof -
  assume t: "t < 64"
  have len: "length K256 = 64" by (simp add: K256_def)
  then have "root_entry 3 (fips_primes ! t)
      ((replicate 4 1 @ replicate 5 2 @ replicate 9 3 @ replicate 12 4 @ replicate 17 5 @ replicate 17 6) ! t, K256 ! t)"
    using list_all2_nthD2 [OF cube_roots, of t] t by simp
  from root_entry_val [OF _ this] show ?thesis by (simp add: fips256_k_def)
qed

lemma init_is_fips: "s_h sha256_init = fips256_h0"
proof -
  have len: "length (s_h sha256_init) = 8" by (simp add: sha256_init_def)
  show ?thesis
  proof (rule nth_equalityI)
    show l: "length (s_h sha256_init) = length fips256_h0" using len by (simp add: fips256_h0_def first_primes)
    fix t assume "t < length (s_h sha256_init)"
    then have t: "t < 8" "t < length (take 8 fips_primes)" using len l by (simp_all add: fips256_h0_def)
    have "root_entry 2 (take 8 fips_primes ! t) ([1, 1, 2, 2, 3, 3, 4, 4] ! t, s_h sha256_init ! t)"
      using list_all2_nthD2 [OF square_roots, of t] t len by simp
    from root_entry_val [OF _ this] show "s_h sha256_init ! t = fips256_h0 ! t"
      using t by (simp add: fips256_h0_def)
  qed
qed

lemma ror_is_rotr: "0 < n \<Longrightarrow> n < 32 \<Longrightarrow> ror x n = word_rotr n x"
proof (rule bit_word_eqI)
  fix i assume "0 < n" "n < 32" "i < LENGTH(32)"
  then show "bit (ror x n) i = bit (word_rotr n x) i"
    using le_mod_geq [of 32 "n + i"] bit_imp_le_length [of x "n + i"]
    by (cases "n + i < 32") (auto simp: ror_def bit_simps bit_word_rotr_iff add.commute)
qed

lemma be_word_is_fips: "i < 16 \<Longrightarrow> be_word p i = fips256_w p i"
proof -
  define a b c d :: u32 where "a = ucast (p ! (4 * i))" and "b = ucast (p ! (4 * i + 1))"
    and "c = ucast (p ! (4 * i + 2))" and "d = ucast (p ! (4 * i + 3))"
  have small: "\<not> bit a n" "\<not> bit b n" "\<not> bit c n" "\<not> bit d n" if "8 \<le> n" for n
    using that by (auto simp: a_def b_def c_def d_def bit_simps dest: bit_imp_le_length)
  have "push_bit 24 a OR push_bit 16 b = push_bit 24 a + push_bit 16 b"
    by (rule disjunctive_add [symmetric]) (use small in \<open>auto simp: bit_simps not_le\<close>)
  moreover have "(push_bit 24 a OR push_bit 16 b) OR push_bit 8 c = (push_bit 24 a OR push_bit 16 b) + push_bit 8 c"
    by (rule disjunctive_add [symmetric]) (use small in \<open>auto simp: bit_simps not_le\<close>)
  moreover have "((push_bit 24 a OR push_bit 16 b) OR push_bit 8 c) OR d = ((push_bit 24 a OR push_bit 16 b) OR push_bit 8 c) + d"
    by (rule disjunctive_add [symmetric]) (use small in \<open>auto simp: bit_simps not_le\<close>)
  ultimately have "be_word p i = push_bit 24 a + push_bit 16 b + push_bit 8 c + d"
    unfolding be_word_def a_def [symmetric] b_def [symmetric] c_def [symmetric] d_def [symmetric]
    by (simp add: or.assoc [symmetric])
  also assume "i < 16"
  then have "push_bit 24 a + push_bit 16 b + push_bit 8 c + d = fips256_w p i"
    by (simp add: fips256_w.simps [of _ i] word_rcat_def a_def b_def c_def d_def push_bit_eq_mult)
  finally show ?thesis .
qed

lemma schedule_is_fips: "16 \<le> n \<Longrightarrow> n \<le> 64 \<Longrightarrow>
  foldl sched_step (map (be_word p) [0..<16]) [16..<n] = map (fips256_w p) [0..<n]"
proof (induction n rule: dec_induct)
  case base
  then show ?case by (simp add: be_word_is_fips)
next
  case (step n)
  have "fips256_w p n = fips256_s1 (fips256_w p (n - 2)) + fips256_w p (n - 7) + fips256_s0 (fips256_w p (n - 15)) + fips256_w p (n - 16)"
    using step by (subst fips256_w.simps) simp
  then show ?case
    using step by (simp add: sched_step_def fips256_s0_def fips256_s1_def ror_is_rotr)
qed

lemma round_is_fips: "t < 64 \<Longrightarrow> round_step (map (fips256_w p) [0..<64]) v t = fips256_round p v t"
  by (auto simp: round_step_def fips256_round_def ror_is_rotr K256_is_fips Let_def split: list.split)

lemma sha_block_is_fips: "sha_block h p = fips256_block h p"
proof -
  have "foldl (round_step (map (fips256_w p) [0..<64])) h [0..<64] = foldl (fips256_round p) h [0..<64]"
    by (rule foldl_cong) (simp_all add: round_is_fips)
  moreover have "foldl sched_step (map (be_word p) [0..<16]) [16..<64] = map (fips256_w p) [0..<64]"
    by (rule schedule_is_fips) simp_all
  ultimately show ?thesis unfolding sha_block_def fips256_block_def Let_def by (simp only:)
qed

lemma fips_is_sha_block: "fips256_block = sha_block"
  by (intro ext) (simp add: sha_block_is_fips)

section \<open>Streaming\<close>

text \<open>The state holds message \<open>m\<close>: whole blocks are in the hash, the rest in the buffer.\<close>

definition holds :: "sha256 \<Rightarrow> bytes \<Rightarrow> bool" where
  "holds s m \<longleftrightarrow> (\<exists>a. m = a @ s_buf s \<and> 64 dvd length a \<and> length (s_buf s) < 64 \<and>
     s_h s = foldl sha_block (s_h sha256_init) (blocks 64 a))"

lemma holds_byte: "holds s m \<Longrightarrow> holds (upd_byte s b) (m @ [b])"
proof -
  assume "holds s m"
  then obtain a where a: "m = a @ s_buf s" "64 dvd length a" "length (s_buf s) < 64"
    "s_h s = foldl sha_block (s_h sha256_init) (blocks 64 a)" by (auto simp: holds_def)
  show ?thesis
  proof (cases "length (s_buf s @ [b]) = 64")
    case True
    then have "blocks 64 (a @ s_buf s @ [b]) = blocks 64 a @ [s_buf s @ [b]]"
      using a(2) by (simp only: blocks_append) (simp add: blocks_one)
    moreover have "64 dvd length (a @ s_buf s @ [b])" using a(2) True by (simp add: dvd_add)
    ultimately show ?thesis using a True
      by (auto simp: holds_def upd_byte_def Let_def intro!: exI [of _ "a @ s_buf s @ [b]"])
  next
    case False
    then show ?thesis using a by (auto simp: holds_def upd_byte_def Let_def)
  qed
qed

lemma holds_update: "holds s m \<Longrightarrow> holds (sha256_update s p) (m @ p)"
proof -
  assume h: "holds s m"
  have *: "holds t m \<Longrightarrow> holds (foldl upd_byte t p) (m @ p)" for t m
  proof (induction p arbitrary: t m)
    case Nil
    then show ?case by simp
  next
    case (Cons b p)
    from Cons.IH [OF holds_byte [OF Cons.prems]] show ?case by simp
  qed
  have "holds (s\<lparr>s_len := x\<rparr>) m" for x using h by (simp add: holds_def)
  then show ?thesis by (simp add: sha256_update_def *)
qed

lemma len_bytes: "s_len (foldl upd_byte s p) = s_len s"
  by (induction p arbitrary: s) (auto simp: upd_byte_def Let_def)

lemma len_update: "s_len (sha256_update s p) = s_len s + of_nat (length p)"
  by (simp add: sha256_update_def len_bytes)

lemma holds_init: "holds sha256_init []"
  by (simp add: holds_def sha256_init_def blocks.simps)

section \<open>Padding\<close>

lemma final_spec:
  assumes "holds s m" and "s_len s = of_nat (length m)" and "length m < 2 ^ 32"
  shows "sha256_final s = sha256_spec m"
proof -
  obtain a where a: "m = a @ s_buf s" "64 dvd length a" "length (s_buf s) < 64"
    "s_h s = foldl sha_block (s_h sha256_init) (blocks 64 a)" using assms(1) by (auto simp: holds_def)
  define r where "r = s_buf s"
  define f where "f = be_bytes 8 (8 * length m)"
  have lf: "length f = 8" by (simp add: f_def be_bytes_def)
  have ff: "be4 (drop_bit 29 (s_len s)) @ be4 (push_bit 3 (s_len s)) = f"
    using length_field [OF assms(3)] by (simp add: assms(2) f_def)
  have pad: "sha_pad m = a @ (r @ [0x80] @ replicate (if length r \<le> 55 then 55 - length r else 119 - length r) 0 @ f)"
    using pad_zeros [of 64 "length m" "length r" 55] a(1-3) by (simp add: sha_pad_def r_def f_def)
  have spec: "sha256_spec m = concat (map be4 (foldl sha_block (s_h s)
      (blocks 64 (r @ [0x80] @ replicate (if length r \<le> 55 then 55 - length r else 119 - length r) 0 @ f))))"
    unfolding sha256_spec_def pad blocks_append [OF a(2)] by (simp add: a(4) init_is_fips fips_is_sha_block)
  show ?thesis
  proof (cases "length r \<le> 55")
    case True
    have "blocks 64 (r @ [0x80] @ replicate (55 - length r) 0 @ f) = [r @ [0x80] @ replicate (55 - length r) 0 @ f]"
      by (rule blocks_one) (use True lf in simp_all)
    moreover have "sha256_final s = concat (map be4 (sha_block (s_h s) (r @ [0x80] @ replicate (55 - length r) 0 @ f)))"
      using True ff by (simp add: sha256_final_def Let_def r_def [symmetric])
    ultimately show ?thesis using True by (simp add: spec)
  next
    case False
    let ?b1 = "r @ [0x80] @ replicate (63 - length r) 0"
    have l1: "length ?b1 = 64" using False a(3) by (simp add: r_def)
    have "replicate (119 - length r) (0 :: u8) = replicate (63 - length r) 0 @ replicate 56 0"
      using a(3) by (simp add: r_def flip: replicate_add)
    then have "blocks 64 (r @ [0x80] @ replicate (119 - length r) 0 @ f) = blocks 64 (?b1 @ (replicate 56 0 @ f))" by simp
    also have "\<dots> = [?b1, replicate 56 0 @ f]"
      using blocks_append [of 64 ?b1 "replicate 56 0 @ f"] blocks_one [OF l1] blocks_one [of "replicate 56 0 @ f"] l1 lf by simp
    finally show ?thesis
      using False ff by (simp add: spec sha256_final_def Let_def r_def [symmetric])
  qed
qed

lemma holds_updates:
  "holds s m \<Longrightarrow> s_len s = of_nat (length m) \<Longrightarrow>
   holds (foldl sha256_update s ps) (m @ concat ps) \<and> s_len (foldl sha256_update s ps) = of_nat (length (m @ concat ps))"
proof (induction ps arbitrary: s m)
  case Nil
  then show ?case by simp
next
  case (Cons p ps)
  from Cons.IH [OF holds_update [OF Cons.prems(1), of p]] Cons.prems(2) show ?case
    by (simp add: len_update)
qed

text \<open>C27. However a message below 4 GB is cut into \<open>sha256_update\<close> calls, \<open>sha256_final\<close> returns the
  SHA-256 digest of FIPS 180-4: the standard's compression function, with its schedule, rounds, constants and initial
  value, over the 64-byte blocks of the message padded with a one bit, zeros and the 64-bit length in bits.\<close>

theorem sha256_streaming:
  assumes "length (concat ps) < 2 ^ 32"
  shows "sha256_final (foldl sha256_update sha256_init ps) = sha256_spec (concat ps)"
  using holds_updates [OF holds_init, of ps] assms
  by (intro final_spec) (simp_all add: sha256_init_def)

theorem sha256_streaming_witness:
  "sha256_final (foldl sha256_update sha256_init [[97], [98, 99]]) = sha256_spec [97, 98, 99]"
  using sha256_streaming [of "[[97], [98, 99]]"] by simp

end
