(* ===== verification/Fprime.thy ===== *)
theory Fprime
  imports C25519 F25519b
begin

text \<open>
  Arithmetic modulo a prime of at most 255 bits, \<open>x25519bench/ed25519/fprime.c\<close>: 32-byte numbers, reduced
  bit by bit with a conditional subtraction. Shown: for every modulus of the documented range the
  operations compute in the integers modulo it and keep the operands normalised. \<open>prime_msb\<close> of an
  all-zero modulus reads before the array: \<open>None\<close> here, as is a modulus of 1 in \<open>fprime_from_bytes\<close>.
\<close>

section \<open>The code\<close>

definition fprime_zero :: bytes where
  "fprime_zero = replicate 32 0"

definition fprime_one :: bytes where
  "fprime_one = 1 # replicate 31 0"

definition fprime_select :: "bytes \<Rightarrow> bytes \<Rightarrow> u8 \<Rightarrow> bytes" where
  "fprime_select zero one condition = map2 (\<lambda>z n. z XOR ((- condition) AND (n XOR z))) zero one"

definition raw_add :: "bytes \<Rightarrow> bytes \<Rightarrow> bytes" where
  "raw_add x p = snd (walk (0 :: u16) (map2 (\<lambda>a b. ucast a + ucast b) x p))"

fun sub_borrow :: "u16 \<Rightarrow> bytes \<Rightarrow> bytes \<Rightarrow> bytes \<times> u16" where
  "sub_borrow c (x # xs) (p # ps) =
     (let c = ucast x - ucast p - c; r = sub_borrow (drop_bit 8 c AND 1) xs ps in (ucast c # fst r, snd r))"
| "sub_borrow c _ _ = ([], c)"

definition raw_try_sub :: "bytes \<Rightarrow> bytes \<Rightarrow> bytes" where
  "raw_try_sub x p = (let r = sub_borrow 0 x p in fprime_select (fst r) x (ucast (snd r)))"

function bit_length :: "u8 \<Rightarrow> nat" where
  "bit_length x = (if x = 0 then 0 else Suc (bit_length (drop_bit 1 x)))"
  by pat_completeness auto
termination
proof (relation "measure unat")
  show "x \<noteq> 0 \<Longrightarrow> (drop_bit 1 x, x) \<in> measure unat" for x :: u8
    using unat_drop_bit_eq [of 1 x] by (simp add: drop_bit_eq_div unat_gt_0)
qed simp

declare bit_length.simps [simp del]

definition prime_msb :: "bytes \<Rightarrow> nat option" where
  "prime_msb p = map_option (\<lambda>i. 8 * i + bit_length (p ! i) - 1) (find (\<lambda>i. p ! i \<noteq> 0) (rev [0..<32]))"

fun shift_loop :: "u16 \<Rightarrow> nat \<Rightarrow> bytes \<Rightarrow> bytes" where
  "shift_loop c n [] = []"
| "shift_loop c n (x # xs) = (let c = c OR push_bit n (ucast x) in ucast c # shift_loop (drop_bit 8 c) n xs)"

definition shift_n_bits :: "bytes \<Rightarrow> nat \<Rightarrow> bytes" where
  "shift_n_bits x n = shift_loop 0 n x"

definition fprime_load :: "u32 \<Rightarrow> bytes" where
  "fprime_load c = map (\<lambda>i. ucast (drop_bit (8 * i) c)) [0..<4] @ replicate 28 0"

text \<open>\<open>n[0] |= b\<close>\<close>

definition or_low :: "bytes \<Rightarrow> u8 \<Rightarrow> bytes" where
  "or_low n b = n[0 := n ! 0 OR b]"

primrec from_bytes_loop :: "bytes \<Rightarrow> bytes \<Rightarrow> nat \<Rightarrow> bytes \<Rightarrow> bytes" where
  "from_bytes_loop x m 0 n = n"
| "from_bytes_loop x m (Suc i) n =
     from_bytes_loop x m i (raw_try_sub (or_low (shift_n_bits n 1) (exp_bit x i)) m)"

definition preload :: "bytes \<Rightarrow> nat \<Rightarrow> bytes" where
  "preload x preload_total =
     (let len = length x; n_bytes = preload_total div 8; n_bits = preload_total mod 8;
          n = take n_bytes (drop (len - n_bytes) x) @ replicate (32 - n_bytes) 0
      in if n_bits \<noteq> 0 then or_low (shift_n_bits n n_bits) (drop_bit (8 - n_bits) (x ! (len - n_bytes - 1))) else n)"

text \<open>For strings of fewer than \<open>2 ^ 28\<close> bytes, whose number of bits \<open>len << 3\<close> fits the machine's 32-bit \<open>size_t\<close>; the program
  calls it with 32 and 64 bytes.\<close>

definition fprime_from_bytes :: "bytes \<Rightarrow> bytes \<Rightarrow> bytes option" where
  "fprime_from_bytes x m =
     (case prime_msb m of
        Some (Suc k) \<Rightarrow>
          let preload_total = min k (8 * length x) in Some (from_bytes_loop x m (8 * length x - preload_total) (preload x preload_total))
      | _ \<Rightarrow> None)"

definition fprime_normalize :: "bytes \<Rightarrow> bytes \<Rightarrow> bytes option" where
  "fprime_normalize x m = fprime_from_bytes x m"

definition fprime_eq :: "bytes \<Rightarrow> bytes \<Rightarrow> u8" where
  "fprime_eq x y =
     (let s = foldl (\<lambda>s d. s OR d) 0 (map2 (XOR) x y);
          s = s OR drop_bit 4 s; s = s OR drop_bit 2 s; s = s OR drop_bit 1 s
      in (s XOR 1) AND 1)"

definition fprime_add :: "bytes \<Rightarrow> bytes \<Rightarrow> bytes \<Rightarrow> bytes" where
  "fprime_add r a m = raw_try_sub (raw_add r a) m"

definition fprime_sub :: "bytes \<Rightarrow> bytes \<Rightarrow> bytes \<Rightarrow> bytes" where
  "fprime_sub r a m = raw_try_sub (raw_try_sub (raw_add r m) a) m"

primrec fprime_mul_loop :: "bytes \<Rightarrow> bytes \<Rightarrow> bytes \<Rightarrow> nat \<Rightarrow> bytes \<Rightarrow> bytes" where
  "fprime_mul_loop a b m 0 r = r"
| "fprime_mul_loop a b m (Suc i) r =
     (let r = raw_try_sub (shift_n_bits r 1) m; plusa = fprime_add r a m
      in fprime_mul_loop a b m i (fprime_select r plusa (exp_bit b i)))"

definition fprime_mul :: "bytes \<Rightarrow> bytes \<Rightarrow> bytes \<Rightarrow> bytes option" where
  "fprime_mul a b m = map_option (\<lambda>k. fprime_mul_loop a b m (Suc k) fprime_zero) (prime_msb m)"

fun minus_two :: "u16 \<Rightarrow> bytes \<Rightarrow> bytes" where
  "minus_two c [] = []"
| "minus_two c (x # xs) = (let c = ucast x - c in ucast c # minus_two (drop_bit 8 c) xs)"

primrec fprime_inv_loop :: "bytes \<Rightarrow> bytes \<Rightarrow> bytes \<Rightarrow> nat \<Rightarrow> bytes \<Rightarrow> bytes option" where
  "fprime_inv_loop a pm2 m 0 r = Some r"
| "fprime_inv_loop a pm2 m (Suc i) r =
     Option.bind (fprime_mul r r m) (\<lambda>r2.
     Option.bind (if exp_bit pm2 i = 1 then fprime_mul r2 a m else Some r2) (fprime_inv_loop a pm2 m i))"

definition fprime_inv :: "bytes \<Rightarrow> bytes \<Rightarrow> bytes option" where
  "fprime_inv a m =
     Option.bind (prime_msb m) (\<lambda>k. fprime_inv_loop a (minus_two 2 m) m (Suc k) (fprime_load 1))"

section \<open>Values\<close>

lemma select_same: "fprime_select = f25519_select"
  by (intro ext) (simp add: fprime_select_def f25519_select_def)

lemma bval_less: "bval x < 256 ^ length x"
proof (induction x)
  case (Cons b x)
  then show ?case using byte_range [of b] by simp
qed simp

lemma raw_add_val:
  assumes "length x = 32" and "length p = 32"
  shows "length (raw_add x p) = 32 \<and> bval (raw_add x p) = (bval x + bval p) mod 2 ^ 256"
proof -
  let ?ks = "map2 (\<lambda>a b. ucast a + ucast b) x p :: u16 list"
  have f: "uint (ucast a + ucast b :: u16) = uint a + uint b" for a b :: u8
    using byte_range [of a] byte_range [of b] by (simp add: uint_add_fits uint_byte)
  have "list_all (\<lambda>k. uint k \<le> 510) ?ks"
    using add_mono [OF byte_range(2) byte_range(2)] by (auto simp: list_all_iff f)
  from walk_val [OF this, of 0 2] have w: "length (snd (walk 0 ?ks)) = 32"
    "bval (snd (walk 0 ?ks)) + 256 ^ 32 * uint (fst (walk 0 ?ks)) = cval ?ks"
    using assms by simp_all
  have "length x = length p \<Longrightarrow> cval (map2 (\<lambda>a b. ucast a + ucast b) x p :: u16 list) = bval x + bval p"
    by (induction x p rule: list_induct2) (simp_all add: f)
  then have "bval x + bval p = bval (snd (walk 0 ?ks)) + 2 ^ 256 * uint (fst (walk 0 ?ks))" using w(2) assms by simp
  then have "(bval x + bval p) mod 2 ^ 256 = bval (snd (walk 0 ?ks)) mod 2 ^ 256" by (simp only: mod_mult_self2)
  also have "\<dots> = bval (snd (walk 0 ?ks))"
    using bval_less [of "snd (walk 0 ?ks)"] w(1) by (intro mod_pos_pos_trivial bval_nonneg) simp
  finally show ?thesis using w(1) by (simp add: raw_add_def)
qed

text \<open>A difference of bytes with a borrow, in 16 bits.\<close>

lemma byte_diff:
  fixes x p :: u8 and c :: u16
  assumes "uint c \<le> 1"
  defines "d \<equiv> uint x - uint p - uint c"
  shows "uint (ucast (ucast x - ucast p - c :: u16) :: u8) = d mod 256"
    and "uint (drop_bit 8 (ucast x - ucast p - c) AND 1) = (if d < 0 then 1 else 0)"
proof -
  have r: "- 256 \<le> d" "d \<le> 255"
    unfolding d_def using byte_range [of x] byte_range [of p] assms(1) uint_nonnegative [of c] by linarith+
  have w: "ucast x - ucast p - c = (word_of_int d :: u16)"
    by (simp add: d_def uint_byte [symmetric, where 'a = 16])
  have u: "uint (word_of_int d :: u16) = (if d < 0 then d + 65536 else d)"
    using r mod_pos_pos_trivial [of "d + 65536" 65536] by (auto simp: uint_word_of_int mod_pos_pos_trivial)
  have "(d + 65536) mod 256 = d mod 256" using mod_mult_self2 [of d 256 256] by simp
  then show "uint (ucast (ucast x - ucast p - c :: u16) :: u8) = d mod 256"
    unfolding w using uint_low [of "word_of_int d :: u16"] by (simp add: u)
  have "uint (drop_bit 8 (word_of_int d :: u16)) = (if d < 0 then 255 else 0)"
  proof (cases "d < 0")
    case True
    then have "(d + 65536) div 256 = 255" using r by (intro int_div_pos_eq [of _ _ _ "d + 256"]) auto
    then show ?thesis using True by (simp add: uint_shift u)
  qed (use r in \<open>simp add: uint_shift u\<close>)
  then have "drop_bit 8 (word_of_int d :: u16) = (if d < 0 then 255 else 0)"
    by (auto simp: word_eq_iff_unsigned [where 'a = int] split: if_splits)
  then show "uint (drop_bit 8 (ucast x - ucast p - c) AND 1) = (if d < 0 then 1 else 0)"
    unfolding w by simp
qed

lemma mod_byte: "- 256 \<le> d \<Longrightarrow> d \<le> 255 \<Longrightarrow> d mod 256 = (if d < 0 then d + 256 else d)" for d :: int
  using mod_pos_pos_trivial [of "d + 256" 256] by (cases "d < 0") (simp_all add: mod_pos_pos_trivial)

lemma sub_borrow_val:
  assumes "length x = length p" and "uint c \<le> 1"
  shows "length (fst (sub_borrow c x p)) = length x \<and> uint (snd (sub_borrow c x p)) \<le> 1 \<and>
    bval (fst (sub_borrow c x p)) - 256 ^ length x * uint (snd (sub_borrow c x p)) = bval x - bval p - uint c"
  using assms
proof (induction c x p rule: sub_borrow.induct)
  case (1 c x xs p ps)
  let ?c = "drop_bit 8 (ucast x - ucast p - c) AND 1 :: u16"
  let ?d = "uint x - uint p - uint c"
  note d = byte_diff [OF 1(3), of x p]
  from 1(1) [OF refl] 1(2) d(2)
  have ih: "length (fst (sub_borrow ?c xs ps)) = length xs" "uint (snd (sub_borrow ?c xs ps)) \<le> 1"
    "bval (fst (sub_borrow ?c xs ps)) - 256 ^ length xs * uint (snd (sub_borrow ?c xs ps)) = bval xs - bval ps - uint ?c"
    by auto
  have m: "?d mod 256 = ?d + 256 * uint ?c"
    unfolding d(2) using byte_range [of x] byte_range [of p] 1(3) uint_nonnegative [of c]
    by (subst mod_byte) (linarith, linarith, simp)
  show ?case using ih(1,2) m d(1) ih(3) [THEN arg_cong, of "\<lambda>z. 256 * z"]
    by (simp add: Let_def algebra_simps)
qed auto

lemma raw_try_sub_val:
  assumes "length x = 32" and "length p = 32"
  shows "length (raw_try_sub x p) = 32 \<and>
    bval (raw_try_sub x p) = (if bval x < bval p then bval x else bval x - bval p)"
proof -
  define r where "r = sub_borrow 0 x p"
  have r: "length (fst r) = 32" "uint (snd r) \<le> 1" "bval (fst r) - 256 ^ 32 * uint (snd r) = bval x - bval p"
    using sub_borrow_val [of x p 0] assms by (simp_all add: r_def)
  have "bval (fst r) < 256 ^ 32" "0 \<le> bval (fst r)" "bval x < 256 ^ 32" "0 \<le> bval p"
    using bval_less [of "fst r"] bval_less [of x] bval_nonneg r(1) assms by auto
  then have c: "uint (snd r) = (if bval x < bval p then 1 else 0)"
    using r(2,3) uint_nonnegative [of "snd r"] by (cases "uint (snd r) = 0") (auto, linarith?)
  then have "snd r = (if bval x < bval p then 1 else 0)"
    by (auto simp: word_eq_iff_unsigned [where 'a = int] split: if_splits)
  then show ?thesis
    using r assms by (auto simp: raw_try_sub_def r_def [symmetric] Let_def select_same f25519_select_val)
qed

lemma div_below:
  fixes a b d :: int
  assumes "0 < d" and "a < b * d"
  shows "a div d < b"
proof -
  have "d * (a div d) \<le> a" using mult_div_mod_eq [of d a] pos_mod_sign [OF assms(1), of a] by linarith
  then have "(a div d) * d < b * d" using assms(2) by (simp add: mult.commute)
  then show ?thesis using assms(1) by (simp add: mult_less_cancel_right)
qed

text \<open>Shifting in low bits \<open>c\<close> at the bottom.\<close>

lemma mod_digit: "0 \<le> l \<Longrightarrow> l < 256 \<Longrightarrow> (l + 256 * y) mod (256 * m) = l + 256 * (y mod (m :: int))"
  if "0 < m"
  using zmod_zmult2_eq [of m "l + 256 * y" 256] that by simp

lemma shift_loop_val:
  assumes "n \<le> 7" and "uint c < 2 ^ n"
  shows "length (shift_loop c n x) = length x \<and> bval (shift_loop c n x) = (2 ^ n * bval x + uint c) mod 256 ^ length x"
  using assms(2)
proof (induction x arbitrary: c)
  case (Cons b x)
  define e where "e = c OR push_bit n (ucast b)"
  have n: "(2 :: int) ^ n \<le> 128" using assms(1) power_increasing [of n 7 "2 :: int"] by simp
  have disj: "c OR push_bit n (ucast b) = c + push_bit n (ucast b)"
  proof (rule disjunctive_add [symmetric])
    fix i show "\<not> bit c i \<or> \<not> bit (push_bit n (ucast b) :: u16) i"
    proof (cases "i < n")
      case False
      have "take_bit n c = c" using Cons.prems by (simp add: word_eq_iff_unsigned [where 'a = int] unsigned_take_bit_eq take_bit_int_eq_self)
      then have "\<not> bit c i" using False by (metis bit_take_bit_iff)
      then show ?thesis by simp
    qed (simp add: bit_simps)
  qed
  have p: "uint (push_bit n (ucast b) :: u16) = 2 ^ n * uint b"
  proof -
    have "2 ^ n * uint b \<le> 128 * 255" using n byte_range [of b] by (intro mult_mono) auto
    then show ?thesis using byte_range [of b]
      by (subst unsigned_push_bit_eq) (simp add: uint_byte push_bit_eq_mult take_bit_eq_mod mult.commute mod_pos_pos_trivial)
  qed
  have "2 ^ n * uint b \<le> 2 ^ n * 255" using byte_range [of b] by simp
  then have s: "2 ^ n * uint b + uint c < 2 ^ n * 256" using Cons.prems by linarith
  then have e: "uint e = 2 ^ n * uint b + uint c"
    using n by (simp add: e_def disj uint_add_fits p)
  have "uint (drop_bit 8 e) < 2 ^ n" using s by (simp add: uint_shift e div_below)
  from Cons.IH [OF this] have ih: "length (shift_loop (drop_bit 8 e) n x) = length x"
    "bval (shift_loop (drop_bit 8 e) n x) = (2 ^ n * bval x + uint e div 256) mod 256 ^ length x"
    by (simp_all add: uint_shift)
  have "2 ^ n * bval (b # x) + uint c = uint e mod 256 + 256 * (2 ^ n * bval x + uint e div 256)"
    using mult_div_mod_eq [of 256 "uint e"] by (simp add: e algebra_simps)
  then have "(2 ^ n * bval (b # x) + uint c) mod 256 ^ length (b # x) =
      uint e mod 256 + 256 * ((2 ^ n * bval x + uint e div 256) mod 256 ^ length x)"
    by (simp only: length_Cons power_Suc) (rule mod_digit, simp_all)
  then show ?case using ih by (simp add: Let_def e_def [symmetric] uint_low)
qed simp

lemma or_low_shift:
  assumes "x \<noteq> []"
  shows "or_low (shift_n_bits x n) b = shift_loop (ucast b) n x"
proof -
  obtain y ys where x: "x = y # ys" using assms by (cases x) auto
  have "drop_bit 8 (ucast b OR v) = drop_bit 8 (v :: u16)" for v
    by (rule bit_word_eqI) (auto simp: bit_simps bit_u8_high)
  moreover have "ucast (push_bit n (ucast y) :: u16) OR b = (ucast (ucast b OR push_bit n (ucast y) :: u16) :: u8)"
    by (rule bit_word_eqI) (auto simp: bit_simps)
  ultimately show ?thesis by (simp add: x or_low_def shift_n_bits_def Let_def)
qed

definition modulus_ok :: "bytes \<Rightarrow> bool" where
  "modulus_ok m \<longleftrightarrow> length m = 32 \<and> 1 < bval m \<and> 2 * bval m - 1 < 2 ^ 256"

definition normal :: "bytes \<Rightarrow> bytes \<Rightarrow> bool" where
  "normal m a \<longleftrightarrow> length a = 32 \<and> bval a < bval m"

text \<open>One bit in at the bottom and a conditional subtraction.\<close>

lemma double_step:
  assumes "modulus_ok m" and "normal m n" and "uint c \<le> 1"
  shows "normal m (raw_try_sub (shift_loop c 1 n) m) \<and>
    bval (raw_try_sub (shift_loop c 1 n) m) = (2 * bval n + uint c) mod bval m"
proof -
  have l: "2 * bval n + uint c < 2 * bval m" "0 \<le> bval n" using assms bval_nonneg by (auto simp: normal_def)
  have "bval (shift_loop c 1 n) = (2 * bval n + uint c) mod 2 ^ 256"
    using shift_loop_val [of 1 c n] assms by (simp add: normal_def)
  also have "\<dots> = 2 * bval n + uint c"
    using l assms by (intro mod_pos_pos_trivial) (auto simp: modulus_ok_def)
  finally have v: "bval (shift_loop c 1 n) = 2 * bval n + uint c" .
  have "length (shift_loop c 1 n) = 32" using shift_loop_val [of 1 c n] assms by (simp add: normal_def)
  moreover have "(2 * bval n + uint c) mod bval m = (if 2 * bval n + uint c < bval m then 2 * bval n + uint c else 2 * bval n + uint c - bval m)"
    using l mod_pos_pos_trivial [of "2 * bval n + uint c - bval m" "bval m"] by (auto simp: mod_pos_pos_trivial)
  ultimately show ?thesis using raw_try_sub_val [of "shift_loop c 1 n" m] assms v l
    by (auto simp: modulus_ok_def normal_def)
qed

lemma add_step:
  assumes "modulus_ok m" and "normal m r" and "normal m a"
  shows "normal m (fprime_add r a m) \<and> bval (fprime_add r a m) = (bval r + bval a) mod bval m"
proof -
  have l: "bval r + bval a < 2 * bval m - 1" "0 \<le> bval r + bval a" using assms bval_nonneg [of r] bval_nonneg [of a] by (auto simp: normal_def)
  have "bval (raw_add r a) = (bval r + bval a) mod 2 ^ 256" "length (raw_add r a) = 32"
    using raw_add_val [of r a] assms by (auto simp: normal_def)
  moreover have "(bval r + bval a) mod 2 ^ 256 = bval r + bval a"
    using l assms by (intro mod_pos_pos_trivial) (auto simp: modulus_ok_def)
  moreover have "(bval r + bval a) mod bval m = (if bval r + bval a < bval m then bval r + bval a else bval r + bval a - bval m)"
    using l mod_pos_pos_trivial [of "bval r + bval a - bval m" "bval m"] by (auto simp: mod_pos_pos_trivial)
  ultimately show ?thesis using raw_try_sub_val [of "raw_add r a" m] assms l
    by (auto simp: modulus_ok_def normal_def fprime_add_def)
qed

lemma sub_step:
  assumes "modulus_ok m" and "normal m r" and "normal m a"
  shows "normal m (fprime_sub r a m) \<and> bval (fprime_sub r a m) = (bval r - bval a) mod bval m"
proof -
  have b: "0 \<le> bval r" "0 \<le> bval a" using bval_nonneg by auto
  have "bval (raw_add r m) = (bval r + bval m) mod 2 ^ 256" "length (raw_add r m) = 32"
    using raw_add_val [of r m] assms by (auto simp: normal_def modulus_ok_def)
  moreover have "(bval r + bval m) mod 2 ^ 256 = bval r + bval m"
    using b assms by (intro mod_pos_pos_trivial) (auto simp: modulus_ok_def normal_def)
  ultimately have "bval (raw_try_sub (raw_add r m) a) = bval r + bval m - bval a" "length (raw_try_sub (raw_add r m) a) = 32"
    using raw_try_sub_val [of "raw_add r m" a] assms b by (auto simp: normal_def)
  moreover have "(bval r - bval a) mod bval m = (if bval r < bval a then bval r + bval m - bval a else bval r - bval a)"
    using b assms mod_pos_pos_trivial [of "bval r + bval m - bval a" "bval m"] mod_add_self2 [of "bval r - bval a" "bval m"]
    by (auto simp: mod_pos_pos_trivial normal_def algebra_simps)
  ultimately show ?thesis using raw_try_sub_val [of "raw_try_sub (raw_add r m) a" m] assms b
    by (auto simp: modulus_ok_def normal_def fprime_sub_def)
qed

text \<open>The most significant bit.\<close>

lemma bit_length_val: "uint x < 2 ^ bit_length x \<and> (x \<noteq> 0 \<longrightarrow> 0 < bit_length x \<and> 2 ^ (bit_length x - 1) \<le> uint x)"
proof (induction x rule: bit_length.induct)
  case (1 x)
  show ?case
  proof (cases "x = 0")
    case False
    let ?y = "drop_bit 1 x"
    from 1 [OF False] have y: "uint ?y < 2 ^ bit_length ?y" "?y \<noteq> 0 \<Longrightarrow> 0 < bit_length ?y \<and> 2 ^ (bit_length ?y - 1) \<le> uint ?y"
      by auto
    have u: "uint ?y = uint x div 2" by (simp add: uint_shift del: drop_bit_eq_div)
    have bl: "bit_length x = Suc (bit_length ?y)" using False by (subst bit_length.simps) simp
    have pos: "0 < uint x" using False uint_nonnegative [of x] uint_0_iff [of x] by linarith
    have "2 ^ bit_length ?y \<le> uint x"
    proof (cases "?y = 0")
      case True
      then have "bit_length ?y = 0" by (subst bit_length.simps) simp
      then show ?thesis using pos by simp
    next
      case False
      from y(2) [OF this] obtain k where "bit_length ?y = Suc k" "2 ^ k \<le> uint ?y" by (cases "bit_length ?y") auto
      then show ?thesis unfolding u by simp
    qed
    then show ?thesis using y(1) u bl by simp
  qed (subst bit_length.simps, simp)
qed

lemma bval_top:
  assumes "i < length p" and "\<And>j. i < j \<Longrightarrow> j < length p \<Longrightarrow> p ! j = 0"
  shows "bval p = bval (take i p) + 256 ^ i * uint (p ! i)"
proof -
  have "drop (Suc i) p = replicate (length p - Suc i) 0"
    using assms by (intro nth_equalityI) auto
  then have "bval (drop i p) = uint (p ! i)" using assms(1) by (simp flip: Cons_nth_drop_Suc)
  then show ?thesis using bval_append [of "take i p" "drop i p"] assms(1) by simp
qed

lemma prime_msb_val:
  assumes "length p = 32" and "prime_msb p = Some k"
  shows "2 ^ k \<le> bval p \<and> bval p < 2 ^ Suc k"
proof -
  from assms(2) obtain i where i: "find (\<lambda>i. p ! i \<noteq> 0) (rev [0..<32]) = Some i" "k = 8 * i + bit_length (p ! i) - 1"
    by (auto simp: prime_msb_def)
  then obtain j where j: "j < 32" "i = 31 - j" "p ! i \<noteq> 0" "\<And>l. l < j \<Longrightarrow> p ! (31 - l) = 0"
    by (auto simp: find_Some_iff rev_nth)
  have z: "p ! l = 0" if "i < l" "l < length p" for l
    using j(4) [of "31 - l"] that j(1,2) assms(1) by simp
  obtain b where b: "bit_length (p ! i) = Suc b" "2 ^ b \<le> uint (p ! i)" "uint (p ! i) < 2 ^ Suc b"
    using bit_length_val [of "p ! i"] j(3) by (cases "bit_length (p ! i)") auto
  have v: "bval p = bval (take i p) + 256 ^ i * uint (p ! i)"
    using z j(1,2) assms(1) by (intro bval_top) auto
  have lo: "0 \<le> bval (take i p)" "bval (take i p) < 256 ^ i"
    using bval_nonneg bval_less [of "take i p"] j(1,2) assms(1) by auto
  have k: "(2 :: int) ^ k = 256 ^ i * 2 ^ b" using i(2) b(1) by (simp add: power_add power_mult)
  have "256 ^ i * 2 ^ b \<le> 256 ^ i * uint (p ! i)" using b(2) by simp
  then have "2 ^ k \<le> bval p" using v lo k by linarith
  moreover have "256 ^ i * (uint (p ! i) + 1) \<le> 256 ^ i * 2 ^ Suc b" using b(3) by (intro mult_left_mono) auto
  then have "256 ^ i * uint (p ! i) + 256 ^ i \<le> 2 * (256 ^ i * 2 ^ b)" by (simp add: distrib_left mult.left_commute)
  then have "bval p < 2 ^ Suc k" using v lo k by simp
  ultimately show ?thesis by simp
qed

lemma prime_msb_some: "length p = 32 \<Longrightarrow> 0 < bval p \<Longrightarrow> \<exists>k. prime_msb p = Some k"
proof (rule ccontr)
  assume a: "length p = 32" "0 < bval p" "\<nexists>k. prime_msb p = Some k"
  then have "p = replicate 32 0" by (auto simp: prime_msb_def find_None_iff intro!: nth_equalityI)
  then have "bval p = 0" by simp
  with a(2) show False by simp
qed

lemma ucast_bit: "i < 8 * length x \<Longrightarrow> uint (ucast (exp_bit x i) :: u16) = of_bool (bit (bval x) i)"
  by (simp add: exp_bit_val)

lemma from_bytes_loop_val:
  assumes "modulus_ok m" and "i \<le> 8 * length x" and "normal m n" and "bval n = bval x div 2 ^ i mod bval m"
  shows "normal m (from_bytes_loop x m i n) \<and> bval (from_bytes_loop x m i n) = bval x mod bval m"
  using assms(2-)
proof (induction i arbitrary: n)
  case (Suc i)
  have n: "n \<noteq> []" using Suc.prems by (auto simp: normal_def)
  have c: "uint (ucast (exp_bit x i) :: u16) = of_bool (bit (bval x) i)" using Suc.prems by (simp add: ucast_bit)
  have "(2 * bval n + of_bool (bit (bval x) i)) mod bval m = bval x div 2 ^ i mod bval m"
    unfolding Suc.prems(3) div_bit [of x i] by (intro mod_add_cong mod_mult_cong) simp_all
  then show ?case
    using Suc.prems double_step [OF assms(1) Suc.prems(2), of "ucast (exp_bit x i)"]
    by (simp add: or_low_shift [OF n] c Suc.IH)
qed (simp add: normal_def)

lemma bval_drop: "bval (drop k x) = bval x div 256 ^ k"
proof (induction x arbitrary: k)
  case (Cons b x)
  show ?case
  proof (cases k)
    case (Suc j)
    have "(uint b + 256 * bval x) div 256 = bval x" using byte_range [of b] by simp
    then have "(uint b + 256 * bval x) div (256 * 256 ^ j) = bval x div 256 ^ j" by (simp add: zdiv_zmult2_eq)
    then show ?thesis using Suc Cons by simp
  qed simp
qed simp

lemma preload_val:
  assumes "t \<le> 8 * length x" and "t \<le> 255"
  shows "length (preload x t) = 32 \<and> bval (preload x t) = bval x div 2 ^ (8 * length x - t)"
proof -
  define l q r where "l = length x - t div 8" and "q = t div 8" and "r = t mod 8"
  have t: "t = 8 * q + r" "r < 8" by (simp_all add: q_def r_def)
  have q: "q \<le> 31" "q \<le> length x" using assms t by auto
  define n where "n = take q (drop l x) @ replicate (32 - q) 0"
  have "take q (drop l x) = drop l x" using q by (simp add: l_def q_def)
  then have n: "length n = 32" "bval n = bval x div 256 ^ l"
    using q by (simp_all add: n_def bval_append bval_drop l_def q_def)
  show ?thesis
  proof (cases "r = 0")
    case True
    then have "8 * length x - t = 8 * l" using t q by (simp add: l_def q_def)
    moreover have "preload x t = n" using True by (simp add: preload_def Let_def n_def l_def q_def r_def)
    ultimately show ?thesis using n by (simp add: power_mult)
  next
    case False
    then have l: "0 < l" "l \<le> length x" using t assms(1) q by (auto simp: l_def q_def)
    let ?b = "x ! (l - 1)"
    have p: "preload x t = shift_loop (ucast (drop_bit (8 - r) ?b)) r n"
    proof -
      have "preload x t = or_low (shift_n_bits n r) (drop_bit (8 - r) ?b)"
        using False by (simp add: preload_def Let_def n_def l_def q_def r_def)
      moreover have "n \<noteq> []" using n(1) by auto
      ultimately show ?thesis by (simp add: or_low_shift)
    qed
    have u: "uint (drop_bit (8 - r) ?b) = uint ?b div 2 ^ (8 - r)" by (simp only: uint_shift)
    have "uint ?b < 2 ^ r * 2 ^ (8 - r)" using byte_range [of ?b] t(2) by (simp flip: power_add)
    then have c: "uint (ucast (drop_bit (8 - r) ?b) :: u16) < 2 ^ r"
      using u by (subst uint_byte) (simp, simp only: u, simp add: div_below)
    have d: "bval x div 256 ^ (l - 1) = uint ?b + 256 * bval n"
    proof -
      have "drop (l - 1) x = ?b # drop l x" using Cons_nth_drop_Suc [of "l - 1" x] l by simp
      then show ?thesis using n(2) bval_drop [of "l - 1" x] bval_drop [of l x] by simp
    qed
    have "8 * length x - t = 8 * (l - 1) + (8 - r)" using t q l by (simp add: l_def q_def)
    then have "bval x div 2 ^ (8 * length x - t) = (uint ?b + 256 * bval n) div 2 ^ (8 - r)"
      by (simp add: power_add power_mult zdiv_zmult2_eq d [simplified])
    also have "256 * bval n = (2 ^ r * bval n) * 2 ^ (8 - r)" using t(2) by (simp flip: power_add)
    also have "(uint ?b + (2 ^ r * bval n) * 2 ^ (8 - r)) div 2 ^ (8 - r) = 2 ^ r * bval n + uint ?b div 2 ^ (8 - r)" by simp
    finally have e: "bval x div 2 ^ (8 * length x - t) = 2 ^ r * bval n + uint ?b div 2 ^ (8 - r)" .
    have "bval x < 2 ^ (8 * length x)" using bval_less [of x] by (simp add: power_mult)
    also have "8 * length x = t + (8 * length x - t)" using assms(1) by simp
    finally have "bval x div 2 ^ (8 * length x - t) < 2 ^ t"
      by (simp add: power_add div_below)
    also have "\<dots> \<le> 2 ^ 255" using assms(2) by (intro power_increasing) auto
    finally have "2 ^ r * bval n + uint ?b div 2 ^ (8 - r) < 2 ^ 256" unfolding e by simp
    moreover have "0 \<le> 2 ^ r * bval n + uint ?b div 2 ^ (8 - r)" using bval_nonneg by (intro add_nonneg_nonneg) (auto simp: pos_imp_zdiv_nonneg_iff)
    ultimately show ?thesis
      using shift_loop_val [of r "ucast (drop_bit (8 - r) ?b)" n] c t(2) n(1) u
      by (simp add: p e uint_byte mod_pos_pos_trivial)
  qed
qed

section \<open>The operations modulo the prime\<close>

text \<open>\<open>computes m r v\<close>: the routine returns the normalised representation of \<open>v\<close> modulo \<open>m\<close>.\<close>

definition computes :: "bytes \<Rightarrow> bytes option \<Rightarrow> int \<Rightarrow> bool" where
  "computes m r v \<longleftrightarrow> (\<exists>c. r = Some c \<and> normal m c \<and> bval c = v mod bval m)"

lemma computes_bind: "computes m r v \<Longrightarrow> (\<And>c. normal m c \<Longrightarrow> bval c = v mod bval m \<Longrightarrow> computes m (f c) w) \<Longrightarrow> computes m (Option.bind r f) w"
  by (auto simp: computes_def)

lemma modulus_msb:
  assumes "modulus_ok m"
  obtains k where "prime_msb m = Some (Suc k)" and "k < 255" and "2 ^ Suc k \<le> bval m" and "bval m < 2 ^ Suc (Suc k)"
proof -
  have m: "length m = 32" "1 < bval m" "bval m \<le> 2 ^ 255" using assms by (auto simp: modulus_ok_def)
  then obtain j where j: "prime_msb m = Some j" "2 ^ j \<le> bval m" "bval m < 2 ^ Suc j"
    using prime_msb_some [of m] prime_msb_val [of m] by auto
  obtain k where k: "j = Suc k" using j(3) m(2) by (cases j) auto
  have "(2 :: int) ^ j \<le> 2 ^ 255" using j(2) m(3) by linarith
  then have "j \<le> 255" by (rule power_le_imp_le_exp [rotated]) simp
  then show thesis using that [of k] j k by auto
qed

lemma from_bytes_val:
  assumes "modulus_ok m"
  shows "computes m (fprime_from_bytes x m) (bval x)"
proof -
  from assms obtain k where k: "prime_msb m = Some (Suc k)" "k < 255" "2 ^ Suc k \<le> bval m" by (rule modulus_msb)
  define t where "t = min k (8 * length x)"
  have p: "length (preload x t) = 32" "bval (preload x t) = bval x div 2 ^ (8 * length x - t)"
    using preload_val [of t x] k(2) by (auto simp: t_def)
  have "bval x < 2 ^ (8 * length x)" using bval_less [of x] by (simp add: power_mult)
  also have "8 * length x = t + (8 * length x - t)" by (simp add: t_def)
  finally have "bval x div 2 ^ (8 * length x - t) < 2 ^ t" by (simp add: power_add div_below)
  also have "\<dots> \<le> 2 ^ k" by (intro power_increasing) (auto simp: t_def)
  also have "\<dots> < 2 ^ Suc k" by simp
  also have "\<dots> \<le> bval m" by (rule k(3))
  finally have l: "bval (preload x t) < bval m" by (simp add: p)
  then have "bval (preload x t) = bval x div 2 ^ (8 * length x - t) mod bval m"
    using p(2) bval_nonneg [of "preload x t"] by (simp add: mod_pos_pos_trivial)
  from from_bytes_loop_val [OF assms _ _ this] p(1) l show ?thesis
    by (simp add: fprime_from_bytes_def k(1) computes_def Let_def t_def [symmetric] normal_def)
qed

lemma mul_loop_val:
  assumes m: "modulus_ok m" and a: "normal m a" and b: "length b = 32"
  shows "i \<le> 256 \<Longrightarrow> normal m r \<Longrightarrow> bval r = (bval a * (bval b div 2 ^ i)) mod bval m \<Longrightarrow>
    normal m (fprime_mul_loop a b m i r) \<and> bval (fprime_mul_loop a b m i r) = (bval a * bval b) mod bval m"
proof (induction i arbitrary: r)
  case (Suc i)
  define d where "d = raw_try_sub (shift_n_bits r 1) m"
  have d: "normal m d" "bval d = (2 * bval r) mod bval m"
    using double_step [OF m Suc.prems(2), of 0] by (simp_all add: d_def shift_n_bits_def)
  have s: "normal m (fprime_add d a m)" "bval (fprime_add d a m) = (bval d + bval a) mod bval m"
    using add_step [OF m d(1) a] by simp_all
  define r' where "r' = fprime_select d (fprime_add d a m) (exp_bit b i)"
  have e: "exp_bit b i = (if bit (bval b) i then 1 else 0)" using exp_bit_val [of i b] Suc.prems(1) b by simp
  then have r': "r' = (if bit (bval b) i then fprime_add d a m else d)"
    using d(1) s(1) by (simp add: r'_def select_same f25519_select_val normal_def)
  have "(bval a * (bval b div 2 ^ i)) mod bval m = (2 * bval r + of_bool (bit (bval b) i) * bval a) mod bval m"
    unfolding Suc.prems(3) div_bit [of b i] distrib_left
    by (intro mod_add_cong) (simp_all add: mod_simps mult.left_commute mult.commute)
  then have "normal m r' \<and> bval r' = (bval a * (bval b div 2 ^ i)) mod bval m"
    using d s by (auto simp: r' mod_simps)
  then show ?case
    using Suc unfolding fprime_mul_loop.simps Let_def d_def [symmetric] r'_def [symmetric] by simp
qed simp

lemma mul_val:
  assumes "modulus_ok m" and "normal m a" and "normal m b"
  shows "computes m (fprime_mul a b m) (bval a * bval b)"
proof -
  from assms obtain k where k: "prime_msb m = Some (Suc k)" "k < 255" "bval m < 2 ^ Suc (Suc k)"
    by (elim modulus_msb) auto
  have "bval b div 2 ^ Suc (Suc k) = 0"
    using assms(3) k(3) bval_nonneg [of b] by (intro div_pos_pos_trivial) (auto simp: normal_def)
  then show ?thesis
    using mul_loop_val [OF assms(1,2), of b "Suc (Suc k)" fprime_zero] assms k(2)
    by (simp add: fprime_mul_def k(1) computes_def normal_def modulus_ok_def fprime_zero_def)
qed

lemma minus_two_val:
  assumes "2 \<le> uint (m ! 0)" and "m \<noteq> []"
  shows "bval (minus_two 2 m) = bval m - 2 \<and> length (minus_two 2 m) = length m"
proof -
  obtain b bs where m: "m = b # bs" using assms(2) by (cases m) auto
  have "uint (ucast b - 2 :: u16) = uint b - 2" using assms(1) by (simp add: m uint_sub_fits uint_byte)
  moreover from this have "drop_bit 8 (ucast b - 2 :: u16) = 0"
    using byte_range [of b] assms(1)
    by (simp add: m word_eq_iff_unsigned [where 'a = int] uint_shift div_pos_pos_trivial)
  moreover have "bval (minus_two 0 bs) = bval bs \<and> length (minus_two 0 bs) = length bs"
  proof (induction bs)
    case (Cons c cs)
    have "drop_bit 8 (ucast c :: u16) = 0" by (rule bit_word_eqI) (simp add: bit_simps bit_u8_high)
    moreover have "ucast (ucast c :: u16) = c" by (rule bit_word_eqI) (simp add: bit_simps)
    ultimately show ?case using Cons by (simp add: Let_def)
  qed simp
  ultimately show ?thesis
    using uint_low [of "ucast b - 2 :: u16"] byte_range [of b] assms(1) by (simp add: m Let_def mod_pos_pos_trivial)
qed

text \<open>The bits of the exponent that the loop reads.\<close>

definition exponent :: "bytes \<Rightarrow> nat \<Rightarrow> nat" where
  "exponent e n = nat (bval e mod 2 ^ n)"

lemma exponent_bit: "i < n \<Longrightarrow> exponent e n div 2 ^ i = 2 * (exponent e n div 2 ^ Suc i) + of_bool (bit (bval e) i)"
proof -
  assume "i < n"
  then have "bit (exponent e n) i \<longleftrightarrow> bit (bval e) i"
    by (simp add: exponent_def bit_nat_iff bit_take_bit_iff flip: take_bit_eq_mod)
  moreover have "exponent e n div 2 ^ i = 2 * (exponent e n div 2 ^ i div 2) + exponent e n div 2 ^ i mod 2" by simp
  moreover have "exponent e n div 2 ^ i div 2 = exponent e n div 2 ^ Suc i"
    by (simp only: power_Suc2 div_mult2_eq)
  moreover have "of_bool (bit (exponent e n) i) = exponent e n div 2 ^ i mod 2" by (simp add: bit_iff_odd mod2_eq_if)
  ultimately show ?thesis by simp
qed

lemma computes_pow_mul:
  assumes "modulus_ok m" and "normal m r" and "normal m s" and "bval r = (a ^ i) mod bval m" and "bval s = (a ^ j) mod bval m"
  shows "computes m (fprime_mul r s m) (a ^ (i + j))"
  using mul_val [OF assms(1-3)] assms(4,5) by (simp add: computes_def power_add mod_simps)

lemma inv_loop_val:
  assumes m: "modulus_ok m" and a: "normal m a" and e: "length e = 32" and n: "n \<le> 256"
  shows "i \<le> n \<Longrightarrow> normal m r \<Longrightarrow> bval r = bval a ^ (exponent e n div 2 ^ i) mod bval m \<Longrightarrow>
    computes m (fprime_inv_loop a e m i r) (bval a ^ exponent e n)"
proof (induction i arbitrary: r)
  case 0
  then show ?case by (simp add: computes_def)
next
  case (Suc i)
  let ?q = "exponent e n div 2 ^ Suc i"
  have b: "exp_bit e i = (if bit (bval e) i then 1 else 0)" using exp_bit_val [of i e] Suc.prems(1) e n by simp
  show ?case
    unfolding fprime_inv_loop.simps
  proof (rule computes_bind)
    show "computes m (fprime_mul r r m) (bval a ^ (?q + ?q))"
      by (rule computes_pow_mul [OF m Suc.prems(2,2,3,3)])
    fix r2 assume r2: "normal m r2" "bval r2 = bval a ^ (?q + ?q) mod bval m"
    show "computes m (Option.bind (if exp_bit e i = 1 then fprime_mul r2 a m else Some r2) (fprime_inv_loop a e m i)) (bval a ^ exponent e n)"
    proof (rule computes_bind)
      have "computes m (fprime_mul r2 a m) (bval a ^ (?q + ?q + 1))"
        using a by (intro computes_pow_mul [OF m r2(1) a r2(2)]) (simp add: normal_def bval_nonneg mod_pos_pos_trivial)
      then show "computes m (if exp_bit e i = 1 then fprime_mul r2 a m else Some r2) (bval a ^ (exponent e n div 2 ^ i))"
        using r2 Suc.prems(1) exponent_bit [of i n e] by (simp add: b computes_def mult_2)
      fix c assume "normal m c" "bval c = bval a ^ (exponent e n div 2 ^ i) mod bval m"
      then show "computes m (fprime_inv_loop a e m i c) (bval a ^ exponent e n)" using Suc by simp
    qed
  qed
qed

lemma length_minus_two [simp]: "length (minus_two c m) = length m"
  by (induction m arbitrary: c) (simp_all add: Let_def)

lemma inv_exponent:
  assumes "modulus_ok m" and "normal m a" and "prime_msb m = Some k"
  shows "computes m (fprime_inv a m) (bval a ^ exponent (minus_two 2 m) (Suc k))"
proof -
  have k: "k < 256" using modulus_msb [OF assms(1)] assms(3) by fastforce
  have "exponent (minus_two 2 m) (Suc k) div 2 ^ Suc k = 0"
    by (intro div_less) (simp add: exponent_def nat_less_iff)
  moreover have "normal m (fprime_load 1)" "bval (fprime_load 1) = 1" using assms(1)
    by (auto simp: normal_def fprime_load_def modulus_ok_def upt_rec drop_bit_eq_div)
  ultimately show ?thesis
    using inv_loop_val [OF assms(1,2), of "minus_two 2 m" "Suc k" "Suc k" "fprime_load 1"] k assms
    by (simp add: fprime_inv_def modulus_ok_def mod_pos_pos_trivial)
qed

lemma inv_val:
  assumes "modulus_ok m" and "normal m a" and "2 \<le> uint (m ! 0)"
  shows "computes m (fprime_inv a m) (bval a ^ nat (bval m - 2))"
proof -
  from assms(1) obtain k where k: "prime_msb m = Some (Suc k)" "bval m < 2 ^ Suc (Suc k)" by (elim modulus_msb) auto
  have "m \<noteq> []" using assms(1) by (auto simp: modulus_ok_def)
  then have "exponent (minus_two 2 m) (Suc (Suc k)) = nat (bval m - 2)"
    using minus_two_val [OF assms(3)] k(2) assms(1) by (simp add: exponent_def modulus_ok_def mod_pos_pos_trivial)
  then show ?thesis using inv_exponent [OF assms(1,2) k(1)] by simp
qed

lemma fprime_eq_val: "length x = length y \<Longrightarrow> fprime_eq x y = (if x = y then 1 else 0)"
proof -
  assume l: "length x = length y"
  define s where "s = foldl (\<lambda>s d. s OR d) 0 (map2 (XOR) x y)"
  have "s = 0 \<longleftrightarrow> (\<forall>i < length x. x ! i = y ! i)" using l by (auto simp: s_def foldl_or_zero xor_zero set_zip)
  then have "s = 0 \<longleftrightarrow> x = y" using l by (auto simp: list_eq_iff_nth_eq)
  then show ?thesis using or_cascade [OF refl refl refl, of s] by (simp add: fprime_eq_def Let_def s_def)
qed

text \<open>C37. For every modulus \<open>m\<close> of the range \<open>fprime.h\<close> gives (2m - 1 fits in 32 bytes) and normalised
  operands, addition, subtraction and multiplication return the normalised result modulo \<open>m\<close>,
  \<open>fprime_from_bytes\<close> reduces a byte string (of any length whose number of bits does not wrap), \<open>fprime_eq\<close> compares, and when the low byte of
  the modulus is at least 2 \<open>fprime_inv\<close> raises to the power \<open>m - 2\<close>. No routine overruns: each
  returns a value. (Hypotheses: the documented range.)\<close>

theorem fprime_arith:
  assumes "modulus_ok m" and "normal m a" and "normal m b"
  shows "normal m (fprime_add a b m) \<and> bval (fprime_add a b m) = (bval a + bval b) mod bval m \<and>
    normal m (fprime_sub a b m) \<and> bval (fprime_sub a b m) = (bval a - bval b) mod bval m \<and>
    computes m (fprime_mul a b m) (bval a * bval b) \<and>
    computes m (fprime_from_bytes x m) (bval x) \<and>
    (2 \<le> uint (m ! 0) \<longrightarrow> computes m (fprime_inv a m) (bval a ^ nat (bval m - 2))) \<and>
    fprime_eq a b = (if a = b then 1 else 0)"
  using add_step [OF assms] sub_step [OF assms] mul_val [OF assms] from_bytes_val [OF assms(1), of x]
    inv_val [OF assms(1,2)] fprime_eq_val [of a b] assms(2,3)
  by (simp add: normal_def)

theorem fprime_arith_witness:
  "bval (fprime_add (16 # replicate 31 0) (15 # replicate 31 0) (17 # replicate 31 0)) = 14 \<and>
   computes (17 # replicate 31 0) (fprime_inv (3 # replicate 31 0) (17 # replicate 31 0)) (3 ^ 15)"
proof -
  have "modulus_ok (17 # replicate 31 0)" by (simp add: modulus_ok_def)
  then show ?thesis
    using fprime_arith [of "17 # replicate 31 0" "16 # replicate 31 0" "15 # replicate 31 0"]
      fprime_arith [of "17 # replicate 31 0" "3 # replicate 31 0" "3 # replicate 31 0"]
    by (simp add: normal_def)
qed

text \<open>Without that condition the borrow of \<open>p - 2\<close> is passed on as 255 instead of 1: modulo the prime
  769 the routine raises to the power 255 instead of 767, and 2 times "the inverse" of 2 is not 1.\<close>

lemma fprime_inv_769:
  defines "m \<equiv> 1 # 3 # replicate 30 0" and "a \<equiv> 2 # replicate 31 0"
  shows "computes m (fprime_inv a m) (2 ^ 255) \<and> (2 ^ 255 * 2) mod bval m \<noteq> 1 \<and> (2 ^ 767 * 2) mod bval m = (1 :: int)"
proof -
  have m: "modulus_ok m" "normal m a" "bval m = 769" "bval a = 2"
    by (simp_all add: m_def a_def modulus_ok_def normal_def)
  then obtain k where k: "prime_msb m = Some (Suc k)" "2 ^ Suc k \<le> bval m" "bval m < 2 ^ Suc (Suc k)"
    by (elim modulus_msb) auto
  have "\<not> k < 8" using k(3) m(3) power_increasing [of "Suc (Suc k)" 9 "2 :: int"] by auto
  moreover have "\<not> 9 \<le> k" using k(2) m(3) power_increasing [of 10 "Suc k" "2 :: int"] by auto
  ultimately have "k = 8" by simp
  moreover have "exponent (minus_two 2 m) 10 = 255"
  proof -
    define zs :: bytes where "zs = replicate 30 0"
    have "ucast (- 1 :: u16) = (255 :: u8)" by code_simp
    then have "minus_two 2 (1 # 3 # zs) = 255 # 4 # minus_two 255 zs" by (simp add: Let_def drop_bit_eq_div)
    then have "bval (minus_two 2 m) = 255 + 1024 * (1 + 64 * bval (minus_two 255 zs))" by (simp add: m_def zs_def)
    then have "bval (minus_two 2 m) mod 1024 = 255 mod 1024" by (simp only: mod_mult_self2)
    then show ?thesis by (simp add: exponent_def)
  qed
  ultimately show ?thesis using inv_exponent [OF m(1,2) k(1)] m(3,4) by simp
qed

end
