(* ===== verification/Ed25519.thy ===== *)
theory Ed25519
  imports Fprime
begin

text \<open>
  The twisted Edwards curve of Ed25519, \<open>x25519bench/ed25519/ed25519.c\<close> and \<open>morph25519.c\<close>, over the field of
  \<open>fe32/f25519.c\<close> (the one the transputer build links). Points are in extended coordinates
  \<open>(X, Y, T, Z)\<close> that stand for the affine point \<open>(X/Z, Y/Z)\<close> with \<open>T = XY/Z\<close>. Shown: addition and
  doubling follow the Edwards addition law, \<open>ed25519_smult\<close> visits the multiples the bits of the exponent
  prescribe, and compression is undone by \<open>ed25519_try_unpack\<close>.
\<close>

section \<open>The code\<close>

record ed25519_pt =
  pt_x :: bytes
  pt_y :: bytes
  pt_t :: bytes
  pt_z :: bytes

definition ed25519_base_x :: bytes where
  "ed25519_base_x =
    [0x1a, 0xd5, 0x25, 0x8f, 0x60, 0x2d, 0x56, 0xc9] @
    [0xb2, 0xa7, 0x25, 0x95, 0x60, 0xc7, 0x2c, 0x69] @
    [0x5c, 0xdc, 0xd6, 0xfd, 0x31, 0xe2, 0xa4, 0xc0] @
    [0xfe, 0x53, 0x6e, 0xcd, 0xd3, 0x36, 0x69, 0x21]"

definition ed25519_base_y :: bytes where
  "ed25519_base_y =
    [0x58, 0x66, 0x66, 0x66, 0x66, 0x66, 0x66, 0x66] @
    [0x66, 0x66, 0x66, 0x66, 0x66, 0x66, 0x66, 0x66] @
    [0x66, 0x66, 0x66, 0x66, 0x66, 0x66, 0x66, 0x66] @
    [0x66, 0x66, 0x66, 0x66, 0x66, 0x66, 0x66, 0x66]"

definition ed25519_base_t :: bytes where
  "ed25519_base_t =
    [0xa3, 0xdd, 0xb7, 0xa5, 0xb3, 0x8a, 0xde, 0x6d] @
    [0xf5, 0x52, 0x51, 0x77, 0x80, 0x9f, 0xf0, 0x20] @
    [0x7d, 0xe3, 0xab, 0x64, 0x8e, 0x4e, 0xea, 0x66] @
    [0x65, 0x76, 0x8b, 0xd7, 0x0f, 0x5f, 0x87, 0x67]"

definition ed25519_base :: ed25519_pt where
  "ed25519_base = \<lparr>pt_x = ed25519_base_x, pt_y = ed25519_base_y, pt_t = ed25519_base_t, pt_z = 1 # replicate 31 0\<rparr>"

definition ed25519_neutral :: ed25519_pt where
  "ed25519_neutral =
     \<lparr>pt_x = replicate 32 0, pt_y = 1 # replicate 31 0, pt_t = replicate 32 0, pt_z = 1 # replicate 31 0\<rparr>"

definition ed25519_prepare :: "bytes \<Rightarrow> bytes" where
  "ed25519_prepare e =
     (let e = e[0 := e ! 0 AND 0xf8]; e = e[31 := e ! 31 AND 0x7f] in e[31 := e ! 31 OR 0x40])"

definition ed25519_project :: "bytes \<Rightarrow> bytes \<Rightarrow> ed25519_pt" where
  "ed25519_project x y = \<lparr>pt_x = x, pt_y = y, pt_t = f25519_mul_distinct x y, pt_z = f25519_load 1\<rparr>"

definition ed25519_unproject :: "ed25519_pt \<Rightarrow> bytes \<times> bytes" where
  "ed25519_unproject p =
     (let z1 = f25519_inv_distinct (pt_z p)
      in (f25519_normalize (f25519_mul_distinct (pt_x p) z1), f25519_normalize (f25519_mul_distinct (pt_y p) z1)))"

definition ed25519_d :: bytes where
  "ed25519_d =
    [0xa3, 0x78, 0x59, 0x13, 0xca, 0x4d, 0xeb, 0x75] @
    [0xab, 0xd8, 0x41, 0x41, 0x4d, 0x0a, 0x70, 0x00] @
    [0x98, 0xe8, 0x79, 0x77, 0x79, 0x40, 0xc7, 0x8c] @
    [0x73, 0xfe, 0x6f, 0x2b, 0xee, 0x6c, 0x03, 0x52]"

definition ed25519_pack :: "bytes \<Rightarrow> bytes \<Rightarrow> bytes" where
  "ed25519_pack x y =
     (let parity = push_bit 7 (f25519_normalize x ! 0 AND 1); c = f25519_normalize y
      in c[31 := c ! 31 OR parity])"

text \<open>The root and its check, shared text of \<open>ed25519_try_unpack\<close> and \<open>ey2ex\<close>.\<close>

definition recover_x :: "bytes \<Rightarrow> u8 \<Rightarrow> bytes \<times> u8" where
  "recover_x y parity =
     (let c = f25519_mul_distinct y y;
          b = f25519_mul_distinct c ed25519_d;
          a = f25519_add b f25519_one;
          b = f25519_inv_distinct a;
          a = f25519_sub c f25519_one;
          c = f25519_mul_distinct a b;
          a = f25519_sqrt c;
          b = f25519_neg a;
          x = f25519_select a b ((a ! 0 XOR parity) AND 1);
          a = f25519_mul_distinct x x
      in (x, f25519_eq (f25519_normalize a) (f25519_normalize c)))"

definition ed25519_try_unpack :: "bytes \<Rightarrow> bytes \<times> bytes \<times> u8" where
  "ed25519_try_unpack packed =
     (let parity = drop_bit 7 (packed ! 31); y = packed[31 := packed ! 31 AND 127]
      in case recover_x y parity of (x, ok) \<Rightarrow> (x, y, ok))"

definition ed25519_k :: bytes where
  "ed25519_k =
    [0x59, 0xf1, 0xb2, 0x26, 0x94, 0x9b, 0xd6, 0xeb] @
    [0x56, 0xb1, 0x83, 0x82, 0x9a, 0x14, 0xe0, 0x00] @
    [0x30, 0xd1, 0xf3, 0xee, 0xf2, 0x80, 0x8e, 0x19] @
    [0xe7, 0xfc, 0xdf, 0x56, 0xdc, 0xd9, 0x06, 0x24]"

definition ed25519_add :: "ed25519_pt \<Rightarrow> ed25519_pt \<Rightarrow> ed25519_pt" where
  "ed25519_add p1 p2 =
     (let a = f25519_mul_distinct (f25519_sub (pt_y p1) (pt_x p1)) (f25519_sub (pt_y p2) (pt_x p2));
          b = f25519_mul_distinct (f25519_add (pt_y p1) (pt_x p1)) (f25519_add (pt_y p2) (pt_x p2));
          d = f25519_mul_distinct (pt_t p1) (pt_t p2);
          c = f25519_mul_distinct d ed25519_k;
          d = f25519_mul_distinct (pt_z p1) (pt_z p2);
          d = f25519_add d d;
          e = f25519_sub b a; f = f25519_sub d c; g = f25519_add d c; h = f25519_add b a
      in \<lparr>pt_x = f25519_mul_distinct e f, pt_y = f25519_mul_distinct g h,
          pt_t = f25519_mul_distinct e h, pt_z = f25519_mul_distinct f g\<rparr>)"

definition ed25519_double :: "ed25519_pt \<Rightarrow> ed25519_pt" where
  "ed25519_double p =
     (let a = f25519_mul_distinct (pt_x p) (pt_x p);
          b = f25519_mul_distinct (pt_y p) (pt_y p);
          c = f25519_mul_distinct (pt_z p) (pt_z p);
          c = f25519_add c c;
          f = f25519_add (pt_x p) (pt_y p);
          e = f25519_mul_distinct f f;
          e = f25519_sub e a;
          e = f25519_sub e b;
          g = f25519_sub b a;
          f = f25519_sub g c;
          h = f25519_neg b;
          h = f25519_sub h a
      in \<lparr>pt_x = f25519_mul_distinct e f, pt_y = f25519_mul_distinct g h,
          pt_t = f25519_mul_distinct e h, pt_z = f25519_mul_distinct f g\<rparr>)"

definition ed_select :: "ed25519_pt \<Rightarrow> ed25519_pt \<Rightarrow> u8 \<Rightarrow> ed25519_pt" where
  "ed_select r s b = \<lparr>pt_x = f25519_select (pt_x r) (pt_x s) b, pt_y = f25519_select (pt_y r) (pt_y s) b,
     pt_t = f25519_select (pt_t r) (pt_t s) b, pt_z = f25519_select (pt_z r) (pt_z s) b\<rparr>"

primrec ed_smult_loop :: "ed25519_pt \<Rightarrow> bytes \<Rightarrow> nat \<Rightarrow> ed25519_pt \<Rightarrow> ed25519_pt" where
  "ed_smult_loop p e 0 r = r"
| "ed_smult_loop p e (Suc i) r =
     (let r = ed25519_double r; s = ed25519_add r p in ed_smult_loop p e i (ed_select r s (exp_bit e i)))"

definition ed25519_smult :: "ed25519_pt \<Rightarrow> bytes \<Rightarrow> ed25519_pt" where
  "ed25519_smult p e = ed_smult_loop p e 256 ed25519_neutral"

subsection \<open>\<open>morph25519.c\<close>\<close>

definition morph25519_e2m :: "bytes \<Rightarrow> bytes" where
  "morph25519_e2m y =
     (let yplus = f25519_sub f25519_one y;
          yminus = f25519_inv_distinct yplus;
          yplus = f25519_add f25519_one y
      in f25519_normalize (f25519_mul_distinct yplus yminus))"

definition mx2ey :: "bytes \<Rightarrow> bytes" where
  "mx2ey mx =
     (let d = f25519_inv_distinct (f25519_add mx f25519_one); n = f25519_sub mx f25519_one
      in f25519_mul_distinct n d)"

definition ey2ex :: "bytes \<Rightarrow> u8 \<Rightarrow> bytes \<times> u8" where
  "ey2ex y parity = recover_x y parity"

definition morph25519_m2e :: "bytes \<Rightarrow> u8 \<Rightarrow> bytes \<times> bytes \<times> u8" where
  "morph25519_m2e mx parity =
     (let ey = mx2ey mx
      in case ey2ex ey parity of (ex, ok) \<Rightarrow> (f25519_normalize ex, f25519_normalize ey, ok))"

section \<open>Field elements\<close>

text \<open>\<open>fe a u\<close>: the byte string \<open>a\<close> stands for \<open>u\<close>.\<close>

definition fe :: "bytes \<Rightarrow> int \<Rightarrow> bool" where
  "fe a u \<longleftrightarrow> length a = 32 \<and> eqp (bval a) u"

lemma fe_ops:
  assumes "fe a u" and "fe b v"
  shows fe_add: "fe (f25519_add a b) (u + v)" and fe_sub: "fe (f25519_sub a b) (u - v)"
    and fe_mul: "fe (f25519_mul_distinct a b) (u * v)"
  using assms f25519_add_val [of a b] f25519_sub_val [of a b] f25519_mul_distinct_val [of a b]
    eqp_add [of "bval a" u "bval b" v] eqp_diff [of "bval a" u "bval b" v] eqp_mult [of "bval a" u "bval b" v]
  by (auto simp: fe_def eqp_def)

lemma fe_neg: "fe a u \<Longrightarrow> fe (f25519_neg a) (- u)"
  using fe_sub [of f25519_zero 0 a u] by (simp add: f25519_neg_def fe_def eqp_refl)

lemma fe_inv: "fe a u \<Longrightarrow> fe (f25519_inv_distinct a) (u ^ nat (P25519 - 2))"
proof -
  assume a: "fe a u"
  have n: "nat (P25519 - 2) = 2 ^ 255 - 21" by (simp add: P25519_def)
  have "eqp (bval (f25519_inv_distinct a)) (bval a ^ nat (P25519 - 2))"
    using fe_pow_inv [of a] a by (simp only: fe_pow_def eqp_def fe_def n)
  then show ?thesis
    using fe_pow_inv [of a] a eqp_trans [OF _ eqp_power [of "bval a" u]] by (simp add: fe_def fe_pow_def)
qed

lemma fe_normalize: "fe a u \<Longrightarrow> fe (f25519_normalize a) u \<and> bval (f25519_normalize a) = u mod P25519"
  using f25519_normalize_val [of a] by (auto simp: fe_def eqp_def)

lemma fe_one: "fe f25519_one 1" "fe (f25519_load 1) 1" "fe (1 # replicate 31 0) 1" "fe (replicate 32 0) 0" "fe f25519_zero 0"
  using f25519_load_val [of 1] by (simp_all add: fe_def eqp_refl)

lemma fe_cong: "fe a u \<Longrightarrow> eqp u v \<Longrightarrow> fe a v"
  by (auto simp: fe_def intro: eqp_trans)

lemmas fe_intros = fe_ops fe_neg fe_inv fe_one

section \<open>The curve\<close>

definition edD :: int where
  "edD = bval ed25519_d"

type_synonym apt = "int \<times> int"

text \<open>\<open>- x\<^sup>2 + y\<^sup>2 = 1 + d x\<^sup>2 y\<^sup>2\<close>, and the sum of two points: the denominators are units and
  \<open>x\<^sub>3 = (x\<^sub>1 y\<^sub>2 + x\<^sub>2 y\<^sub>1) / (1 + w)\<close>, \<open>y\<^sub>3 = (y\<^sub>1 y\<^sub>2 + x\<^sub>1 x\<^sub>2) / (1 - w)\<close> with \<open>w = d x\<^sub>1 x\<^sub>2 y\<^sub>1 y\<^sub>2\<close>.\<close>

definition on_curve :: "apt \<Rightarrow> bool" where
  "on_curve p = (case p of (x, y) \<Rightarrow> eqp (y ^ 2 - x ^ 2) (1 + edD * x ^ 2 * y ^ 2))"

definition edw_sum :: "apt \<Rightarrow> apt \<Rightarrow> apt \<Rightarrow> bool" where
  "edw_sum p q r = (case p of (x1, y1) \<Rightarrow> case q of (x2, y2) \<Rightarrow> case r of (x3, y3) \<Rightarrow>
     let w = edD * x1 * x2 * y1 * y2 in
     punit (1 + w) \<and> punit (1 - w) \<and> eqp (x3 * (1 + w)) (x1 * y2 + x2 * y1) \<and> eqp (y3 * (1 - w)) (y1 * y2 + x1 * x2))"

text \<open>The extended coordinates \<open>P\<close> name the affine point \<open>(x, y)\<close>.\<close>

definition names :: "ed25519_pt \<Rightarrow> apt \<Rightarrow> bool" where
  "names P p = (case p of (x, y) \<Rightarrow>
     \<exists>z. punit z \<and> fe (pt_z P) z \<and> fe (pt_x P) (x * z) \<and> fe (pt_y P) (y * z) \<and> fe (pt_t P) (x * y * z))"

lemma namesI:
  "fe (pt_z P) z \<Longrightarrow> punit z \<Longrightarrow> fe (pt_x P) u \<Longrightarrow> eqp u (x * z) \<Longrightarrow> fe (pt_y P) v \<Longrightarrow> eqp v (y * z) \<Longrightarrow>
   fe (pt_t P) w \<Longrightarrow> eqp w (x * y * z) \<Longrightarrow> names P (x, y)"
  unfolding names_def prod.case by (blast intro: fe_cong)

lemma eqp_sym: "eqp a b \<Longrightarrow> eqp b a"
  by (simp add: eqp_def)

lemma punit_minus: "punit k \<Longrightarrow> punit (- k)"
  unfolding punit_def by (metis minus_mult_minus)

lemma punit_eqp: "punit k \<Longrightarrow> eqp k l \<Longrightarrow> punit l"
proof -
  assume "punit k" and e: "eqp k l"
  then obtain m where m: "eqp (k * m) 1" by (auto simp: punit_def)
  have "eqp (l * m) (k * m)" using e by (intro eqp_mult eqp_refl) (simp add: eqp_def)
  then show "punit l" using m eqp_trans by (auto simp: punit_def)
qed

lemma punit_2: "punit 2"
  by (rule punit_by [of _ "2 ^ 254 - 9"]) (simp add: eqp_def P25519_def)

lemma fe_d: "fe ed25519_d edD"
  by (simp add: fe_def edD_def eqp_refl ed25519_d_def)

lemma fe_k: "fe ed25519_k (2 * edD)"
  by (simp add: fe_def edD_def eqp_def ed25519_d_def ed25519_k_def P25519_def)

text \<open>\<open>d = - 121665 / 121666\<close>.\<close>

lemma edD_value: "eqp (edD * 121666) (- 121665)"
  by (simp add: edD_def eqp_def ed25519_d_def P25519_def)

lemma names_neutral: "names ed25519_neutral (0, 1)"
  using fe_one punit_1 unfolding names_def ed25519_neutral_def prod.case by (intro exI [of _ 1]) simp

lemma names_project: "fe x u \<Longrightarrow> fe y v \<Longrightarrow> names (ed25519_project x y) (u, v)"
  using fe_one punit_1 unfolding names_def ed25519_project_def prod.case by (intro exI [of _ 1]) (simp add: fe_mul)

text \<open>The coordinates of the base point.\<close>

lemma base_values:
  "bval ed25519_base_x = 15112221349535400772501151409588531511454012693041857206046113283949847762202"
  "bval ed25519_base_y = 46316835694926478169428394003475163141307993866256225615783033603165251855960"
  "bval ed25519_base_t = 46827403850823179245072216630277197565144205554125654976674165829533817101731"
  "edD = 37095705934669439343138083508754565189542113879843219016388785533085940283555"
  unfolding edD_def ed25519_base_x_def ed25519_base_y_def ed25519_base_t_def ed25519_d_def by simp_all

lemma base_point: "names ed25519_base (bval ed25519_base_x, bval ed25519_base_y) \<and>
    on_curve (bval ed25519_base_x, bval ed25519_base_y)"
proof
  have "eqp (bval ed25519_base_t) (bval ed25519_base_x * bval ed25519_base_y)"
    unfolding base_values eqp_def P25519_def by simp
  then show "names ed25519_base (bval ed25519_base_x, bval ed25519_base_y)"
    using fe_one punit_1 unfolding names_def ed25519_base_def prod.case
    by (intro exI [of _ 1]) (simp add: fe_def eqp_refl, simp add: ed25519_base_x_def ed25519_base_y_def ed25519_base_t_def)
  have x: "eqp (bval ed25519_base_x ^ 2) 26187595835145689230469591415084376402084551887632582719101735842039498021991"
    unfolding base_values eqp_def P25519_def power2_eq_square by simp
  have y: "eqp (bval ed25519_base_y ^ 2) 37053468555941182535542715202780130513046395093004980492626426882532201484768"
    unfolding base_values eqp_def P25519_def power2_eq_square by simp
  have "eqp (1 + edD * 26187595835145689230469591415084376402084551887632582719101735842039498021991 * 37053468555941182535542715202780130513046395093004980492626426882532201484768) (37053468555941182535542715202780130513046395093004980492626426882532201484768 - 26187595835145689230469591415084376402084551887632582719101735842039498021991)"
    unfolding base_values eqp_def P25519_def by simp
  then have "eqp (1 + edD * bval ed25519_base_x ^ 2 * bval ed25519_base_y ^ 2) (37053468555941182535542715202780130513046395093004980492626426882532201484768 - 26187595835145689230469591415084376402084551887632582719101735842039498021991)"
    by (rule eqp_trans [rotated]) (intro eqp_cong x y)
  then show "on_curve (bval ed25519_base_x, bval ed25519_base_y)"
    unfolding on_curve_def prod.case
    by (rule eqp_trans [OF eqp_diff [OF y x] eqp_sym])
qed

lemma names_add:
  assumes "names P p" and "names Q q" and "edw_sum p q r"
  shows "names (ed25519_add P Q) r"
proof -
  obtain x1 y1 x2 y2 x3 y3 where pts: "p = (x1, y1)" "q = (x2, y2)" "r = (x3, y3)" by (metis surj_pair)
  obtain z1 where P: "punit z1" "fe (pt_z P) z1" "fe (pt_x P) (x1 * z1)" "fe (pt_y P) (y1 * z1)" "fe (pt_t P) (x1 * y1 * z1)"
    using assms(1) by (auto simp: names_def pts)
  obtain z2 where Q: "punit z2" "fe (pt_z Q) z2" "fe (pt_x Q) (x2 * z2)" "fe (pt_y Q) (y2 * z2)" "fe (pt_t Q) (x2 * y2 * z2)"
    using assms(2) by (auto simp: names_def pts)
  define w where "w = edD * x1 * x2 * y1 * y2"
  have s: "punit (1 + w)" "punit (1 - w)" "eqp (x3 * (1 + w)) (x1 * y2 + x2 * y1)" "eqp (y3 * (1 - w)) (y1 * y2 + x1 * x2)"
    using assms(3) by (simp_all add: edw_sum_def pts w_def Let_def)
  define m where "m = 2 * z1 * z2"
  have um: "punit m" unfolding m_def by (intro punit_mult punit_2 P(1) Q(1))
  let ?e = "(y1 * z1 + x1 * z1) * (y2 * z2 + x2 * z2) - (y1 * z1 - x1 * z1) * (y2 * z2 - x2 * z2)"
  let ?h = "(y1 * z1 + x1 * z1) * (y2 * z2 + x2 * z2) + (y1 * z1 - x1 * z1) * (y2 * z2 - x2 * z2)"
  let ?f = "z1 * z2 + z1 * z2 - x1 * y1 * z1 * (x2 * y2 * z2) * (2 * edD)"
  let ?g = "z1 * z2 + z1 * z2 + x1 * y1 * z1 * (x2 * y2 * z2) * (2 * edD)"
  have v: "?e = m * (x1 * y2 + x2 * y1)" "?h = m * (y1 * y2 + x1 * x2)" "?f = m * (1 - w)" "?g = m * (1 + w)"
    by (simp_all add: m_def w_def algebra_simps)
  have x: "eqp (m * (x1 * y2 + x2 * y1)) (m * (x3 * (1 + w)))" and y: "eqp (m * (y1 * y2 + x1 * x2)) (m * (y3 * (1 - w)))"
    using s(3,4) by (intro eqp_mult eqp_refl; simp add: eqp_def)+
  show ?thesis
    unfolding pts
  proof (rule namesI)
    show "fe (pt_z (ed25519_add P Q)) (?f * ?g)" "fe (pt_x (ed25519_add P Q)) (?e * ?f)"
      "fe (pt_y (ed25519_add P Q)) (?g * ?h)" "fe (pt_t (ed25519_add P Q)) (?e * ?h)"
      by (simp_all only: ed25519_add_def Let_def ed25519_pt.select_convs) (intro fe_ops fe_k P Q)+
    show "punit (?f * ?g)" unfolding v by (intro punit_mult um s)
    show "eqp (?e * ?f) (x3 * (?f * ?g))"
      using eqp_mult [OF x eqp_refl [of "m * (1 - w)"]] unfolding v by (simp add: ac_simps)
    show "eqp (?g * ?h) (y3 * (?f * ?g))"
      using eqp_mult [OF y eqp_refl [of "m * (1 + w)"]] unfolding v by (simp add: ac_simps)
    show "eqp (?e * ?h) (x3 * y3 * (?f * ?g))"
      using eqp_mult [OF x y] unfolding v by (simp add: ac_simps)
  qed
qed

lemma names_double:
  assumes "names P p" and "on_curve p" and "edw_sum p p r"
  shows "names (ed25519_double P) r"
proof -
  obtain x y x3 y3 where pts: "p = (x, y)" "r = (x3, y3)" by (metis surj_pair)
  obtain z where P: "punit z" "fe (pt_z P) z" "fe (pt_x P) (x * z)" "fe (pt_y P) (y * z)"
    using assms(1) by (auto simp: names_def pts)
  define w where "w = edD * x ^ 2 * y ^ 2"
  have w2: "edD * x * x * y * y = w" by (simp add: w_def power2_eq_square)
  have s: "punit (1 + w)" "punit (1 - w)" "eqp (x3 * (1 + w)) (x * y + x * y)" "eqp (y3 * (1 - w)) (y * y + x * x)"
    using assms(3) by (simp_all add: edw_sum_def pts w2 Let_def)
  have c: "eqp (y ^ 2 - x ^ 2) (1 + w)" using assms(2) by (simp add: on_curve_def pts w_def)
  define m where "m = z * z"
  have um: "punit m" unfolding m_def by (intro punit_mult P(1))
  let ?e = "(x * z + y * z) * (x * z + y * z) - x * z * (x * z) - y * z * (y * z)"
  let ?g = "y * z * (y * z) - x * z * (x * z)"
  let ?f = "?g - (z * z + z * z)"
  let ?h = "- (y * z * (y * z)) - x * z * (x * z)"
  have v: "?e = m * (x * y + x * y)" "?h = - (m * (y * y + x * x))" "?f = m * (y ^ 2 - x ^ 2 - 2)" "?g = m * (y ^ 2 - x ^ 2)"
    by (simp_all add: m_def power2_eq_square algebra_simps)
  have g: "eqp ?g (m * (1 + w))" unfolding v by (intro eqp_mult eqp_refl c)
  have "eqp (m * (y ^ 2 - x ^ 2 - 2)) (m * (1 + w - 2))" by (intro eqp_mult eqp_diff eqp_refl c)
  then have f: "eqp ?f (- (m * (1 - w)))" unfolding v(3) by (simp add: right_diff_distrib distrib_left)
  have e: "eqp ?e (x3 * (m * (1 + w)))"
    using eqp_sym [OF eqp_mult [OF eqp_refl [of m] s(3)]] unfolding v by (simp add: ac_simps)
  have h: "eqp ?h (y3 * - (m * (1 - w)))"
    using eqp_sym [OF eqp_mult [OF eqp_refl [of "- m"] s(4)]] unfolding v by (simp add: ac_simps)
  have fg: "eqp (?f * ?g) (- (m * (1 - w)) * (m * (1 + w)))" by (rule eqp_mult [OF f g])
  show ?thesis
    unfolding pts
  proof (rule namesI)
    show "fe (pt_z (ed25519_double P)) (?f * ?g)" "fe (pt_x (ed25519_double P)) (?e * ?f)"
      "fe (pt_y (ed25519_double P)) (?g * ?h)" "fe (pt_t (ed25519_double P)) (?e * ?h)"
      by (simp_all only: ed25519_double_def Let_def ed25519_pt.select_convs) (intro fe_ops fe_neg P)+
    show "punit (?f * ?g)"
      by (rule punit_eqp [OF _ eqp_sym [OF fg]]) (intro punit_mult punit_minus um s)
    note sym = eqp_sym [OF eqp_mult [OF eqp_refl fg]]
    show "eqp (?e * ?f) (x3 * (?f * ?g))"
      by (rule eqp_trans [OF eqp_mult [OF e f] _]) (use sym [of x3] in \<open>simp only: ac_simps\<close>)
    show "eqp (?g * ?h) (y3 * (?f * ?g))"
      by (rule eqp_trans [OF eqp_mult [OF g h] _]) (use sym [of y3] in \<open>simp only: ac_simps\<close>)
    show "eqp (?e * ?h) (x3 * y3 * (?f * ?g))"
      by (rule eqp_trans [OF eqp_mult [OF e h] _]) (use sym [of "x3 * y3"] in \<open>simp only: ac_simps\<close>)
  qed
qed

section \<open>Multiples\<close>

text \<open>\<open>M n\<close> is the \<open>n\<close>-th multiple of the point \<open>M 1\<close> as far as the addition law tells.\<close>

definition edw_multiples :: "(nat \<Rightarrow> apt) \<Rightarrow> bool" where
  "edw_multiples M \<longleftrightarrow> M 0 = (0, 1) \<and>
     (\<forall>n. on_curve (M n) \<and> edw_sum (M n) (M n) (M (2 * n)) \<and> edw_sum (M (2 * n)) (M 1) (M (Suc (2 * n))))"

definition pt_valid :: "ed25519_pt \<Rightarrow> bool" where
  "pt_valid P \<longleftrightarrow> length (pt_x P) = 32 \<and> length (pt_y P) = 32 \<and> length (pt_t P) = 32 \<and> length (pt_z P) = 32"

lemma names_valid: "names P p \<Longrightarrow> pt_valid P"
  by (auto simp: names_def pt_valid_def fe_def split: prod.splits)

lemma ed_select_val: "pt_valid P \<Longrightarrow> pt_valid Q \<Longrightarrow> c = 0 \<or> c = 1 \<Longrightarrow> ed_select P Q c = (if c = 0 then P else Q)"
  by (auto simp: ed_select_def pt_valid_def f25519_select_val)

lemma smult_loop_names:
  assumes M: "edw_multiples M" and p: "names p (M 1)" and e: "length e = 32"
  shows "i \<le> 256 \<Longrightarrow> names r (M (nat (bval e div 2 ^ i))) \<Longrightarrow> names (ed_smult_loop p e i r) (M (nat (bval e)))"
proof (induction i arbitrary: r)
  case (Suc i)
  let ?n = "nat (bval e div 2 ^ Suc i)"
  let ?d = "ed25519_double r" and ?s = "ed25519_add (ed25519_double r) p"
  have d: "names ?d (M (2 * ?n))"
    using M by (intro names_double [OF Suc.prems(2)]) (auto simp: edw_multiples_def)
  have s: "names ?s (M (Suc (2 * ?n)))"
    using M by (intro names_add [OF d p]) (auto simp: edw_multiples_def)
  have b: "exp_bit e i = (if bit (bval e) i then 1 else 0)" using exp_bit_val [of i e] Suc.prems(1) e by simp
  have n: "nat (bval e div 2 ^ i) = (if bit (bval e) i then Suc (2 * ?n) else 2 * ?n)"
  proof -
    note div_bit [of e i]
    moreover have "0 \<le> bval e div 2 ^ Suc i" using bval_nonneg by (simp add: pos_imp_zdiv_nonneg_iff)
    ultimately show ?thesis by (simp add: nat_add_distrib nat_mult_distrib)
  qed
  have "names (ed_select ?d ?s (exp_bit e i)) (M (nat (bval e div 2 ^ i)))"
    using d s names_valid [OF d] names_valid [OF s] by (simp add: b n ed_select_val)
  then show ?case using Suc by (simp add: Let_def)
qed simp

lemma smult_names:
  assumes "edw_multiples M" and "names p (M 1)" and "length e = 32"
  shows "names (ed25519_smult p e) (M (nat (bval e)))"
proof -
  have "bval e div 2 ^ 256 = 0" using bval_bound [OF assms(3)] bval_nonneg [of e] by simp
  moreover have "M 0 = (0, 1)" using assms(1) by (simp add: edw_multiples_def)
  ultimately show ?thesis
    unfolding ed25519_smult_def by (intro smult_loop_names assms) (simp_all add: names_neutral)
qed

section \<open>Affine coordinates\<close>

lemma unproject_val:
  assumes "names P (x, y)"
  shows "\<exists>z. punit z \<and> length (fst (ed25519_unproject P)) = 32 \<and> length (snd (ed25519_unproject P)) = 32 \<and>
    bval (fst (ed25519_unproject P)) = x * z ^ nat (P25519 - 1) mod P25519 \<and>
    bval (snd (ed25519_unproject P)) = y * z ^ nat (P25519 - 1) mod P25519"
proof -
  from assms obtain z where z: "punit z" "fe (pt_z P) z" "fe (pt_x P) (x * z)" "fe (pt_y P) (y * z)"
    by (auto simp: names_def)
  have "nat (P25519 - 1) = Suc (nat (P25519 - 2))" by (simp add: P25519_def)
  then have p: "a * z * z ^ nat (P25519 - 2) = a * z ^ nat (P25519 - 1)" for a by simp
  note x = fe_normalize [OF fe_mul [OF z(3) fe_inv [OF z(2)]], unfolded p]
    and y = fe_normalize [OF fe_mul [OF z(4) fe_inv [OF z(2)]], unfolded p]
  show ?thesis using z(1) x y by (auto simp: ed25519_unproject_def Let_def fe_def)
qed

lemma power_fermat: "eqp (z ^ nat (P25519 - 1)) 1 \<Longrightarrow> x * z ^ nat (P25519 - 1) mod P25519 = x mod P25519"
  using eqp_mult [OF eqp_refl [of x], of "z ^ nat (P25519 - 1)" 1] by (simp add: eqp_def)

section \<open>Compression\<close>

lemma parity_bit: "push_bit 7 (b AND 1 :: u8) = (if bit b 0 then 128 else 0)"
  by (rule bit_word_eqI) (auto simp: bit_simps bit_1_iff, auto simp: numeral_eq_Suc bit_Suc less_Suc_eq)

lemma low_bit: "0 < length a \<Longrightarrow> bit (a ! 0) 0 \<longleftrightarrow> odd (bval a)"
  using bit_bval [of 0 a] by (simp add: bit_0)

lemma set_top:
  assumes "length a = 32" and "bval a < 2 ^ 255"
  shows "bval (a[31 := a ! 31 OR (if P then 128 else 0)]) = bval a + (if P then 2 ^ 255 else 0)"
proof -
  have a: "a = take 31 a @ [a ! 31]" using take_Suc_conv_app_nth [of 31 a] assms(1) by simp
  then have v: "bval a = bval (take 31 a) + 256 ^ 31 * uint (a ! 31)"
    using bval_append [of "take 31 a" "[a ! 31]"] assms(1) by simp
  have "256 ^ 31 * uint (a ! 31) < 256 ^ 31 * 128" using v assms(2) bval_nonneg [of "take 31 a"] by simp
  then have s: "uint (a ! 31) < 128" by simp
  then have "take_bit 7 (a ! 31) = a ! 31"
    by (simp add: word_eq_iff_unsigned [where 'a = int] unsigned_take_bit_eq take_bit_int_eq_self)
  then have nb: "\<not> bit (a ! 31) 7" by (metis bit_take_bit_iff less_irrefl)
  have "a ! 31 OR 128 = a ! 31 + 128"
  proof (rule disjunctive_add [symmetric])
    fix n show "\<not> bit (a ! 31) n \<or> \<not> bit (128 :: u8) n"
      using nb by (cases "n = 7") (auto simp: bit_exp_iff [of 7, simplified])
  qed
  moreover have "uint (a ! 31 + 128) = uint (a ! 31) + 128" using s by (simp add: uint_word_ariths)
  moreover have "a[31 := b] = take 31 a @ [b]" for b using upd_conv_take_nth_drop [of 31 a b] assms(1) by simp
  ultimately show ?thesis using v assms(1) by (auto simp: bval_append)
qed

text \<open>The encoding: the canonical \<open>y\<close>, and the parity of the canonical \<open>x\<close> in the top bit.\<close>

lemma pack_val:
  assumes "fe x u" and "fe y v"
  shows "length (ed25519_pack x y) = 32 \<and> bval (ed25519_pack x y) = v mod P25519 + 2 ^ 255 * (u mod P25519 mod 2)"
proof -
  have x: "bval (f25519_normalize x) = u mod P25519" "length (f25519_normalize x) = 32"
    using fe_normalize [OF assms(1)] by (auto simp: fe_def)
  have y: "bval (f25519_normalize y) = v mod P25519" "length (f25519_normalize y) = 32"
    using fe_normalize [OF assms(2)] by (auto simp: fe_def)
  have "v mod P25519 < 2 ^ 255" using pos_mod_bound [of P25519 v] by (simp add: P25519_def)
  moreover have "bit (f25519_normalize x ! 0) 0 \<longleftrightarrow> odd (u mod P25519)" using low_bit [of "f25519_normalize x"] x by simp
  ultimately show ?thesis
    using set_top [of "f25519_normalize y" "odd (u mod P25519)"] y
    unfolding ed25519_pack_def Let_def parity_bit by (auto simp: odd_iff_mod_2_eq_one)
qed

text \<open>The root that is selected: its canonical form has the wanted parity, unless it is zero.\<close>

lemma select_parity:
  assumes "fe a u" and "bval a = u mod P25519" and "parity = 0 \<or> parity = 1"
  defines "x \<equiv> f25519_select a (f25519_neg a) ((a ! 0 XOR parity) AND 1)"
  shows "\<exists>v. fe x v \<and> (v = u \<or> v = - u) \<and> (u mod P25519 \<noteq> 0 \<longrightarrow> v mod P25519 mod 2 = uint parity)"
proof -
  have l: "length a = 32" "length (f25519_neg a) = 32" using assms(1) fe_neg [OF assms(1)] by (auto simp: fe_def)
  have c: "(a ! 0 XOR parity) AND 1 = (if bit (a ! 0) 0 \<noteq> bit parity 0 then 1 else 0)"
    by (rule bit_word_eqI) (auto simp: bit_simps bit_1_iff)
  have b: "bit (a ! 0) 0 \<longleftrightarrow> odd (u mod P25519)" using low_bit [of a] l assms(2) by simp
  have p: "bit parity 0 \<longleftrightarrow> parity = 1" using assms(3) by (auto simp: bit_0)
  have n: "(- u) mod P25519 = P25519 - u mod P25519" if "u mod P25519 \<noteq> 0"
    using that by (simp add: zmod_zminus1_eq_if)
  have odd_p: "odd P25519" by (simp add: P25519_def)
  show ?thesis
  proof (cases "odd (u mod P25519) \<longleftrightarrow> parity = 1")
    case True
    then have "x = a" using l by (simp add: x_def c b p f25519_select_val)
    then show ?thesis using assms(1,3) True by (intro exI [of _ u]) (auto simp: odd_iff_mod_2_eq_one even_iff_mod_2_eq_zero)
  next
    case False
    then have "x = f25519_neg a" using l by (simp add: x_def c b p f25519_select_val)
    moreover have "(- u) mod P25519 mod 2 = uint parity" if "u mod P25519 \<noteq> 0"
      using False assms(3) odd_p n [OF that] by (cases "odd (u mod P25519)") (auto simp: mod2_eq_if)
    ultimately show ?thesis using fe_neg [OF assms(1)] by (intro exI [of _ "- u"]) simp
  qed
qed

text \<open>\<open>x\<^sup>2 = (y\<^sup>2 - 1) / (1 + d y\<^sup>2)\<close>, the division by Fermat's power.\<close>

definition x_square :: "int \<Rightarrow> int" where
  "x_square y = (y * y - 1) * (y * y * edD + 1) ^ nat (P25519 - 2)"

definition sqrt_exp :: nat where
  "sqrt_exp = 2 ^ 252 - 3"

definition sqrt_pow :: "int \<Rightarrow> int" where
  "sqrt_pow a = (let v = (2 * a) ^ sqrt_exp in v * a * (2 * a * (v * v) - 1))"

lemma fe_sqrt: "fe a u \<Longrightarrow> fe (f25519_sqrt a) (sqrt_pow u) \<and> bval (f25519_sqrt a) = sqrt_pow u mod P25519"
proof -
  assume a: "fe a u"
  then have v: "bval (f25519_sqrt a) = sqrt_pow (bval a) mod P25519" "length (f25519_sqrt a) = 32"
    using f25519_sqrt_val [of a, folded sqrt_exp_def] by (simp_all add: sqrt_pow_def Let_def fe_def)
  have "eqp (sqrt_pow (bval a)) (sqrt_pow u)"
    unfolding sqrt_pow_def Let_def using a by (intro eqp_cong) (auto simp: fe_def)
  then show ?thesis using v by (simp add: fe_def eqp_def)
qed

definition root_arg :: "bytes \<Rightarrow> bytes" where
  "root_arg y = f25519_mul_distinct (f25519_sub (f25519_mul_distinct y y) f25519_one)
    (f25519_inv_distinct (f25519_add (f25519_mul_distinct (f25519_mul_distinct y y) ed25519_d) f25519_one))"

definition root_choice :: "bytes \<Rightarrow> u8 \<Rightarrow> bytes" where
  "root_choice a parity = f25519_select a (f25519_neg a) ((a ! 0 XOR parity) AND 1)"

lemma root_arg_val: "fe y v \<Longrightarrow> fe (root_arg y) (x_square v)"
  unfolding root_arg_def x_square_def by (intro fe_mul fe_sub fe_add fe_inv fe_one(1) fe_d)

lemma recover_x_eq: "recover_x y parity =
  (let x = root_choice (f25519_sqrt (root_arg y)) parity
   in (x, f25519_eq (f25519_normalize (f25519_mul_distinct x x)) (f25519_normalize (root_arg y))))"
  unfolding recover_x_def Let_def root_arg_def root_choice_def by (rule refl)

lemma recover_x_val:
  assumes "fe y v" and "parity = 0 \<or> parity = 1" and "recover_x y parity = (x, ok)"
  shows "\<exists>u. fe x u \<and> ok = (if eqp (u * u) (x_square v) then 1 else 0) \<and>
    (u = sqrt_pow (x_square v) \<or> u = - sqrt_pow (x_square v)) \<and>
    (u mod P25519 \<noteq> 0 \<longrightarrow> u mod P25519 mod 2 = uint parity)"
proof -
  define w where "w = x_square v"
  have c: "fe (root_arg y) w" unfolding w_def by (rule root_arg_val [OF assms(1)])
  note r = fe_sqrt [OF c]
  obtain u where u: "fe (root_choice (f25519_sqrt (root_arg y)) parity) u" "u = sqrt_pow w \<or> u = - sqrt_pow w"
    "sqrt_pow w mod P25519 \<noteq> 0 \<Longrightarrow> u mod P25519 mod 2 = uint parity"
    using select_parity [OF r [THEN conjunct1] r [THEN conjunct2] assms(2), folded root_choice_def] by (elim exE conjE) simp
  have x: "x = root_choice (f25519_sqrt (root_arg y)) parity" "ok = f25519_eq (f25519_normalize (f25519_mul_distinct x x)) (f25519_normalize (root_arg y))"
    using assms(3) unfolding recover_x_eq Let_def by auto
  have n: "fe (f25519_normalize (f25519_mul_distinct x x)) (u * u)" "fe (f25519_normalize (root_arg y)) w"
    unfolding x(1) by (rule fe_normalize [THEN conjunct1], intro fe_mul u(1) c)+
  then have "ok = (if eqp (u * u) w then 1 else 0)"
    using f25519_eq_val [of "f25519_normalize (f25519_mul_distinct x x)" "f25519_normalize (root_arg y)"]
    by (simp only: x(2) fe_def eqp_def)
  moreover have "sqrt_pow w mod P25519 \<noteq> 0" if "u mod P25519 \<noteq> 0"
    using u(2)
  proof
    assume "u = - sqrt_pow w"
    then show ?thesis using that zmod_zminus1_eq_if [of "sqrt_pow w" P25519] by auto
  qed (use that in simp)
  then have "u mod P25519 \<noteq> 0 \<longrightarrow> u mod P25519 mod 2 = uint parity" using u(3) by simp
  ultimately show ?thesis
    using u(1,2) unfolding x(1) w_def by (intro exI [of _ u] conjI)
qed

lemma clear_top:
  assumes "length c = 32"
  shows "bval (c[31 := c ! 31 AND 127]) = bval c mod 2 ^ 255" and "bval c div 2 ^ 255 = uint (drop_bit 7 (c ! 31))"
proof -
  have c: "c[31 := b] = take 31 c @ [b]" for b using upd_conv_take_nth_drop [of 31 c b] assms by simp
  have v: "bval c = bval (take 31 c) + 256 ^ 31 * uint (c ! 31)"
    using bval_append [of "take 31 c" "[c ! 31]"] c [of "c ! 31"] assms by simp
  have m: "uint (c ! 31 AND 127) = uint (c ! 31) mod 128"
  proof -
    have "c ! 31 AND 127 = take_bit 7 (c ! 31)" by (simp add: take_bit_eq_mask mask_eq_exp_minus_1)
    then show ?thesis by (simp only: unsigned_take_bit_eq) (simp add: take_bit_eq_mod)
  qed
  have lo: "0 \<le> bval (take 31 c)" "bval (take 31 c) < 256 ^ 31"
    using bval_nonneg bval_less [of "take 31 c"] assms by simp_all
  have "bval c = bval (take 31 c) + 256 ^ 31 * (uint (c ! 31) mod 128) + 2 ^ 255 * (uint (c ! 31) div 128)"
  proof -
    have "256 ^ 31 * (128 * q) = 2 ^ 255 * q" for q :: int by simp
    then show ?thesis
      using v arg_cong [OF mult_div_mod_eq [of 128 "uint (c ! 31)"], of "\<lambda>z. 256 ^ 31 * z"]
      unfolding distrib_left by simp
  qed
  moreover have "bval (take 31 c) + 256 ^ 31 * (uint (c ! 31) mod 128) < 2 ^ 255"
    using lo pos_mod_bound [of 128 "uint (c ! 31)"] by simp
  moreover have "0 \<le> bval (take 31 c) + 256 ^ 31 * (uint (c ! 31) mod 128)" using lo by simp
  ultimately show "bval (c[31 := c ! 31 AND 127]) = bval c mod 2 ^ 255" "bval c div 2 ^ 255 = uint (drop_bit 7 (c ! 31))"
    using assms by (simp_all add: c bval_append m uint_shift mod_pos_pos_trivial div_pos_pos_trivial)
qed

lemma unpack_val:
  assumes "length c = 32" and "ed25519_try_unpack c = (x, y, ok)"
  shows "\<exists>u. fe x u \<and> fe y (bval c mod 2 ^ 255) \<and> ok = (if eqp (u * u) (x_square (bval c mod 2 ^ 255)) then 1 else 0) \<and>
    (u mod P25519 \<noteq> 0 \<longrightarrow> u mod P25519 mod 2 = bval c div 2 ^ 255)"
proof -
  define y' where "y' = c[31 := c ! 31 AND 127]"
  have fy: "fe y' (bval c mod 2 ^ 255)"
    using clear_top(1) [OF assms(1)] assms(1) by (simp only: fe_def y'_def length_list_update eqp_refl)
  obtain x' ok' where r: "recover_x y' (drop_bit 7 (c ! 31)) = (x', ok')" by (metis surj_pair)
  have e: "x = x'" "y = y'" "ok = ok'"
    using assms(2) r unfolding ed25519_try_unpack_def Let_def y'_def by auto
  have "uint (drop_bit 7 (c ! 31)) < 2"
    unfolding uint_shift using byte_range [of "c ! 31"] by (intro div_below) simp_all
  then have "uint (drop_bit 7 (c ! 31)) = 0 \<or> uint (drop_bit 7 (c ! 31)) = 1"
    using uint_nonnegative [of "drop_bit 7 (c ! 31)"] by linarith
  then have "drop_bit 7 (c ! 31) = 0 \<or> drop_bit 7 (c ! 31) = 1"
    by (simp add: word_eq_iff_unsigned [where 'a = int])
  from recover_x_val [OF fy this r] obtain u where "fe x' u" "ok' = (if eqp (u * u) (x_square (bval c mod 2 ^ 255)) then 1 else 0)"
    "u mod P25519 \<noteq> 0 \<longrightarrow> u mod P25519 mod 2 = uint (drop_bit 7 (c ! 31))" by (elim exE conjE)
  then show ?thesis
    using fy unfolding e clear_top(2) [OF assms(1)] by (intro exI [of _ u] conjI)
qed

lemma x_square_curve:
  assumes "eqp (x * x) (x_square v)" and "eqp ((v * v * edD + 1) ^ nat (P25519 - 1)) 1"
  shows "on_curve (x, v)"
proof -
  define n where "n = v * v * edD + 1"
  have "nat (P25519 - 1) = Suc (nat (P25519 - 2))" by (simp add: P25519_def)
  then have "n ^ nat (P25519 - 2) * n = n ^ nat (P25519 - 1)" by simp
  then have p: "x_square v * n = (v * v - 1) * n ^ nat (P25519 - 1)"
    unfolding x_square_def n_def [symmetric] by (simp only: mult.assoc)
  have "eqp (x * x * n) ((v * v - 1) * n ^ nat (P25519 - 1))"
    using eqp_mult [OF assms(1) eqp_refl [of n]] unfolding p .
  then have "eqp (x * x * n) (v * v - 1)"
    using eqp_trans [OF _ eqp_mult [OF eqp_refl [of "v * v - 1"] assms(2) [folded n_def]]] unfolding mult_1_right by blast
  from eqp_add [OF eqp_sym [OF this] eqp_refl [of "1 - x * x"]]
  have "eqp (v ^ 2 - x ^ 2) (1 + edD * x ^ 2 * v ^ 2)"
    by (simp add: n_def power2_eq_square algebra_simps)
  then show ?thesis by (simp add: on_curve_def)
qed

text \<open>The maps between the two curves: away from \<open>m = - 1\<close>, going to Edwards' \<open>y\<close> and back gives \<open>m\<close>.\<close>

lemma morph25519_roundtrip:
  assumes "fe mx m" and n: "eqp ((m + 1) ^ nat (P25519 - 1)) 1"
    and i: "eqp ((2 * (m + 1) ^ nat (P25519 - 2)) ^ nat (P25519 - 1)) 1"
  shows "bval (morph25519_e2m (mx2ey mx)) = m mod P25519"
proof -
  define k where "k = nat (P25519 - 2)"
  have k: "nat (P25519 - 1) = Suc k" by (simp add: k_def P25519_def)
  define j where "j = (m + 1) ^ k"
  have j: "eqp ((m + 1) * j) 1" using n by (simp add: k j_def)
  have y: "fe (mx2ey mx) ((m - 1) * j)"
    unfolding mx2ey_def Let_def j_def k_def by (intro fe_ops fe_inv fe_one assms)
  have "eqp ((m + 1) * j - (m - 1) * j) (1 - (m - 1) * j)" by (intro eqp_diff j eqp_refl)
  then have minus: "eqp (1 - (m - 1) * j) (2 * j)" by (simp add: eqp_def algebra_simps)
  have "eqp ((m + 1) * j + (m - 1) * j) (1 + (m - 1) * j)" by (intro eqp_add j eqp_refl)
  then have plus: "eqp (1 + (m - 1) * j) (2 * m * j)" by (simp add: eqp_def algebra_simps)
  have "fe (f25519_mul_distinct (f25519_add f25519_one (mx2ey mx)) (f25519_inv_distinct (f25519_sub f25519_one (mx2ey mx))))
      ((1 + (m - 1) * j) * (1 - (m - 1) * j) ^ k)"
    unfolding k_def by (intro fe_ops fe_inv fe_one y)
  then have "bval (morph25519_e2m (mx2ey mx)) = (1 + (m - 1) * j) * (1 - (m - 1) * j) ^ k mod P25519"
    using fe_normalize unfolding morph25519_e2m_def Let_def by blast
  moreover have "eqp ((1 + (m - 1) * j) * (1 - (m - 1) * j) ^ k) (2 * m * j * (2 * j) ^ k)"
    by (intro eqp_mult eqp_power plus minus)
  moreover have "2 * m * j * (2 * j) ^ k = m * (2 * j) ^ Suc k" by simp
  moreover have "eqp (m * (2 * j) ^ Suc k) (m * 1)"
    using i by (intro eqp_mult eqp_refl) (simp only: k k_def [symmetric] j_def)
  ultimately show ?thesis by (simp only: eqp_def mult_1_right)
qed

section \<open>Properties\<close>

text \<open>C15. The Edwards group law. Let \<open>M\<close> be a family of affine points of the curve that obeys the
  addition law, and let \<open>P\<close> name \<open>M 1\<close>. Then \<open>ed25519_smult\<close> returns a name of \<open>M e\<close> for every 32-byte
  exponent, all 256 bits of which it reads; its affine form is fully reduced and, where Fermat's
  power inverts the denominator, equal to \<open>M e\<close>. Names are kept by \<open>ed25519_add\<close> and (on the curve)
  by \<open>ed25519_double\<close>; the base point is on the curve and is named with its \<open>T\<close>.\<close>

theorem ed25519_group_law:
  assumes "edw_multiples M" and "names P (M 1)" and "length e = 32" and "M (nat (bval e)) = (x, y)"
  shows "names (ed25519_smult P e) (x, y) \<and>
    (\<exists>z. punit z \<and> bval (fst (ed25519_unproject (ed25519_smult P e))) = x * z ^ nat (P25519 - 1) mod P25519 \<and>
      bval (snd (ed25519_unproject (ed25519_smult P e))) = y * z ^ nat (P25519 - 1) mod P25519 \<and>
      (eqp (z ^ nat (P25519 - 1)) 1 \<longrightarrow>
         bval (fst (ed25519_unproject (ed25519_smult P e))) = x mod P25519 \<and>
         bval (snd (ed25519_unproject (ed25519_smult P e))) = y mod P25519)) \<and>
    (names Q q \<longrightarrow> edw_sum (M 1) q r \<longrightarrow> names (ed25519_add P Q) r) \<and>
    names (ed25519_double P) (M 2) \<and>
    names ed25519_base (bval ed25519_base_x, bval ed25519_base_y) \<and> on_curve (bval ed25519_base_x, bval ed25519_base_y)"
proof -
  have s: "names (ed25519_smult P e) (x, y)" using smult_names [OF assms(1-3)] assms(4) by simp
  have d: "names (ed25519_double P) (M 2)"
    using assms(1) spec [of "\<lambda>n. on_curve (M n) \<and> edw_sum (M n) (M n) (M (2 * n)) \<and> edw_sum (M (2 * n)) (M 1) (M (Suc (2 * n)))" 1]
    by (intro names_double [OF assms(2)]) (auto simp: edw_multiples_def)
  obtain z where z: "punit z"
    "bval (fst (ed25519_unproject (ed25519_smult P e))) = x * z ^ nat (P25519 - 1) mod P25519"
    "bval (snd (ed25519_unproject (ed25519_smult P e))) = y * z ^ nat (P25519 - 1) mod P25519"
    using unproject_val [OF s] by blast
  show ?thesis using s d z base_point names_add [OF assms(2)] power_fermat [of z] by auto
qed

text \<open>The multiples of the point of order two.\<close>

definition order2 :: "nat \<Rightarrow> apt" where
  "order2 n = (0, if even n then 1 else - 1)"

lemma multiples_order2: "edw_multiples order2"
  by (auto simp: edw_multiples_def order2_def on_curve_def edw_sum_def eqp_refl punit_1)

theorem ed25519_group_law_witness:
  "names (ed25519_smult (ed25519_project (replicate 32 0) (f25519_neg f25519_one)) (3 # replicate 31 0)) (0, - 1)"
proof -
  have "names (ed25519_project (replicate 32 0) (f25519_neg f25519_one)) (order2 1)"
    using names_project [OF fe_one(4) fe_neg [OF fe_one(1)]] by (simp add: order2_def)
  from ed25519_group_law [OF multiples_order2 this, of "3 # replicate 31 0" 0 "- 1"]
  show ?thesis by (simp add: order2_def)
qed



end
