(* ===== verification/Sha512.thy ===== *)
theory Sha512
  imports F25519 Sha256
begin

text \<open>
  SHA-512 for the transputer, \<open>x25519bench/fe32/sha512_32.c\<close>. The file is compiled in two ways: with
  the native 64-bit type of gcc, or, for the INMOS compiler, which has none, with pairs of 32-bit
  words. The macros and functions the two builds supply are the fields of \<open>word_ops\<close>, so the
  compression function is written once, as in the file. Shown: either build is an implementation of
  64-bit words (locale \<open>word64\<close>), hence both compute the compression function of FIPS 180-4.
\<close>

section \<open>The code\<close>

text \<open>What the rest of the file uses of a 64-bit word: \<open>SET\<close>/\<open>mk\<close>, \<open>HI\<close>, \<open>LO\<close>, \<open>ADD\<close>, \<open>XOR\<close>, \<open>AND\<close>,
  \<open>NOTAND\<close>, \<open>SHR\<close>, \<open>ROT\<close> and the round constant \<open>K\<close>.\<close>

record 'v word_ops =
  SET64 :: "u32 \<Rightarrow> u32 \<Rightarrow> 'v"
  HI :: "'v \<Rightarrow> u32"
  LO :: "'v \<Rightarrow> u32"
  ADD :: "'v \<Rightarrow> 'v \<Rightarrow> 'v"
  XOR64 :: "'v \<Rightarrow> 'v \<Rightarrow> 'v"
  AND64 :: "'v \<Rightarrow> 'v \<Rightarrow> 'v"
  NOTAND :: "'v \<Rightarrow> 'v \<Rightarrow> 'v"
  SHR :: "'v \<Rightarrow> nat \<Rightarrow> 'v"
  ROT :: "'v \<Rightarrow> nat \<Rightarrow> 'v"
  K :: "nat \<Rightarrow> 'v"

subsection \<open>The native build\<close>

definition U64 :: "u32 \<Rightarrow> u32 \<Rightarrow> u64" where
  "U64 hi lo = push_bit 32 (ucast hi) OR ucast lo"

definition RK_native :: "u64 list" where
  "RK_native =
    [0x428a2f98d728ae22, 0x7137449123ef65cd, 0xb5c0fbcfec4d3b2f, 0xe9b5dba58189dbbc] @
    [0x3956c25bf348b538, 0x59f111f1b605d019, 0x923f82a4af194f9b, 0xab1c5ed5da6d8118] @
    [0xd807aa98a3030242, 0x12835b0145706fbe, 0x243185be4ee4b28c, 0x550c7dc3d5ffb4e2] @
    [0x72be5d74f27b896f, 0x80deb1fe3b1696b1, 0x9bdc06a725c71235, 0xc19bf174cf692694] @
    [0xe49b69c19ef14ad2, 0xefbe4786384f25e3, 0x0fc19dc68b8cd5b5, 0x240ca1cc77ac9c65] @
    [0x2de92c6f592b0275, 0x4a7484aa6ea6e483, 0x5cb0a9dcbd41fbd4, 0x76f988da831153b5] @
    [0x983e5152ee66dfab, 0xa831c66d2db43210, 0xb00327c898fb213f, 0xbf597fc7beef0ee4] @
    [0xc6e00bf33da88fc2, 0xd5a79147930aa725, 0x06ca6351e003826f, 0x142929670a0e6e70] @
    [0x27b70a8546d22ffc, 0x2e1b21385c26c926, 0x4d2c6dfc5ac42aed, 0x53380d139d95b3df] @
    [0x650a73548baf63de, 0x766a0abb3c77b2a8, 0x81c2c92e47edaee6, 0x92722c851482353b] @
    [0xa2bfe8a14cf10364, 0xa81a664bbc423001, 0xc24b8b70d0f89791, 0xc76c51a30654be30] @
    [0xd192e819d6ef5218, 0xd69906245565a910, 0xf40e35855771202a, 0x106aa07032bbd1b8] @
    [0x19a4c116b8d2d0c8, 0x1e376c085141ab53, 0x2748774cdf8eeb99, 0x34b0bcb5e19b48a8] @
    [0x391c0cb3c5c95a63, 0x4ed8aa4ae3418acb, 0x5b9cca4f7763e373, 0x682e6ff3d6b2b8a3] @
    [0x748f82ee5defb2fc, 0x78a5636f43172f60, 0x84c87814a1f0ab72, 0x8cc702081a6439ec] @
    [0x90befffa23631e28, 0xa4506cebde82bde9, 0xbef9a3f7b2c67915, 0xc67178f2e372532b] @
    [0xca273eceea26619c, 0xd186b8c721c0c207, 0xeada7dd6cde0eb1e, 0xf57d4f7fee6ed178] @
    [0x06f067aa72176fba, 0x0a637dc5a2c898a6, 0x113f9804bef90dae, 0x1b710b35131c471b] @
    [0x28db77f523047d84, 0x32caab7b40c72493, 0x3c9ebe0a15c9bebc, 0x431d67c49c100d4c] @
    [0x4cc5d4becb3e42b6, 0x597f299cfc657e2a, 0x5fcb6fab3ad6faec, 0x6c44198c4a475817]"

definition native_ops :: "u64 word_ops" where
  "native_ops = \<lparr>SET64 = U64, HI = \<lambda>x. ucast (drop_bit 32 x), LO = \<lambda>x. ucast x, ADD = (+), XOR64 = (XOR),
     AND64 = (AND), NOTAND = \<lambda>a b. NOT a AND b, SHR = \<lambda>x n. drop_bit n x,
     ROT = \<lambda>x n. drop_bit n x OR push_bit (64 - n) x, K = \<lambda>i. RK_native ! i\<rparr>"

subsection \<open>The build with pairs\<close>

record pair64 =
  hi :: u32
  lo :: u32

definition mk :: "u32 \<Rightarrow> u32 \<Rightarrow> pair64" where
  "mk h l = \<lparr>hi = h, lo = l\<rparr>"

definition pADD :: "pair64 \<Rightarrow> pair64 \<Rightarrow> pair64" where
  "pADD a b = (let l = lo a + lo b in mk (hi a + hi b + (if l < lo a then 1 else 0)) l)"

definition pSHR :: "pair64 \<Rightarrow> nat \<Rightarrow> pair64" where
  "pSHR x n =
     (if n < 32 then mk (drop_bit n (hi x)) (drop_bit n (lo x) OR push_bit (32 - n) (hi x))
      else mk 0 (drop_bit (n - 32) (hi x)))"

definition ROTR :: "pair64 \<Rightarrow> nat \<Rightarrow> pair64" where
  "ROTR x n =
     (if n = 32 then mk (lo x) (hi x)
      else if n < 32 then mk (drop_bit n (hi x) OR push_bit (32 - n) (lo x)) (drop_bit n (lo x) OR push_bit (32 - n) (hi x))
      else let n = n - 32 in
        mk (drop_bit n (lo x) OR push_bit (32 - n) (hi x)) (drop_bit n (hi x) OR push_bit (32 - n) (lo x)))"

definition RK_pairs :: "(u32 \<times> u32) list" where
  "RK_pairs =
    [(0x428a2f98, 0xd728ae22), (0x71374491, 0x23ef65cd), (0xb5c0fbcf, 0xec4d3b2f), (0xe9b5dba5, 0x8189dbbc)] @
    [(0x3956c25b, 0xf348b538), (0x59f111f1, 0xb605d019), (0x923f82a4, 0xaf194f9b), (0xab1c5ed5, 0xda6d8118)] @
    [(0xd807aa98, 0xa3030242), (0x12835b01, 0x45706fbe), (0x243185be, 0x4ee4b28c), (0x550c7dc3, 0xd5ffb4e2)] @
    [(0x72be5d74, 0xf27b896f), (0x80deb1fe, 0x3b1696b1), (0x9bdc06a7, 0x25c71235), (0xc19bf174, 0xcf692694)] @
    [(0xe49b69c1, 0x9ef14ad2), (0xefbe4786, 0x384f25e3), (0x0fc19dc6, 0x8b8cd5b5), (0x240ca1cc, 0x77ac9c65)] @
    [(0x2de92c6f, 0x592b0275), (0x4a7484aa, 0x6ea6e483), (0x5cb0a9dc, 0xbd41fbd4), (0x76f988da, 0x831153b5)] @
    [(0x983e5152, 0xee66dfab), (0xa831c66d, 0x2db43210), (0xb00327c8, 0x98fb213f), (0xbf597fc7, 0xbeef0ee4)] @
    [(0xc6e00bf3, 0x3da88fc2), (0xd5a79147, 0x930aa725), (0x06ca6351, 0xe003826f), (0x14292967, 0x0a0e6e70)] @
    [(0x27b70a85, 0x46d22ffc), (0x2e1b2138, 0x5c26c926), (0x4d2c6dfc, 0x5ac42aed), (0x53380d13, 0x9d95b3df)] @
    [(0x650a7354, 0x8baf63de), (0x766a0abb, 0x3c77b2a8), (0x81c2c92e, 0x47edaee6), (0x92722c85, 0x1482353b)] @
    [(0xa2bfe8a1, 0x4cf10364), (0xa81a664b, 0xbc423001), (0xc24b8b70, 0xd0f89791), (0xc76c51a3, 0x0654be30)] @
    [(0xd192e819, 0xd6ef5218), (0xd6990624, 0x5565a910), (0xf40e3585, 0x5771202a), (0x106aa070, 0x32bbd1b8)] @
    [(0x19a4c116, 0xb8d2d0c8), (0x1e376c08, 0x5141ab53), (0x2748774c, 0xdf8eeb99), (0x34b0bcb5, 0xe19b48a8)] @
    [(0x391c0cb3, 0xc5c95a63), (0x4ed8aa4a, 0xe3418acb), (0x5b9cca4f, 0x7763e373), (0x682e6ff3, 0xd6b2b8a3)] @
    [(0x748f82ee, 0x5defb2fc), (0x78a5636f, 0x43172f60), (0x84c87814, 0xa1f0ab72), (0x8cc70208, 0x1a6439ec)] @
    [(0x90befffa, 0x23631e28), (0xa4506ceb, 0xde82bde9), (0xbef9a3f7, 0xb2c67915), (0xc67178f2, 0xe372532b)] @
    [(0xca273ece, 0xea26619c), (0xd186b8c7, 0x21c0c207), (0xeada7dd6, 0xcde0eb1e), (0xf57d4f7f, 0xee6ed178)] @
    [(0x06f067aa, 0x72176fba), (0x0a637dc5, 0xa2c898a6), (0x113f9804, 0xbef90dae), (0x1b710b35, 0x131c471b)] @
    [(0x28db77f5, 0x23047d84), (0x32caab7b, 0x40c72493), (0x3c9ebe0a, 0x15c9bebc), (0x431d67c4, 0x9c100d4c)] @
    [(0x4cc5d4be, 0xcb3e42b6), (0x597f299c, 0xfc657e2a), (0x5fcb6fab, 0x3ad6faec), (0x6c44198c, 0x4a475817)]"

definition pair_ops :: "pair64 word_ops" where
  "pair_ops = \<lparr>SET64 = mk, HI = hi, LO = lo, ADD = pADD, XOR64 = \<lambda>a b. mk (hi a XOR hi b) (lo a XOR lo b),
     AND64 = \<lambda>a b. mk (hi a AND hi b) (lo a AND lo b),
     NOTAND = \<lambda>a b. mk (NOT (hi a) AND hi b) (NOT (lo a) AND lo b),
     SHR = pSHR, ROT = ROTR, K = \<lambda>i. case RK_pairs ! i of (h, l) \<Rightarrow> mk h l\<rparr>"

subsection \<open>The hash\<close>

definition sha512_initial_state :: "u32 list" where
  "sha512_initial_state =
    [0x6a09e667, 0xf3bcc908, 0xbb67ae85, 0x84caa73b] @
    [0x3c6ef372, 0xfe94f82b, 0xa54ff53a, 0x5f1d36f1] @
    [0x510e527f, 0xade682d1, 0x9b05688c, 0x2b3e6c1f] @
    [0x1f83d9ab, 0xfb41bd6b, 0x5be0cd19, 0x137e2179]"

definition load64 :: "'v word_ops \<Rightarrow> bytes \<Rightarrow> nat \<Rightarrow> 'v" where
  "load64 ops x j =
     SET64 ops
       (push_bit 24 (ucast (x ! j)) OR push_bit 16 (ucast (x ! (j + 1))) OR push_bit 8 (ucast (x ! (j + 2))) OR ucast (x ! (j + 3)))
       (push_bit 24 (ucast (x ! (j + 4))) OR push_bit 16 (ucast (x ! (j + 5))) OR push_bit 8 (ucast (x ! (j + 6))) OR ucast (x ! (j + 7)))"

definition store64 :: "'v word_ops \<Rightarrow> 'v \<Rightarrow> bytes" where
  "store64 ops v = be4 (HI ops v) @ be4 (LO ops v)"

text \<open>One round: \<open>w\<close> is the circular window of 16 schedule words, \<open>v\<close> the working variables.\<close>

definition sha512_round :: "'v word_ops \<Rightarrow> 'v list \<times> 'v list \<Rightarrow> nat \<Rightarrow> 'v list \<times> 'v list" where
  "sha512_round ops wv i =
     (case wv of (w, v) \<Rightarrow> (case v of
        [a, b, c, d, e, f, g, h] \<Rightarrow>
          let wi = w ! (i mod 16); wi15 = w ! ((i + 1) mod 16); wi2 = w ! ((i + 14) mod 16); wi7 = w ! ((i + 9) mod 16);
              s0 = XOR64 ops (XOR64 ops (ROT ops wi15 1) (ROT ops wi15 8)) (SHR ops wi15 7);
              s1 = XOR64 ops (XOR64 ops (ROT ops wi2 19) (ROT ops wi2 61)) (SHR ops wi2 6);
              S0 = XOR64 ops (XOR64 ops (ROT ops a 28) (ROT ops a 34)) (ROT ops a 39);
              S1 = XOR64 ops (XOR64 ops (ROT ops e 14) (ROT ops e 18)) (ROT ops e 41);
              ch = XOR64 ops (AND64 ops e f) (NOTAND ops e g);
              temp1 = ADD ops (ADD ops (ADD ops (ADD ops h S1) ch) (K ops i)) wi;
              maj = XOR64 ops (XOR64 ops (AND64 ops a b) (AND64 ops a c)) (AND64 ops b c);
              temp2 = ADD ops S0 maj
          in (w[i mod 16 := ADD ops (ADD ops (ADD ops wi s0) wi7) s1],
              [ADD ops temp1 temp2, a, b, c, ADD ops d temp1, e, f, g])
      | _ \<Rightarrow> (w, v)))"

definition LDH :: "'v word_ops \<Rightarrow> u32 list \<Rightarrow> nat \<Rightarrow> 'v" where
  "LDH ops s i = SET64 ops (s ! (2 * i)) (s ! (2 * i + 1))"

definition STH :: "'v word_ops \<Rightarrow> u32 list \<Rightarrow> 'v \<Rightarrow> nat \<Rightarrow> u32 list" where
  "STH ops s v i = (let t = ADD ops (LDH ops s i) v in [HI ops t, LO ops t])"

definition sha512_block :: "'v word_ops \<Rightarrow> u32 list \<Rightarrow> bytes \<Rightarrow> u32 list" where
  "sha512_block ops s blk =
     (let w = map (\<lambda>i. load64 ops blk (8 * i)) [0..<16];
          v = snd (foldl (sha512_round ops) (w, map (LDH ops s) [0..<8]) [0..<80])
      in concat (map (\<lambda>i. STH ops s (v ! i) i) [0..<8]))"

definition sha512_final :: "'v word_ops \<Rightarrow> u32 list \<Rightarrow> bytes \<Rightarrow> u32 \<Rightarrow> u32 list" where
  "sha512_final ops s blk total_size =
     (let last_size = unat (total_size AND 127);
          bit_hi = drop_bit 29 total_size; bit_lo = push_bit 3 total_size;
          temp = (take last_size blk @ replicate (128 - last_size) 0)[last_size := 0x80];
          (s, temp) = (if 111 < last_size then (sha512_block ops s temp, replicate 128 0) else (s, temp));
          temp = take 120 temp @ be4 bit_hi @ be4 bit_lo
      in sha512_block ops s temp)"

definition sha512_get :: "'v word_ops \<Rightarrow> u32 list \<Rightarrow> nat \<Rightarrow> nat \<Rightarrow> bytes" where
  "sha512_get ops s offset len = take len (drop offset (concat (map (\<lambda>i. store64 ops (LDH ops s i)) [0..<8])))"

section \<open>The standard\<close>

text \<open>FIPS 180-4 on 64-bit words: the functions of section 4.1.3, the 80 words of the message
  schedule as a function of their index, and the rounds over them.\<close>

definition fips_s0 :: "u64 \<Rightarrow> u64" where
  "fips_s0 x = word_rotr 1 x XOR word_rotr 8 x XOR drop_bit 7 x"

definition fips_s1 :: "u64 \<Rightarrow> u64" where
  "fips_s1 x = word_rotr 19 x XOR word_rotr 61 x XOR drop_bit 6 x"

fun fips_w :: "u64 list \<Rightarrow> nat \<Rightarrow> u64" where
  "fips_w m t =
     (if t < 16 then m ! t
      else fips_s1 (fips_w m (t - 2)) + fips_w m (t - 7) + fips_s0 (fips_w m (t - 15)) + fips_w m (t - 16))"

declare fips_w.simps [simp del]

definition fips_round :: "(nat \<Rightarrow> u64) \<Rightarrow> u64 list \<Rightarrow> nat \<Rightarrow> u64 list" where
  "fips_round w v t =
     (case v of
        [a, b, c, d, e, f, g, h] \<Rightarrow>
          let t1 = h + (word_rotr 14 e XOR word_rotr 18 e XOR word_rotr 41 e) + ((e AND f) XOR (NOT e AND g)) + RK_native ! t + w t;
              t2 = (word_rotr 28 a XOR word_rotr 34 a XOR word_rotr 39 a) + ((a AND b) XOR (a AND c) XOR (b AND c))
          in [t1 + t2, a, b, c, d + t1, e, f, g]
      | _ \<Rightarrow> v)"

definition be_val :: "bytes \<Rightarrow> nat" where
  "be_val bs = foldl (\<lambda>n b. 256 * n + unat b) 0 bs"

definition fips_words :: "bytes \<Rightarrow> u64 list" where
  "fips_words blk = map (\<lambda>i. of_nat (be_val (take 8 (drop (8 * i) blk)))) [0..<16]"

definition fips_block :: "u64 list \<Rightarrow> bytes \<Rightarrow> u64 list" where
  "fips_block h blk = map2 (+) h (foldl (fips_round (fips_w (fips_words blk))) h [0..<80])"

definition fips_pad :: "bytes \<Rightarrow> bytes" where
  "fips_pad m = m @ [0x80] @ replicate (nat ((111 - int (length m)) mod 128)) 0 @ be_bytes 16 (8 * length m)"

definition fips_h0 :: "u64 list" where
  "fips_h0 =
    [0x6a09e667f3bcc908, 0xbb67ae8584caa73b] @ [0x3c6ef372fe94f82b, 0xa54ff53a5f1d36f1] @
    [0x510e527fade682d1, 0x9b05688c2b3e6c1f] @ [0x1f83d9abfb41bd6b, 0x5be0cd19137e2179]"

definition fips_sha512 :: "bytes \<Rightarrow> bytes" where
  "fips_sha512 m = concat (map (\<lambda>v. be_bytes 8 (unat v)) (foldl fips_block fips_h0 (blocks 128 (fips_pad m))))"

section \<open>64-bit words from 32-bit halves\<close>

lemma bit_U64: "bit (U64 h l) n \<longleftrightarrow> (if n < 32 then bit l n else n < 64 \<and> bit h (n - 32))"
  using bit_imp_le_length [of l n] by (auto simp: U64_def bit_simps)

lemma U64_halves [simp]: "ucast (drop_bit 32 (U64 h l)) = h" "ucast (U64 h l) = l"
  by (rule bit_word_eqI; auto simp: bit_simps bit_U64)+

lemma U64_split: "U64 (ucast (drop_bit 32 v)) (ucast v) = v"
  by (rule bit_word_eqI) (auto simp: bit_simps bit_U64)

lemma uint_U64: "uint (U64 h l) = uint h * 2 ^ 32 + uint l"
proof -
  have "U64 h l = push_bit 32 (ucast h) + ucast l"
    unfolding U64_def by (rule disjunctive_add [symmetric]) (auto simp: bit_simps dest: bit_imp_le_length)
  moreover have "uint (push_bit 32 (ucast h :: u64)) = uint h * 2 ^ 32"
    using uint_lt2p [of h]
    by (simp only: unsigned_push_bit_eq unsigned_ucast_eq) (simp add: take_bit_eq_mod push_bit_eq_mult)
  ultimately show ?thesis
    using uint_lt2p [of h] uint_lt2p [of l]
    by (simp add: uint_word_ariths unsigned_ucast_eq take_bit_eq_mod)
qed

lemma rotr_bits: "0 < n \<Longrightarrow> n < 64 \<Longrightarrow> bit (word_rotr n (x :: u64)) i \<longleftrightarrow> i < 64 \<and> bit x (if i + n < 64 then i + n else i + n - 64)"
  using le_mod_geq [of 64 "i + n"] by (auto simp: bit_word_rotr_iff)

text \<open>What a build must supply: an implementation of 64-bit words.\<close>

locale word64 =
  fixes ops :: "'v word_ops"
    and val :: "'v \<Rightarrow> u64"
  assumes set_law: "val (SET64 ops h l) = U64 h l"
    and hi_law: "HI ops v = ucast (drop_bit 32 (val v))"
    and lo_law: "LO ops v = ucast (val v)"
    and add_law: "val (ADD ops v w) = val v + val w"
    and xor_law: "val (XOR64 ops v w) = val v XOR val w"
    and and_law: "val (AND64 ops v w) = val v AND val w"
    and notand_law: "val (NOTAND ops v w) = (NOT (val v) AND val w)"
    and shr_law: "0 < n \<Longrightarrow> n < 64 \<Longrightarrow> val (SHR ops v n) = drop_bit n (val v)"
    and rot_law: "0 < n \<Longrightarrow> n < 64 \<Longrightarrow> val (ROT ops v n) = word_rotr n (val v)"
    and const_law: "i < 80 \<Longrightarrow> val (K ops i) = RK_native ! i"
begin

lemmas laws = set_law hi_law lo_law add_law xor_law and_law notand_law shr_law rot_law const_law

end

lemma native_rot: "0 < n \<Longrightarrow> n < 64 \<Longrightarrow> drop_bit n x OR push_bit (64 - n) x = word_rotr n (x :: u64)"
proof (rule bit_word_eqI)
  fix i assume n: "0 < n" "n < 64" and i: "i < LENGTH(64)"
  show "bit (drop_bit n x OR push_bit (64 - n) x) i = bit (word_rotr n x) i"
    using n i bit_imp_le_length [of x "i + n"] by (auto simp: rotr_bits) (auto simp: bit_simps ac_simps)
qed

interpretation native: word64 native_ops id
  by unfold_locales (simp_all add: native_ops_def native_rot)

definition pval :: "pair64 \<Rightarrow> u64" where
  "pval v = U64 (hi v) (lo v)"

lemma mod_pair: "0 \<le> r \<Longrightarrow> r < 2 ^ 32 \<Longrightarrow> (x mod 2 ^ 32) * 2 ^ 32 + r = (x * 2 ^ 32 + r) mod (2 ^ 64 :: int)"
  using zmod_zmult2_eq [of "2 ^ 32" "x * 2 ^ 32 + r" "2 ^ 32"] by simp

lemma pADD_val: "pval (pADD v w) = pval v + pval w"
proof (rule word_uint_eqI)
  define c :: int where "c = (if lo v + lo w < lo v then 1 else 0)"
  have l: "uint (lo v + lo w) = uint (lo v) + uint (lo w) - 2 ^ 32 * c"
    using uint_lt2p [of "lo v"] uint_lt2p [of "lo w"]
    by (simp add: c_def uint_word_ariths word_less_alt mod_add_if_z)
  have h: "uint (hi v + hi w + (if lo v + lo w < lo v then 1 else 0)) = (uint (hi v) + uint (hi w) + c) mod 2 ^ 32"
    by (simp add: c_def uint_word_ariths mod_simps)
  have "uint (pval (pADD v w)) = (uint (hi v) + uint (hi w) + c) mod 2 ^ 32 * 2 ^ 32 + uint (lo v + lo w)"
    by (simp only: pADD_def pval_def mk_def Let_def uint_U64 h pair64.select_convs)
  also have "\<dots> = ((uint (hi v) + uint (hi w) + c) * 2 ^ 32 + uint (lo v + lo w)) mod 2 ^ 64"
    by (rule mod_pair) (use uint_lt2p [of "lo v + lo w"] in simp_all)
  also have "\<dots> = uint (pval v + pval w)"
    unfolding l by (simp add: pval_def uint_word_ariths uint_U64 algebra_simps)
  finally show "uint (pval (pADD v w)) = uint (pval v + pval w)" .
qed

lemma pSHR_val:
  assumes "0 < n" and "n < 64"
  shows "pval (pSHR x n) = drop_bit n (pval x)"
proof (rule bit_word_eqI)
  fix i
  show "bit (pval (pSHR x n)) i = bit (drop_bit n (pval x)) i"
    using assms bit_imp_le_length [of "lo x" "i + n"] bit_imp_le_length [of "hi x" "i + n - 32"]
    by (auto simp: pSHR_def pval_def mk_def bit_simps bit_U64 ac_simps)
qed

lemma ROTR_val:
  assumes "0 < n" and "n < 64"
  shows "pval (ROTR x n) = word_rotr n (pval x)"
proof (rule bit_word_eqI)
  fix i :: nat assume "i < LENGTH(64)"
  then have i: "i < 64" by simp
  have r: "bit (word_rotr n (pval x)) i \<longleftrightarrow> (let k = if i + n < 64 then i + n else i + n - 64 in
      if k < 32 then bit (lo x) k else bit (hi x) (k - 32))"
    using i assms by (auto simp: rotr_bits [OF assms] pval_def bit_U64 Let_def)
  have l: "bit (pval (ROTR x n)) i \<longleftrightarrow> (if i < 32 then bit (lo (ROTR x n)) i else bit (hi (ROTR x n)) (i - 32))"
    using i by (simp add: pval_def bit_U64)
  consider "n < 32" | "n = 32" | "32 < n" by linarith
  then show "bit (pval (ROTR x n)) i = bit (word_rotr n (pval x)) i"
    unfolding r l using i assms
    by cases (auto simp: ROTR_def mk_def bit_simps Let_def ac_simps not_less dest: bit_imp_le_length)
qed

lemma RK_agree: "map (\<lambda>(h, l). U64 h l) RK_pairs = RK_native"
  unfolding RK_pairs_def RK_native_def append.simps list.map prod.case U64_def by simp

interpretation pair: word64 pair_ops pval
proof unfold_locales
  fix i :: nat assume "i < 80"
  moreover have "length RK_pairs = 80" by (simp add: RK_pairs_def)
  ultimately show "pval (K pair_ops i) = RK_native ! i"
    by (simp add: RK_agree [symmetric] pair_ops_def pval_def mk_def split: prod.splits)
qed (auto simp: pair_ops_def pADD_val pSHR_val ROTR_val, auto simp: pval_def mk_def bit_simps bit_U64 less_diff_conv2 not_less intro!: bit_word_eqI)

section \<open>The compression function\<close>

lemma be_word_g4: "push_bit 24 (ucast a) OR push_bit 16 (ucast b) OR push_bit 8 (ucast c) OR ucast d = g4_bytes d c b a"
  by (simp add: g4_bytes_def ac_simps)

lemma take_drop_map: "j + n \<le> length xs \<Longrightarrow> take n (drop j xs) = map (\<lambda>k. xs ! (j + k)) [0..<n]"
  by (rule nth_equalityI) auto

lemma upt8: "[0..<8] = [0, 1, 2, 3, 4, 5, 6, 7]"
  by (simp add: upt_rec)

lemma fips_word:
  assumes "j + 8 \<le> length x"
  shows "of_nat (be_val (take 8 (drop j x))) =
    U64 (g4_bytes (x ! (j + 3)) (x ! (j + 2)) (x ! (j + 1)) (x ! j)) (g4_bytes (x ! (j + 7)) (x ! (j + 6)) (x ! (j + 5)) (x ! (j + 4)))"
    (is "_ = ?w")
proof -
  have "int (be_val (take 8 (drop j x))) = uint ?w"
    by (simp add: uint_U64 uint_g4 take_drop_map [OF assms] upt8 be_val_def)
  then have "of_int (int (be_val (take 8 (drop j x)))) = ?w" by simp
  then show ?thesis by simp
qed

definition words_of :: "u32 list \<Rightarrow> u64 list" where
  "words_of s = map (\<lambda>i. U64 (s ! (2 * i)) (s ! (2 * i + 1))) [0..<8]"

context word64
begin

definition window :: "(nat \<Rightarrow> u64) \<Rightarrow> 'v list \<Rightarrow> nat \<Rightarrow> bool" where
  "window W w i \<longleftrightarrow> length w = 16 \<and> (\<forall>k < 16. val (w ! ((i + k) mod 16)) = W (i + k))"

lemma window_nth: "window W w i \<Longrightarrow> k < 16 \<Longrightarrow> val (w ! ((i + k) mod 16)) = W (i + k)"
  by (simp add: window_def)

lemma window_step:
  assumes "window W w i" and "val x = W (i + 16)"
  shows "window W (w[i mod 16 := x]) (Suc i)"
proof -
  have "val (w[i mod 16 := x] ! ((Suc i + k) mod 16)) = W (Suc i + k)" if k: "k < 16" for k
  proof (cases "k = 15")
    case True
    then have "(Suc i + k) mod 16 = i mod 16" by simp
    then show ?thesis using True assms by (simp add: window_def add.commute)
  next
    case False
    have "(Suc i + k) mod 16 \<noteq> i mod 16"
      using False k mod_eq_dvd_iff_nat [of i "Suc i + k" 16] by (auto dest: dvd_imp_le)
    moreover have "val (w ! ((i + Suc k) mod 16)) = W (i + Suc k)"
      using window_nth [OF assms(1), of "Suc k"] False k by simp
    ultimately show ?thesis by simp
  qed
  then show ?thesis using assms(1) by (simp add: window_def)
qed

lemma round_sim:
  assumes "window (fips_w m) w i" and "length v = 8" and "i < 80"
  shows "window (fips_w m) (fst (sha512_round ops (w, v) i)) (Suc i) \<and>
    length (snd (sha512_round ops (w, v) i)) = 8 \<and>
    map val (snd (sha512_round ops (w, v) i)) = fips_round (fips_w m) (map val v) i"
proof -
  obtain a b c d e f g h where v: "v = [a, b, c, d, e, f, g, h]"
    using assms(2) by (auto simp: length_Suc_conv numeral_eq_Suc)
  note w' = window_nth [OF assms(1), of 0, simplified] window_nth [OF assms(1), of 1, simplified]
    window_nth [OF assms(1), of 9, simplified] window_nth [OF assms(1), of 14, simplified]
  have "fips_w m (i + 16) = fips_w m i + fips_s0 (fips_w m (Suc i)) + fips_w m (i + 9) + fips_s1 (fips_w m (i + 14))"
    by (subst fips_w.simps) (simp add: ac_simps)
  then have win: "window (fips_w m) (fst (sha512_round ops (w, v) i)) (Suc i)"
    unfolding v sha512_round_def Let_def list.case prod.case fst_conv
    by (intro window_step [OF assms(1)]) (simp add: laws w' fips_s0_def fips_s1_def xor.assoc)
  show ?thesis
    using assms(3) win by (simp add: v sha512_round_def fips_round_def Let_def laws w' xor.assoc)
qed

lemma rounds_sim:
  assumes "window (fips_w m) w 0" and "length v = 8" and "n \<le> 80"
  shows "window (fips_w m) (fst (foldl (sha512_round ops) (w, v) [0..<n])) n \<and>
    length (snd (foldl (sha512_round ops) (w, v) [0..<n])) = 8 \<and>
    map val (snd (foldl (sha512_round ops) (w, v) [0..<n])) = foldl (fips_round (fips_w m)) (map val v) [0..<n]"
  using assms(3)
proof (induction n)
  case 0
  then show ?case using assms by simp
next
  case (Suc n)
  obtain w' v' where wv: "foldl (sha512_round ops) (w, v) [0..<n] = (w', v')" by fastforce
  show ?case using Suc round_sim [of m w' n v'] by (simp add: wv)
qed

lemma block_val:
  assumes "length blk = 128"
  shows "sha512_block ops s blk = concat (map (\<lambda>v. [ucast (drop_bit 32 v), ucast v]) (fips_block (words_of s) blk))"
proof -
  let ?w = "map (\<lambda>i. load64 ops blk (8 * i)) [0..<16]" and ?v = "map (LDH ops s) [0..<8]"
  define v where "v = snd (foldl (sha512_round ops) (?w, ?v) [0..<80])"
  have "window (fips_w (fips_words blk)) ?w 0"
    unfolding window_def
  proof (intro conjI allI impI)
    fix k :: nat assume "k < 16"
    then show "val (?w ! ((0 + k) mod 16)) = fips_w (fips_words blk) (0 + k)"
      using fips_word [of "8 * k" blk] assms
      by (simp add: load64_def set_law be_word_g4 fips_w.simps [of _ k] fips_words_def)
  qed simp
  from rounds_sim [OF this, of ?v 80]
  have v: "length v = 8" "map val v = foldl (fips_round (fips_w (fips_words blk))) (words_of s) [0..<80]"
    by (simp_all add: v_def words_of_def LDH_def set_law comp_def)
  have "map (\<lambda>i. STH ops s (v ! i) i) [0..<8] =
      map (\<lambda>v. [ucast (drop_bit 32 v), ucast v]) (map2 (+) (words_of s) (map val v))"
    by (rule nth_equalityI) (auto simp: STH_def LDH_def Let_def laws words_of_def v(1))
  then show ?thesis
    unfolding sha512_block_def fips_block_def v(2) [symmetric] v_def [symmetric] Let_def by simp
qed

end

section \<open>Messages\<close>

text \<open>A hash state as the array of halves.\<close>

definition halves :: "u64 list \<Rightarrow> u32 list" where
  "halves h = concat (map (\<lambda>v. [ucast (drop_bit 32 v), ucast v]) h)"

lemma halves_nth: "i < length h \<Longrightarrow> halves h ! (2 * i) = ucast (drop_bit 32 (h ! i)) \<and> halves h ! (2 * i + 1) = ucast (h ! i)"
proof (induction h arbitrary: i)
  case Nil
  then show ?case by simp
next
  case (Cons v h)
  then show ?case by (cases i) (auto simp: halves_def)
qed

lemma words_of_halves: "length h = 8 \<Longrightarrow> words_of (halves h) = h"
  by (rule nth_equalityI) (simp_all add: words_of_def halves_nth [simplified] U64_split)

lemma length_fips_block [simp]: "length h = 8 \<Longrightarrow> length (fips_block h blk) = 8"
proof -
  have "length (foldl (fips_round w) v ts) = length v" for w v ts
    by (induction ts arbitrary: v) (auto simp: fips_round_def Let_def split: list.split)
  then show "length h = 8 \<Longrightarrow> length (fips_block h blk) = 8" by (simp add: fips_block_def)
qed

lemma length_fips_blocks [simp]: "length h = 8 \<Longrightarrow> length (foldl fips_block h bs) = 8"
  by (induction bs arbitrary: h) simp_all

lemma bytes_of_word: "be_bytes 8 (unat v) = be4 (ucast (drop_bit 32 v)) @ be4 (ucast (v :: u64))"
proof -
  have b: "of_nat (unat v div 256 ^ j) = (ucast (drop_bit (8 * j) v) :: u8)" for j
  proof -
    have "unat v div 256 ^ j = unat (drop_bit (8 * j) v)"
      by (simp only: unat_drop_bit_eq) (simp add: drop_bit_eq_div power_mult)
    then show ?thesis by simp
  qed
  show ?thesis
    unfolding be_bytes_def b be4_def upt8
    by (simp add: upt_rec) (auto simp: bit_simps intro!: bit_word_eqI)
qed

lemma long_length:
  assumes "n < 2 ^ 61"
  shows "be_bytes 16 (8 * n) = replicate 8 0 @ be_bytes 8 (8 * n)"
proof (rule nth_equalityI)
  fix i assume "i < length (be_bytes 16 (8 * n))"
  then have i: "i < 16" by (simp add: be_bytes_def)
  show "be_bytes 16 (8 * n) ! i = (replicate 8 0 @ be_bytes 8 (8 * n)) ! i"
  proof (cases "i < 8")
    case True
    then have "(256 :: nat) ^ 8 \<le> 256 ^ (15 - i)" by (intro power_increasing) auto
    then have "8 * n div 256 ^ (15 - i) = 0" using assms by (intro div_less) simp
    then show ?thesis using True i by (simp add: be_bytes_def nth_append)
  next
    case False
    then have "i - 8 < 8" and "7 - (i - 8) = 15 - i" using i by auto
    then show ?thesis using i False by (simp add: be_bytes_def nth_append)
  qed
qed (simp add: be_bytes_def)

context word64
begin

lemma halves_block: "length h = 8 \<Longrightarrow> length blk = 128 \<Longrightarrow> sha512_block ops (halves h) blk = halves (fips_block h blk)"
  by (simp only: block_val words_of_halves) (simp only: halves_def)

lemma get_halves: "length h = 8 \<Longrightarrow> sha512_get ops (halves h) 0 64 = concat (map (\<lambda>v. be_bytes 8 (unat v)) h)"
proof -
  assume h: "length h = 8"
  have "map (\<lambda>i. store64 ops (LDH ops (halves h) i)) [0..<8] = map (\<lambda>v. be_bytes 8 (unat v)) h"
    using h by (intro nth_equalityI)
      (simp_all add: store64_def LDH_def laws halves_nth [simplified] bytes_of_word del: set_law, simp add: laws)
  moreover have "length (concat (map (\<lambda>v. be_bytes 8 (unat v)) h)) = 64"
    using h by (simp add: length_concat comp_def be_bytes_def sum_list_triv)
  ultimately show ?thesis by (simp add: sha512_get_def)
qed

text \<open>The message is \<open>a @ r\<close>, the blocks of \<open>a\<close> are hashed and \<open>r\<close> is at the start of the buffer.\<close>

lemma final_val:
  assumes m: "m = a @ r" "128 dvd length a" "length r < 128" and b: "take (length r) blk = r"
    and n: "length m < 2 ^ 32"
  shows "sha512_get ops (sha512_final ops (halves (foldl fips_block fips_h0 (blocks 128 a))) blk (of_nat (length m))) 0 64
    = fips_sha512 m"
proof -
  define h where "h = foldl fips_block fips_h0 (blocks 128 a)"
  have h: "length h = 8" by (simp add: h_def fips_h0_def)
  define f where "f = be4 (drop_bit 29 (of_nat (length m))) @ be4 (push_bit 3 (of_nat (length m)))"
  have lf: "length f = 8" by (simp add: f_def)
  obtain q where q: "length a = 128 * q" using m(2) by blast
  have last: "unat (of_nat (length m) AND 127 :: u32) = length r"
  proof -
    have "of_nat (length m) AND 127 = take_bit 7 (of_nat (length m) :: u32)"
      by (simp add: take_bit_eq_mask mask_eq_exp_minus_1)
    then have "unat (of_nat (length m) AND 127 :: u32) = length m mod 128"
      using n by (simp only: unsigned_take_bit_eq) (simp add: take_bit_eq_mod unat_of_nat)
    then show ?thesis using m q by simp
  qed
  have bits: "be_bytes 16 (8 * length m) = replicate 8 0 @ f"
    using n length_field [of "length m"] by (simp add: long_length f_def)
  have pad: "fips_pad m = a @ (r @ [0x80] @ replicate (if length r \<le> 111 then 111 - length r else 239 - length r) 0 @ replicate 8 0 @ f)"
    using pad_zeros [of 128 "length m" "length r" 111] m bits by (simp add: fips_pad_def)
  let ?t = "(take (length r) blk @ replicate (128 - length r) 0)[length r := 0x80]"
  have t: "?t = r @ [0x80] @ replicate (127 - length r) 0"
    using m(3) by (cases "128 - length r") (auto simp: b list_update_append)
  have spec: "fips_sha512 m = concat (map (\<lambda>v. be_bytes 8 (unat v)) (foldl fips_block h
      (blocks 128 (r @ [0x80] @ replicate (if length r \<le> 111 then 111 - length r else 239 - length r) 0 @ replicate 8 0 @ f))))"
    unfolding fips_sha512_def pad blocks_append [OF m(2)] by (simp add: h_def)
  show ?thesis
  proof (cases "length r \<le> 111")
    case True
    let ?b = "r @ [0x80] @ replicate (111 - length r) 0 @ replicate 8 0 @ f"
    have "replicate (127 - length r) (0 :: u8) = replicate (111 - length r) 0 @ replicate 8 0 @ replicate 8 0"
      using True by (simp flip: replicate_add)
    then have "?t = (r @ [0x80] @ replicate (111 - length r) 0 @ replicate 8 0) @ replicate 8 0" unfolding t by simp
    moreover have "length (r @ [0x80] @ replicate (111 - length r) 0 @ replicate 8 0) = 120" using True by simp
    ultimately have "take 120 ?t = r @ [0x80] @ replicate (111 - length r) 0 @ replicate 8 0"
      by (metis append_eq_conv_conj)
    then have "take 120 ?t @ f = ?b" by simp
    moreover have "length ?b = 128" using True lf by simp
    ultimately show ?thesis
      using True h unfolding spec sha512_final_def last Let_def h_def [symmetric]
      by (simp add: f_def [symmetric] halves_block get_halves blocks_one)
  next
    case False
    let ?b1 = "r @ [0x80] @ replicate (127 - length r) 0" and ?b2 = "replicate 120 0 @ f"
    have l: "length ?b1 = 128" "length ?b2 = 128" using m(3) lf by simp_all
    have "replicate (239 - length r) (0 :: u8) @ replicate 8 0 = replicate (127 - length r) 0 @ replicate 120 0"
      using m(3) by (simp flip: replicate_add)
    then have z: "replicate (239 - length r) 0 @ replicate 8 0 @ f = replicate (127 - length r) 0 @ replicate 120 0 @ f"
      by (metis append.assoc)
    have "blocks 128 (r @ [0x80] @ replicate (239 - length r) 0 @ replicate 8 0 @ f) = [?b1, ?b2]"
      using blocks_append [of 128 ?b1 ?b2] blocks_one [OF l(1)] blocks_one [OF l(2)] l
      by (simp add: z)
    then show ?thesis
      using False h l unfolding spec sha512_final_def last Let_def h_def [symmetric] t
      by (simp add: f_def [symmetric] halves_block get_halves)
  qed
qed

end

lemma initial_halves: "sha512_initial_state = halves fips_h0"
  unfolding sha512_initial_state_def fips_h0_def halves_def by (simp add: drop_bit_eq_div)

end
