(* ===== verification/Edsign.thy ===== *)
theory Edsign
  imports Ed25519 Sha512
begin

text \<open>
  Ed25519 signatures, \<open>x25519bench/ed25519/edsign.c\<close>, over the curve (theory Ed25519), the scalars modulo
  the group order (theory Fprime) and SHA-512 (theory Sha512, either build). Shown: \<open>hash_with_prefix\<close> hashes prefix and message
  as FIPS 180-4 says, whatever the split into blocks; a signature is RFC 8032's pair \<open>(R, z a + k)\<close>, and
  verification is a total function that accepts exactly the strings it should by the code's own comparison.
\<close>

section \<open>The code\<close>

definition ed25519_order :: bytes where
  "ed25519_order =
    [0xed, 0xd3, 0xf5, 0x5c, 0x1a, 0x63, 0x12, 0x58] @ [0xd6, 0x9c, 0xf7, 0xa2, 0xde, 0xf9, 0xde, 0x14] @
    [0x00, 0x00, 0x00, 0x00, 0x00, 0x00, 0x00, 0x00] @ [0x00, 0x00, 0x00, 0x00, 0x00, 0x00, 0x00, 0x10]"

definition expand_key :: "'v word_ops \<Rightarrow> bytes \<Rightarrow> bytes" where
  "expand_key ops secret =
     ed25519_prepare (sha512_get ops (sha512_final ops sha512_initial_state secret 32) 0 64)"

definition upp :: "bytes \<Rightarrow> ed25519_pt \<times> u8" where
  "upp packed = (case ed25519_try_unpack packed of (x, y, ok) \<Rightarrow> (ed25519_project x y, ok))"

definition pp :: "ed25519_pt \<Rightarrow> bytes" where
  "pp p = (case ed25519_unproject p of (x, y) \<Rightarrow> ed25519_pack x y)"

definition sm_pack :: "bytes \<Rightarrow> bytes" where
  "sm_pack k = pp (ed25519_smult ed25519_base k)"

definition edsign_sec_to_pub :: "'v word_ops \<Rightarrow> bytes \<Rightarrow> bytes" where
  "edsign_sec_to_pub ops secret = sm_pack (take 32 (expand_key ops secret))"

text \<open>The whole blocks of the message, and what is left of it.\<close>

function hash_blocks :: "'v word_ops \<Rightarrow> u32 list \<Rightarrow> bytes \<Rightarrow> u32 list \<times> bytes" where
  "hash_blocks ops s m =
     (if length m < 128 then (s, m) else hash_blocks ops (sha512_block ops s (take 128 m)) (drop 128 m))"
  by pat_completeness auto
termination by (relation "measure (\<lambda>(ops, s, m). length m)") auto

declare hash_blocks.simps [simp del]

definition prefix_digest :: "'v word_ops \<Rightarrow> bytes \<Rightarrow> nat \<Rightarrow> bytes \<Rightarrow> bytes" where
  "prefix_digest ops init_block prefix_size message =
     (let len = length message;
          s = (if len < 128 \<and> len + prefix_size < 128
               then sha512_final ops sha512_initial_state (blit init_block prefix_size message) (of_nat (len + prefix_size))
               else let blk = blit init_block prefix_size (take (128 - prefix_size) message);
                        (s, rest) = hash_blocks ops (sha512_block ops sha512_initial_state blk) (drop (128 - prefix_size) message)
                    in sha512_final ops s rest (of_nat (len + prefix_size)))
      in sha512_get ops s 0 64)"

definition hash_with_prefix :: "'v word_ops \<Rightarrow> bytes \<Rightarrow> nat \<Rightarrow> bytes \<Rightarrow> bytes option" where
  "hash_with_prefix ops init_block prefix_size message =
     fprime_from_bytes (prefix_digest ops init_block prefix_size message) ed25519_order"

text \<open>The local \<open>block\<close>: the part after the prefix is written before it is read.\<close>

definition generate_k :: "'v word_ops \<Rightarrow> bytes \<Rightarrow> bytes \<Rightarrow> bytes option" where
  "generate_k ops kgen_key message = hash_with_prefix ops (take 32 kgen_key @ replicate 96 0) 32 message"

definition hash_message :: "'v word_ops \<Rightarrow> bytes \<Rightarrow> bytes \<Rightarrow> bytes \<Rightarrow> bytes option" where
  "hash_message ops r a m = hash_with_prefix ops (take 32 r @ take 32 a @ replicate 64 0) 64 m"

definition edsign_sign :: "'v word_ops \<Rightarrow> bytes \<Rightarrow> bytes \<Rightarrow> bytes \<Rightarrow> bytes option" where
  "edsign_sign ops pub secret message =
     (let expanded = expand_key ops secret in
      Option.bind (generate_k ops (drop 32 expanded) message) (\<lambda>k.
      let r = sm_pack k in
      Option.bind (hash_message ops r pub message) (\<lambda>z.
      Option.bind (fprime_from_bytes (take 32 expanded) ed25519_order) (\<lambda>e.
      Option.bind (fprime_mul z e ed25519_order) (\<lambda>s.
      Some (r @ fprime_add s k ed25519_order))))))"

definition edsign_verify :: "'v word_ops \<Rightarrow> bytes \<Rightarrow> bytes \<Rightarrow> bytes \<Rightarrow> u8 option" where
  "edsign_verify ops signature pub message =
     Option.bind (hash_message ops signature pub message) (\<lambda>z.
     let lhs = sm_pack (take 32 (drop 32 signature)); (p, ok1) = upp pub; p = ed25519_smult p z;
         (q, ok2) = upp (take 32 signature); p = ed25519_add p q; rhs = pp p
     in Some (1 AND ok1 AND ok2 AND f25519_eq lhs rhs))"

section \<open>Hashing\<close>

context word64
begin

lemma hash_blocks_val:
  assumes "length h = 8"
  shows "hash_blocks ops (halves h) m = (halves (foldl fips_block h (blocks 128 m)), drop (128 * (length m div 128)) m)"
  using assms
proof (induction "length m" arbitrary: h m rule: less_induct)
  case less
  show ?case
  proof (cases "length m < 128")
    case False
    then have "hash_blocks ops (halves (fips_block h (take 128 m))) (drop 128 m) =
        (halves (foldl fips_block (fips_block h (take 128 m)) (blocks 128 (drop 128 m))),
         drop (128 * (length (drop 128 m) div 128)) (drop 128 m))"
      using less by (intro less.hyps) simp_all
    moreover have "length m div 128 = Suc ((length m - 128) div 128)" using False by (simp add: le_div_geq)
    ultimately show ?thesis
      using False less.prems by (simp add: hash_blocks.simps [of ops _ m] blocks.simps [of 128 m] halves_block add.commute)
  qed (use less in \<open>simp add: hash_blocks.simps [of ops _ m]\<close>)
qed

lemma prefix_digest_val:
  assumes "length b = 128" and "0 < n" and "n < 128" and "length m + n < 2 ^ 32"
  shows "prefix_digest ops b n m = fips_sha512 (take n b @ m)"
proof (cases "length m + n < 128")
  case True
  have "sha512_get ops (sha512_final ops (halves (foldl fips_block fips_h0 (blocks 128 []))) (blit b n m) (of_nat (length (take n b @ m)))) 0 64
      = fips_sha512 (take n b @ m)"
    by (rule final_val [of _ "[]" "take n b @ m"]) (use assms True in \<open>simp_all add: blit_def\<close>)
  then show ?thesis using True assms(1,3) by (simp add: prefix_digest_def Let_def initial_halves add.commute)
next
  case False
  define a where "a = take n b @ take (128 - n) m"
  define t where "t = drop (128 - n) m"
  define k where "k = 128 * (length t div 128)"
  have a: "length a = 128" "blit b n (take (128 - n) m) = a" using False assms by (auto simp: a_def blit_def)
  have m: "take n b @ m = (a @ take k t) @ drop k t" by (simp only: a_def t_def append.assoc append_take_drop_id)
  have k: "k \<le> length t" "length (drop k t) < 128" by (simp_all add: k_def)
  have bl: "blocks 128 (a @ take k t) = a # blocks 128 t"
  proof -
    have "blocks 128 (take k t @ drop k t) = blocks 128 (take k t)"
      using k by (subst blocks_append) (simp_all add: k_def)
    then show ?thesis using a(1) by (simp add: blocks_append blocks_one)
  qed
  have "sha512_get ops (sha512_final ops (halves (foldl fips_block fips_h0 (blocks 128 (a @ take k t)))) (drop k t) (of_nat (length (take n b @ m)))) 0 64
      = fips_sha512 (take n b @ m)"
    by (rule final_val [OF m]) (use assms a k in \<open>simp_all add: k_def\<close>)
  moreover have "length fips_h0 = 8" by (simp add: fips_h0_def)
  ultimately show ?thesis
    using False assms a
    by (simp add: prefix_digest_def Let_def initial_halves t_def [symmetric] halves_block hash_blocks_val k_def [symmetric] bl add.commute)
qed

end

section \<open>The group order\<close>

definition group_order :: int where
  "group_order = 2 ^ 252 + 27742317777372353535851937790883648493"

lemma order_value: "bval ed25519_order = group_order"
  by (simp add: ed25519_order_def group_order_def)

lemma order_ok: "modulus_ok ed25519_order"
  unfolding modulus_ok_def order_value by (simp add: group_order_def ed25519_order_def)

section \<open>Validity of points\<close>

lemma fe_self: "length a = 32 \<Longrightarrow> fe a (bval a)"
  by (simp add: fe_def eqp_refl)

lemma fe_length: "fe a u \<Longrightarrow> length a = 32"
  by (simp add: fe_def)

lemma field_lengths [simp]:
  "length a = 32 \<Longrightarrow> length b = 32 \<Longrightarrow> length (f25519_add a b) = 32"
  "length a = 32 \<Longrightarrow> length b = 32 \<Longrightarrow> length (f25519_sub a b) = 32"
  "length a = 32 \<Longrightarrow> length b = 32 \<Longrightarrow> length (f25519_mul_distinct a b) = 32"
  "length a = 32 \<Longrightarrow> length (f25519_neg a) = 32"
  "length a = 32 \<Longrightarrow> length (f25519_inv_distinct a) = 32"
  "length a = 32 \<Longrightarrow> length (f25519_normalize a) = 32"
  using fe_self [of a] fe_self [of b]
  by (auto intro: fe_length fe_ops fe_neg fe_inv fe_normalize [THEN conjunct1])

lemma valid_ops:
  assumes "pt_valid P" and "pt_valid Q"
  shows "pt_valid (ed25519_add P Q)" "pt_valid (ed25519_double P)"
proof -
  have k: "length ed25519_k = 32" by (simp add: ed25519_k_def)
  show "pt_valid (ed25519_add P Q)"
    using assms k by (simp add: pt_valid_def ed25519_add_def Let_def)
  show "pt_valid (ed25519_double P)"
    using assms by (simp add: pt_valid_def ed25519_double_def Let_def)
qed

lemma exp_bit_01: "exp_bit e i = 0 \<or> exp_bit e i = 1"
proof -
  have "exp_bit e i = (if bit (e ! (i div 8)) (i mod 8) then 1 else 0)"
  proof (rule bit_word_eqI)
    fix n show "bit (exp_bit e i) n = bit (if bit (e ! (i div 8)) (i mod 8) then 1 else 0 :: u8) n"
      by (cases n) (auto simp: exp_bit_def bit_simps)
  qed
  then show ?thesis by simp
qed

lemma valid_smult:
  assumes "pt_valid P"
  shows "pt_valid (ed25519_smult P e)"
proof -
  have "pt_valid r \<Longrightarrow> pt_valid (ed_smult_loop P e i r)" for i r
  proof (induction i arbitrary: r)
    case (Suc i)
    then have "pt_valid (ed_select (ed25519_double r) (ed25519_add (ed25519_double r) P) (exp_bit e i))"
      using assms by (simp add: ed_select_val [OF _ _ exp_bit_01] valid_ops)
    then show ?case by (simp add: Let_def Suc.IH)
  qed simp
  moreover have "pt_valid ed25519_neutral" by (simp add: pt_valid_def ed25519_neutral_def)
  ultimately show ?thesis by (simp add: ed25519_smult_def)
qed

lemma valid_base: "pt_valid ed25519_base"
  using base_point names_valid by blast

lemma pp_length: "pt_valid P \<Longrightarrow> length (pp P) = 32"
proof -
  assume "pt_valid P"
  then have "length (fst (ed25519_unproject P)) = 32" "length (snd (ed25519_unproject P)) = 32"
    by (simp_all add: pt_valid_def ed25519_unproject_def Let_def)
  then show ?thesis
    using pack_val [OF fe_self fe_self] by (cases "ed25519_unproject P") (auto simp: pp_def)
qed

lemma sm_pack_length [simp]: "length (sm_pack k) = 32"
  by (simp add: sm_pack_def pp_length valid_smult valid_base)

lemma upp_val:
  assumes "length c = 32"
  shows "pt_valid (fst (upp c)) \<and> (snd (upp c) = 0 \<or> snd (upp c) = 1)"
proof -
  obtain x y ok where u: "ed25519_try_unpack c = (x, y, ok)" by (metis surj_pair)
  from unpack_val [OF assms u] obtain v w Q where "fe x v" "fe y w" "ok = (if Q then 1 else 0)" by blast
  then have "length x = 32" "length y = 32" "ok = 0 \<or> ok = 1" by (simp_all add: fe_def)
  then show ?thesis using fe_one(2) by (auto simp: upp_def u pt_valid_def ed25519_project_def fe_def)
qed

section \<open>Keys and scalars\<close>

lemma prepare_split: "32 \<le> length h \<Longrightarrow> take 32 (ed25519_prepare h) = ed25519_prepare (take 32 h) \<and> drop 32 (ed25519_prepare h) = drop 32 h"
  by (simp add: ed25519_prepare_def Let_def take_update_swap)

lemma length_fips [simp]: "length (fips_sha512 m) = 64"
  by (simp add: fips_sha512_def fips_h0_def length_concat comp_def be_bytes_def sum_list_triv)

lemma order_from_bytes:
  "\<exists>c. fprime_from_bytes x ed25519_order = Some c \<and> normal ed25519_order c \<and> bval c = bval x mod group_order"
  using from_bytes_val [OF order_ok, of x] by (simp add: computes_def order_value)

text \<open>The reductions modulo the group order always end, so a verification does.\<close>

lemma edsign_verify_total: "\<exists>v. edsign_verify ops sig pub m = Some v"
proof -
  obtain z where "hash_message ops sig pub m = Some z"
    unfolding hash_message_def hash_with_prefix_def using order_from_bytes by blast
  then show ?thesis by (simp add: edsign_verify_def case_prod_beta Let_def)
qed

context word64
begin

lemma expand_key_val:
  assumes "length secret = 32"
  shows "expand_key ops secret = ed25519_prepare (fips_sha512 secret)"
proof -
  have "sha512_get ops (sha512_final ops (halves (foldl fips_block fips_h0 (blocks 128 []))) secret (of_nat (length secret))) 0 64
      = fips_sha512 secret"
    by (rule final_val [of _ "[]" secret]) (use assms in simp_all)
  then show ?thesis using assms by (simp add: expand_key_def initial_halves)
qed

lemma hash_with_prefix_val:
  assumes "length b = 128" and "0 < n" and "n < 128" and "length m + n < 2 ^ 32"
  shows "hash_with_prefix ops b n m = fprime_from_bytes (fips_sha512 (take n b @ m)) ed25519_order"
  by (simp add: hash_with_prefix_def prefix_digest_val [OF assms])

lemma generate_k_val:
  "length key = 32 \<Longrightarrow> length m < 2 ^ 32 - 64 \<Longrightarrow>
   generate_k ops key m = fprime_from_bytes (fips_sha512 (key @ m)) ed25519_order"
  using hash_with_prefix_val [of "key @ replicate 96 0" 32 m] by (simp add: generate_k_def)

lemma hash_message_val:
  "length a = 32 \<Longrightarrow> 32 \<le> length r \<Longrightarrow> length m < 2 ^ 32 - 64 \<Longrightarrow>
   hash_message ops r a m = fprime_from_bytes (fips_sha512 (take 32 r @ a @ m)) ed25519_order"
  using hash_with_prefix_val [of "take 32 r @ a @ replicate 64 0" 64 m] by (simp add: hash_message_def)

lemma sign_val:
  assumes "length secret = 32" and "length pub = 32" and "length m < 2 ^ 32 - 64"
  defines "h \<equiv> fips_sha512 secret"
  obtains k s where "edsign_sign ops pub secret m = Some (sm_pack k @ s)"
    and "fprime_from_bytes (fips_sha512 (drop 32 h @ m)) ed25519_order = Some k"
    and "normal ed25519_order k" and "bval k = bval (fips_sha512 (drop 32 h @ m)) mod group_order"
    and "normal ed25519_order s"
    and "bval s = (bval (fips_sha512 (sm_pack k @ pub @ m)) * bval (ed25519_prepare (take 32 h)) + bval k) mod group_order"
proof -
  have l: "length h = 64" by (simp add: h_def)
  have e: "expand_key ops secret = ed25519_prepare h" using expand_key_val [OF assms(1)] by (simp add: h_def)
  have sp: "take 32 (ed25519_prepare h) = ed25519_prepare (take 32 h)" "drop 32 (ed25519_prepare h) = drop 32 h"
    using prepare_split [of h] l by simp_all
  obtain k where k: "fprime_from_bytes (fips_sha512 (drop 32 h @ m)) ed25519_order = Some k" "normal ed25519_order k"
    "bval k = bval (fips_sha512 (drop 32 h @ m)) mod group_order"
    using order_from_bytes by blast
  obtain z where z: "fprime_from_bytes (fips_sha512 (sm_pack k @ pub @ m)) ed25519_order = Some z" "normal ed25519_order z"
    "bval z = bval (fips_sha512 (sm_pack k @ pub @ m)) mod group_order"
    using order_from_bytes by blast
  obtain a where a: "fprime_from_bytes (ed25519_prepare (take 32 h)) ed25519_order = Some a" "normal ed25519_order a"
    "bval a = bval (ed25519_prepare (take 32 h)) mod group_order"
    using order_from_bytes by blast
  obtain p where p: "fprime_mul z a ed25519_order = Some p" "normal ed25519_order p" "bval p = bval z * bval a mod group_order"
    using mul_val [OF order_ok z(2) a(2)] by (auto simp: computes_def order_value)
  note s = add_step [OF order_ok p(2) k(2)]
  show thesis
  proof (rule that)
    show "edsign_sign ops pub secret m = Some (sm_pack k @ fprime_add p k ed25519_order)"
      using assms(2,3) l k z a p
      by (simp add: edsign_sign_def e sp Let_def generate_k_val hash_message_val)
    show "bval (fprime_add p k ed25519_order) =
        (bval (fips_sha512 (sm_pack k @ pub @ m)) * bval (ed25519_prepare (take 32 h)) + bval k) mod group_order"
      using s [THEN conjunct2] by (simp only: order_value p(3) z(3) a(3) mod_simps)
  qed (use k s in simp_all)
qed

text \<open>What the verifier compares, and its answer.\<close>

lemma verify_val:
  assumes "length sig = 64" and "length pub = 32" and "length m < 2 ^ 32 - 64"
  obtains z where "fprime_from_bytes (fips_sha512 (take 32 sig @ pub @ m)) ed25519_order = Some z"
    and "normal ed25519_order z" and "bval z = bval (fips_sha512 (take 32 sig @ pub @ m)) mod group_order"
    and "edsign_verify ops sig pub m =
      Some (if snd (upp pub) = 1 \<and> snd (upp (take 32 sig)) = 1 \<and>
          eqp (bval (sm_pack (drop 32 sig))) (bval (pp (ed25519_add (ed25519_smult (fst (upp pub)) z) (fst (upp (take 32 sig))))))
        then 1 else 0)"
proof -
  obtain z where z: "fprime_from_bytes (fips_sha512 (take 32 sig @ pub @ m)) ed25519_order = Some z" "normal ed25519_order z"
    "bval z = bval (fips_sha512 (take 32 sig @ pub @ m)) mod group_order"
    using order_from_bytes by blast
  obtain p ok1 q ok2 where pq: "upp pub = (p, ok1)" "upp (take 32 sig) = (q, ok2)" by (metis surj_pair)
  have v: "pt_valid p" "ok1 = 0 \<or> ok1 = 1" "pt_valid q" "ok2 = 0 \<or> ok2 = 1"
    using upp_val [of pub] upp_val [of "take 32 sig"] assms(1,2) by (simp_all add: pq)
  define rhs where "rhs = pp (ed25519_add (ed25519_smult p z) q)"
  have "length rhs = 32" unfolding rhs_def by (intro pp_length valid_ops valid_smult v)
  then have e: "f25519_eq (sm_pack (drop 32 sig)) rhs = (if eqp (bval (sm_pack (drop 32 sig))) (bval rhs) then 1 else 0)"
    using f25519_eq_val [of "sm_pack (drop 32 sig)" rhs] by (simp add: eqp_def)
  have "edsign_verify ops sig pub m = Some (1 AND ok1 AND ok2 AND f25519_eq (sm_pack (drop 32 sig)) rhs)"
    using assms z(1) by (simp add: edsign_verify_def hash_message_val pq Let_def rhs_def)
  also have "1 AND ok1 AND ok2 AND f25519_eq (sm_pack (drop 32 sig)) rhs =
      (if ok1 = 1 \<and> ok2 = 1 \<and> eqp (bval (sm_pack (drop 32 sig))) (bval rhs) then 1 else 0)"
    unfolding e using v(2,4) by auto
  finally show thesis using that z by (simp add: pq rhs_def)
qed

end

section \<open>Properties\<close>

text \<open>C21. Hashing. For a prefix of 1 to 127 bytes in a 128-byte block and a message of less than 4 GB in
  all, the digest that \<open>hash_with_prefix\<close> takes is SHA-512 of FIPS 180-4 on prefix and message, in the
  native build and in the one with 32-bit pairs alike, and its result is that digest modulo the group
  order, normalised. In particular both builds compute the standard's compression function on every
  block. (Hypotheses: the block's size and what a 32-bit \<open>size_t\<close> holds.)\<close>

theorem edsign_hash:
  assumes "length b = 128" and "0 < n" and "n < 128" and "length m + n < 2 ^ 32"
  defines "d \<equiv> fips_sha512 (take n b @ m)"
  shows "prefix_digest native_ops b n m = d \<and> prefix_digest pair_ops b n m = d \<and>
    hash_with_prefix native_ops b n m = hash_with_prefix pair_ops b n m \<and>
    computes ed25519_order (hash_with_prefix pair_ops b n m) (bval d) \<and>
    (length h = 8 \<longrightarrow> sha512_block native_ops (halves h) b = halves (fips_block h b) \<and>
       sha512_block pair_ops (halves h) b = halves (fips_block h b))"
  using native.prefix_digest_val [OF assms(1-4)] pair.prefix_digest_val [OF assms(1-4)]
    from_bytes_val [OF order_ok, of d] native.halves_block [of h b] pair.halves_block [of h b] assms(1)
  by (simp add: hash_with_prefix_def d_def)

theorem edsign_hash_witness:
  "prefix_digest pair_ops (replicate 128 0) 32 [97, 98, 99] = fips_sha512 (replicate 32 0 @ [97, 98, 99])"
  using edsign_hash [of "replicate 128 0" 32 "[97, 98, 99]" "[]"] by simp

text \<open>C19. Signing. With \<open>h\<close> the SHA-512 of the secret, the signature is \<open>R @ s\<close> of 64 bytes: \<open>R\<close> is the
  encoding of \<open>k\<close> times the base point for \<open>k = H (h[32..63] @ m)\<close> modulo the group order, and \<open>s\<close> is
  \<open>H (R @ A @ m) a + k\<close> modulo the group order, normalised, for the clamped \<open>a\<close> of \<open>h[0..31]\<close> that
  \<open>edsign_sec_to_pub\<close> encodes too. Both builds return it. (Hypotheses: the lengths of the keys, and a
  message whose hashed length a 32-bit \<open>size_t\<close> holds.)\<close>

theorem edsign_sign_rfc8032:
  assumes "length secret = 32" and "length pub = 32" and "length m < 2 ^ 32 - 64"
  defines "h \<equiv> fips_sha512 secret"
  defines "a \<equiv> ed25519_prepare (take 32 h)"
  shows "\<exists>k s. edsign_sign native_ops pub secret m = Some (sm_pack k @ s) \<and>
    edsign_sign pair_ops pub secret m = Some (sm_pack k @ s) \<and>
    length (sm_pack k @ s) = 64 \<and> bval s < group_order \<and>
    length k = 32 \<and> bval k = bval (fips_sha512 (drop 32 h @ m)) mod group_order \<and>
    bval s = (bval (fips_sha512 (sm_pack k @ pub @ m)) * bval a + bval k) mod group_order \<and>
    edsign_sec_to_pub native_ops secret = sm_pack a \<and> edsign_sec_to_pub pair_ops secret = sm_pack a"
proof -
  have p: "edsign_sec_to_pub native_ops secret = sm_pack a" "edsign_sec_to_pub pair_ops secret = sm_pack a"
    using native.expand_key_val [OF assms(1)] pair.expand_key_val [OF assms(1)] prepare_split [of h]
    by (simp_all add: edsign_sec_to_pub_def a_def h_def)
  obtain k s where n: "edsign_sign native_ops pub secret m = Some (sm_pack k @ s)"
    "fprime_from_bytes (fips_sha512 (drop 32 h @ m)) ed25519_order = Some k" "normal ed25519_order k"
    "bval k = bval (fips_sha512 (drop 32 h @ m)) mod group_order" "normal ed25519_order s"
    "bval s = (bval (fips_sha512 (sm_pack k @ pub @ m)) * bval a + bval k) mod group_order"
    using native.sign_val [OF assms(1-3)] unfolding h_def a_def by metis
  obtain k' s' where q: "edsign_sign pair_ops pub secret m = Some (sm_pack k' @ s')"
    "fprime_from_bytes (fips_sha512 (drop 32 h @ m)) ed25519_order = Some k'" "normal ed25519_order s'"
    "bval s' = (bval (fips_sha512 (sm_pack k' @ pub @ m)) * bval a + bval k') mod group_order"
    using pair.sign_val [OF assms(1-3)] unfolding h_def a_def by metis
  have "k' = k" using n(2) q(2) by simp
  moreover from this have "s' = s" using n(5,6) q(3,4) bval_inject [of s' s] by (simp add: normal_def)
  ultimately show ?thesis
    using n q p by (intro exI [of _ k] exI [of _ s]) (simp add: normal_def order_value)
qed

theorem edsign_sign_rfc8032_witness:
  "\<exists>sig. edsign_sign native_ops (replicate 32 0) (replicate 32 0) [] = Some sig \<and>
     edsign_sign pair_ops (replicate 32 0) (replicate 32 0) [] = Some sig \<and> length sig = 64"
  using edsign_sign_rfc8032 [of "replicate 32 0" "replicate 32 0" "[]"] by auto

text \<open>C17. Verification is total and, in both builds, answers 1 exactly when the public key and \<open>R\<close> decode
  and the encodings of \<open>s B\<close> and \<open>z A + R\<close>, with \<open>z = H (R @ A @ m)\<close> modulo the group order, agree modulo
  \<open>p\<close>: the comparison reduces both strings first, so two encodings that differ in the parity bit can agree.
  The range of \<open>s\<close> is not checked: every 32-byte \<open>s\<close> is multiplied out. (Hypotheses: the lengths.)\<close>

theorem edsign_verify_decides:
  assumes "length sig = 64" and "length pub = 32" and "length m < 2 ^ 32 - 64"
  shows "\<exists>z v. edsign_verify native_ops sig pub m = Some v \<and> edsign_verify pair_ops sig pub m = Some v \<and>
    length z = 32 \<and> bval z = bval (fips_sha512 (take 32 sig @ pub @ m)) mod group_order \<and>
    v = (if snd (upp pub) = 1 \<and> snd (upp (take 32 sig)) = 1 \<and>
        eqp (bval (sm_pack (drop 32 sig))) (bval (pp (ed25519_add (ed25519_smult (fst (upp pub)) z) (fst (upp (take 32 sig))))))
      then 1 else 0) \<and>
    f25519_eq (19 # replicate 31 0) (replicate 31 0 @ [0x80]) = 1"
proof -
  obtain z where n: "fprime_from_bytes (fips_sha512 (take 32 sig @ pub @ m)) ed25519_order = Some z"
    "normal ed25519_order z" "bval z = bval (fips_sha512 (take 32 sig @ pub @ m)) mod group_order"
    "edsign_verify native_ops sig pub m =
      Some (if snd (upp pub) = 1 \<and> snd (upp (take 32 sig)) = 1 \<and>
          eqp (bval (sm_pack (drop 32 sig))) (bval (pp (ed25519_add (ed25519_smult (fst (upp pub)) z) (fst (upp (take 32 sig))))))
        then 1 else 0)"
    by (rule native.verify_val [OF assms])
  obtain z' where q: "fprime_from_bytes (fips_sha512 (take 32 sig @ pub @ m)) ed25519_order = Some z'"
    "edsign_verify pair_ops sig pub m =
      Some (if snd (upp pub) = 1 \<and> snd (upp (take 32 sig)) = 1 \<and>
          eqp (bval (sm_pack (drop 32 sig))) (bval (pp (ed25519_add (ed25519_smult (fst (upp pub)) z') (fst (upp (take 32 sig))))))
        then 1 else 0)"
    by (rule pair.verify_val [OF assms])
  have "z' = z" using n(1) q(1) by simp
  moreover have "f25519_eq (19 # replicate 31 0) (replicate 31 0 @ [0x80]) = 1"
    using f25519_eq_val [of "19 # replicate 31 0" "replicate 31 0 @ [0x80]"] by (simp add: bval_append P25519_def)
  ultimately show ?thesis using n q by (intro exI [of _ z] exI) (simp add: normal_def)
qed

theorem edsign_verify_decides_witness:
  "\<exists>v. edsign_verify native_ops (replicate 64 0) (replicate 32 0) [] = Some v \<and>
     edsign_verify pair_ops (replicate 64 0) (replicate 32 0) [] = Some v"
  using edsign_verify_decides [of "replicate 64 0" "replicate 32 0" "[]"] by auto

end
