(* ===== verification/Jobexec.thy ===== *)
theory Jobexec
  imports Jobwire Adler C25519 Edsign Chacha20 Sha256 Jobheap
begin

text \<open>
  Running one job on a node: \<open>job_exec\<close> and \<open>job_out_cap\<close> of \<open>sam-job-tt/llvm/jobexec.c\<close> and
  \<open>job_reply\<close> of \<open>jobnode.c\<close>. The compile-time switches are a record of flags. The compression,
  picture and calculator kernels, which wrap third-party libraries, are
  parameters: functions from the operation, level, input and output room to the output, or
  nothing when the kernel fails. Checksum, hash, cipher, X25519 and signature check are those of the theories imported
  (the signature check in the build with a 64-bit type; the other one gives the same answers). An input of negative length (a request that was drained) is
  \<open>None\<close>; a job that never returns is \<open>None\<close> too.
\<close>

section \<open>The code\<close>

record cfg =
  JOB_COMPRESS :: bool
  JOB_LHA :: bool
  JOB_JPEG :: bool
  JOB_PNG :: bool
  JOB_PPMQ :: bool
  JOB_BC :: bool
  JOB_ROOT :: bool
  JOB_TEST :: bool

type_synonym kernel = "u8 \<Rightarrow> u8 \<Rightarrow> bytes \<Rightarrow> int \<Rightarrow> bytes option"

record kernels =
  ck_compress :: kernel
  lha_kernel :: kernel
  jpeg_kernel :: kernel
  png_kernel :: kernel
  ppmq_kernel :: kernel
  bc_job :: kernel
  lha_out_cap :: "u8 \<Rightarrow> u8 \<Rightarrow> bytes \<Rightarrow> int"
  jpeg_out_cap :: "u8 \<Rightarrow> u8 \<Rightarrow> bytes \<Rightarrow> int"
  png_out_cap :: "u8 \<Rightarrow> u8 \<Rightarrow> bytes \<Rightarrow> int"
  bc_out_cap :: "u8 \<Rightarrow> u8 \<Rightarrow> bytes \<Rightarrow> int"

text \<open>What \<open>OP_CAPS\<close> reports besides the payload cap: the heap's bounds and counters.\<close>

record heap_report =
  r_hiwater :: u32
  r_start :: u32
  r_end :: u32
  r_last :: u32
  r_total :: u32

definition op_in :: "u8 \<Rightarrow> string \<Rightarrow> bool" where
  "op_in op cs \<longleftrightarrow> op \<in> set (map of_char cs)"

definition run_kernel :: "kernel \<Rightarrow> u8 \<Rightarrow> u8 \<Rightarrow> bytes \<Rightarrow> int \<Rightarrow> u8 + bytes" where
  "run_kernel k op level inp cap = (case k op level inp cap of None \<Rightarrow> Inl ST_FAILED | Some out \<Rightarrow> Inr out)"

definition guarded :: "bool \<Rightarrow> bytes \<Rightarrow> u8 + bytes" where
  "guarded ok out = (if ok then Inr out else Inl ST_FAILED)"

definition x25519_job :: "bytes \<Rightarrow> bytes" where
  "x25519_job inp = f25519_normalize (c25519_smult (drop 32 inp) (c25519_prepare (take 32 inp)))"

definition chacha_job :: "bytes \<Rightarrow> bytes" where
  "chacha_job inp = chacha20_xor (drop 48 inp) (take 32 inp) (take 12 (drop 32 inp)) (g4 inp 44)"

definition caps_job_out :: "heap_report \<Rightarrow> bytes" where
  "caps_job_out r = concat (map le32 [of_int JOB_BIG, r_hiwater r, r_start r, r_end r, r_last r, r_total r])"

definition job_exec :: "cfg \<Rightarrow> kernels \<Rightarrow> heap_report \<Rightarrow> u8 \<Rightarrow> u8 \<Rightarrow> bytes \<Rightarrow> int \<Rightarrow> (u8 + bytes) option" where
  "job_exec c k r op level inp cap =
     (let n = int (length inp) in
      if op = OP_ECHO then Some (guarded (n \<le> cap) inp)
      else if op = OP_SHA256 then Some (guarded (32 \<le> cap) (sha256_final (sha256_update sha256_init inp)))
      else if op = OP_X25519 then Some (guarded (n = 64 \<and> 32 \<le> cap) (x25519_job inp))
      else if op = OP_ED25519V then
        (if n < 96 \<or> cap < 1 then Some (Inl ST_FAILED)
         else map_option (\<lambda>v. Inr [if v \<noteq> 0 then 1 else 0])
           (edsign_verify native_ops (take 64 inp) (take 32 (drop 64 inp)) (drop 96 inp)))
      else if op = OP_CHACHA20 then Some (guarded (48 \<le> n \<and> n - 48 \<le> cap) (chacha_job inp))
      else if JOB_COMPRESS c \<and> op_in op ''zgrib'' then Some (run_kernel (ck_compress k) op level inp cap)
      else if JOB_LHA c \<and> op_in op ''56d'' then Some (run_kernel (lha_kernel k) op level inp cap)
      else if JOB_JPEG c \<and> op_in op ''Jj'' then Some (run_kernel (jpeg_kernel k) op level inp cap)
      else if JOB_PNG c \<and> op_in op ''p'' then Some (run_kernel (png_kernel k) op level inp cap)
      else if JOB_PPMQ c \<and> op_in op ''q'' then Some (run_kernel (ppmq_kernel k) op level inp cap)
      else if JOB_BC c \<and> op_in op ''c'' then Some (run_kernel (bc_job k) op level inp cap)
      else if JOB_ROOT c \<and> op = OP_CAPS then Some (guarded (24 \<le> cap) (caps_job_out r))
      else if JOB_TEST c \<and> op_in op ''H'' then None
      else Some (Inl ST_BADOP))"

definition job_out_cap :: "cfg \<Rightarrow> kernels \<Rightarrow> u8 \<Rightarrow> u8 \<Rightarrow> bytes \<Rightarrow> int" where
  "job_out_cap c k op level inp =
     (let n = int (length inp);
          x = (if op = OP_SHA256 \<or> op = OP_X25519 then 32
               else if op = OP_ED25519V then 1
               else if op = OP_CAPS then 24
               else if op = OP_ECHO \<or> op = OP_CHACHA20 then n
               else if op_in op ''zgrb'' then n + cdiv n 8 + 1024
               else if JOB_LHA c \<and> op_in op ''56d'' then lha_out_cap k op level inp
               else if JOB_JPEG c \<and> op_in op ''J'' then jpeg_out_cap k (of_char CHR ''C'') level inp
               else if JOB_JPEG c \<and> op_in op ''j'' then jpeg_out_cap k (of_char CHR ''D'') level inp
               else if JOB_PNG c \<and> op_in op ''p'' then png_out_cap k op level inp
               else if JOB_PPMQ c \<and> op_in op ''q'' then n
               else if JOB_BC c \<and> op_in op ''c'' then bc_out_cap k op level inp
               else JOB_MAX);
          x = (if x < 64 then 64 else x)
      in if JOB_BIG < x then JOB_BIG else x)"

text \<open>The reply of a node: the request's id, the status, the lengths and checksums, the node, and
  the output.\<close>

definition job_reply ::
    "cfg \<Rightarrow> kernels \<Rightarrow> heap_report \<Rightarrow> bytes \<Rightarrow> bytes option \<Rightarrow> u8 \<Rightarrow> int \<Rightarrow> bytes option" where
  "job_reply c k r hdr inp node cap =
     (let areq = (case inp of Some p \<Rightarrow> t4_adler32 p | None \<Rightarrow> 0);
          res = (case inp of
             None \<Rightarrow> Some (Inl ST_TOOBIG)
           | Some p \<Rightarrow>
               if areq \<noteq> g4 hdr H_ADLER then Some (Inl ST_BADREQ)
               else job_exec c k r (hdr ! 2) (hdr ! H_LEVEL) p cap)
      in map_option (\<lambda>res.
           let (st, out) = (case res of Inl st \<Rightarrow> (st, []) | Inr out \<Rightarrow> (ST_OK, out)) in
           [hdr ! 0, hdr ! 1, st] @ le32 (of_nat (length out)) @ le32 areq @
           le32 (if out \<noteq> [] then t4_adler32 out else 1) @ [node] @ out) res)"

section \<open>Output room\<close>

text \<open>What the code relies on from the library kernels: they write no more than the room given.\<close>

definition kernels_fit :: "kernels \<Rightarrow> bool" where
  "kernels_fit k \<longleftrightarrow> (\<forall>f \<in> {ck_compress k, lha_kernel k, jpeg_kernel k, png_kernel k, ppmq_kernel k, bc_job k}.
     \<forall>op level inp cap out. f op level inp cap = Some out \<longrightarrow> int (length out) \<le> cap)"

lemma guarded_Inr [simp]: "guarded b x = Inr out \<longleftrightarrow> b \<and> out = x"
  by (auto simp: guarded_def)

lemma length_sched: "length (foldl sched_step w xs) = length w + length xs"
  by (induction xs arbitrary: w) (auto simp: sched_step_def Let_def)

lemma length_round: "length (round_step w v i) = length v"
  by (auto simp: round_step_def Let_def split: list.splits)

lemma length_rounds: "length (foldl (round_step w) v xs) = length v"
  by (induction xs arbitrary: v) (auto simp: length_round)

lemma length_sha_block [simp]: "length (sha_block h p) = length h"
  by (simp add: sha_block_def Let_def length_rounds)

lemma length_upd: "length (s_h (foldl upd_byte s p)) = length (s_h s)"
  by (induction p arbitrary: s) (auto simp: upd_byte_def Let_def)

lemma length_concat_be4: "length (concat (map be4 ws)) = 4 * length ws"
  by (induction ws) simp_all

lemma length_sha256: "length (sha256_final (sha256_update sha256_init p)) = 32"
  by (simp add: sha256_final_def Let_def length_concat_be4 sha256_update_def length_upd sha256_init_def
      split: prod.splits)

lemma length_normalize [simp]: "length (f25519_normalize x) = 32"
  by (simp add: f25519_normalize_def Let_def)

lemma caps_length [simp]: "length (caps_job_out r) = 24"
  by (simp add: caps_job_out_def)

definition kernel_list :: "kernels \<Rightarrow> kernel list" where
  "kernel_list k = [ck_compress k, lha_kernel k, jpeg_kernel k, png_kernel k, ppmq_kernel k, bc_job k]"

lemma kernel_run_fit:
  assumes "kernels_fit k" and "g \<in> set (kernel_list k)" and "run_kernel g op level inp cap = Inr out"
  shows "int (length out) \<le> cap"
proof -
  have "g op level inp cap = Some out" using assms(3) by (auto simp: run_kernel_def split: option.splits)
  moreover have "g \<in> {ck_compress k, lha_kernel k, jpeg_kernel k, png_kernel k, ppmq_kernel k, bc_job k}"
    using assms(2) by (simp add: kernel_list_def)
  ultimately show ?thesis using assms(1) unfolding kernels_fit_def by metis
qed

text \<open>Every result of a job is an error, a computed output that was checked to fit, or a kernel's.\<close>

lemma job_exec_cases:
  assumes "job_exec c k r op level inp cap = Some (Inr out)"
  shows "int (length out) \<le> cap \<or> (\<exists>g \<in> set (kernel_list k). run_kernel g op level inp cap = Inr out)"
  using assms unfolding job_exec_def Let_def kernel_list_def
  by (auto simp: x25519_job_def chacha_job_def length_sha256 split: if_splits)

lemma job_exec_returns: "\<not> JOB_TEST c \<Longrightarrow> \<exists>res. job_exec c k r op level inp cap = Some res"
proof -
  assume "\<not> JOB_TEST c"
  moreover obtain v where "edsign_verify native_ops (take 64 inp) (take 32 (drop 64 inp)) (drop 96 inp) = Some v"
    using edsign_verify_total by blast
  ultimately show ?thesis by (simp add: job_exec_def Let_def)
qed

lemma job_exec_fits:
  "kernels_fit k \<Longrightarrow> job_exec c k r op level inp cap = Some (Inr out) \<Longrightarrow> int (length out) \<le> cap"
  using job_exec_cases kernel_run_fit by blast

lemma job_out_cap_bounds: "64 \<le> job_out_cap c k op level inp \<and> job_out_cap c k op level inp \<le> JOB_BIG"
  by (simp add: job_out_cap_def Let_def JOB_BIG_def)

text \<open>The operations a node computes itself, on inputs of the right shape.\<close>

definition builtin_ok :: "cfg \<Rightarrow> u8 \<Rightarrow> bytes \<Rightarrow> bool" where
  "builtin_ok c op inp \<longleftrightarrow> op = OP_ECHO \<or> op = OP_SHA256 \<or> (op = OP_X25519 \<and> length inp = 64) \<or>
     (op = OP_ED25519V \<and> 96 \<le> length inp) \<or> (op = OP_CHACHA20 \<and> 48 \<le> length inp) \<or> (op = OP_CAPS \<and> JOB_ROOT c)"

lemma builtin_not_kernel:
  "op_in OP_CAPS ''zgrib'' = False" "op_in OP_CAPS ''56d'' = False" "op_in OP_CAPS ''Jj'' = False"
  "op_in OP_CAPS ''p'' = False" "op_in OP_CAPS ''q'' = False" "op_in OP_CAPS ''c'' = False"
  by (simp_all add: op_in_def OP_CAPS_def)

lemma builtin_completes:
  assumes "builtin_ok c op inp" and "int (length inp) \<le> JOB_BIG"
  shows "\<exists>out. job_exec c k r op level inp (job_out_cap c k op level inp) = Some (Inr out)"
proof -
  obtain v where "edsign_verify native_ops (take 64 inp) (take 32 (drop 64 inp)) (drop 96 inp) = Some v"
    using edsign_verify_total by blast
  with assms show ?thesis unfolding builtin_ok_def
    by (elim disjE) (auto simp: job_exec_def Let_def guarded_def job_out_cap_def wire_ops JOB_BIG_def
        builtin_not_kernel [unfolded OP_CAPS_def])
qed

section \<open>Replies\<close>

lemma adler_empty: "t4_adler32 [] = 1"
  by (simp add: t4_adler32_alt)

lemma hdr_id: "le16 (g2 hdr 0) = [hdr ! 0, hdr ! Suc 0]"
  by (simp add: g2_def byte_fields)

lemma job_reply_form:
  assumes "job_reply c k r hdr (Some p) node cap = Some rep"
  obtains res where
    "res = (if t4_adler32 p \<noteq> g4 hdr H_ADLER then Some (Inl ST_BADREQ)
       else job_exec c k r (hdr ! 2) (hdr ! H_LEVEL) p cap)"
    and "(\<exists>st. res = Some (Inl st) \<and> rep = mk_lrep (g2 hdr 0) st 0 (t4_adler32 p) 1 node) \<or>
      (\<exists>out. res = Some (Inr out) \<and>
        rep = mk_lrep (g2 hdr 0) ST_OK (of_nat (length out)) (t4_adler32 p) (t4_adler32 out) node @ out)"
proof -
  define res where "res = (if t4_adler32 p \<noteq> g4 hdr H_ADLER then Some (Inl ST_BADREQ)
       else job_exec c k r (hdr ! 2) (hdr ! H_LEVEL) p cap)"
  have rep: "map_option (\<lambda>res. let (st, out) = (case res of Inl st \<Rightarrow> (st, []) | Inr out \<Rightarrow> (ST_OK, out)) in
      [hdr ! 0, hdr ! 1, st] @ le32 (of_nat (length out)) @ le32 (t4_adler32 p) @
      le32 (if out \<noteq> [] then t4_adler32 out else 1) @ [node] @ out) res = Some rep"
    using assms by (simp only: job_reply_def res_def Let_def option.case)
  have "(\<exists>st. res = Some (Inl st) \<and> rep = mk_lrep (g2 hdr 0) st 0 (t4_adler32 p) 1 node) \<or>
      (\<exists>out. res = Some (Inr out) \<and>
        rep = mk_lrep (g2 hdr 0) ST_OK (of_nat (length out)) (t4_adler32 p) (t4_adler32 out) node @ out)"
  proof (cases res)
    case None
    with rep show ?thesis by simp
  next
    case (Some x)
    show ?thesis
    proof (cases x)
      case (Inl st)
      with rep Some show ?thesis by (auto simp: mk_lrep_def mk_rep_def hdr_id)
    next
      case (Inr out)
      with rep Some show ?thesis by (auto simp: mk_lrep_def mk_rep_def hdr_id adler_empty)
    qed
  qed
  with that res_def show thesis by blast
qed

lemma job_reply_shape:
  assumes "kernels_fit k" and "0 \<le> cap" and "job_reply c k r hdr (Some p) node cap = Some rep"
  shows "\<exists>st out. rep = mk_lrep (g2 hdr 0) st (of_nat (length out)) (t4_adler32 p) (t4_adler32 out) node @ out \<and>
    int (length out) \<le> cap \<and> (out \<noteq> [] \<longrightarrow> st = ST_OK)"
proof -
  obtain res where res: "res = (if t4_adler32 p \<noteq> g4 hdr H_ADLER then Some (Inl ST_BADREQ)
       else job_exec c k r (hdr ! 2) (hdr ! H_LEVEL) p cap)"
    "(\<exists>st. res = Some (Inl st) \<and> rep = mk_lrep (g2 hdr 0) st 0 (t4_adler32 p) 1 node) \<or>
      (\<exists>out. res = Some (Inr out) \<and>
        rep = mk_lrep (g2 hdr 0) ST_OK (of_nat (length out)) (t4_adler32 p) (t4_adler32 out) node @ out)"
    by (rule job_reply_form [OF assms(3)])
  from res(2) show ?thesis
  proof (elim disjE exE conjE)
    fix st assume "rep = mk_lrep (g2 hdr 0) st 0 (t4_adler32 p) 1 node"
    then show ?thesis using assms(2) by (intro exI [of _ st] exI [of _ "[]"]) (simp add: adler_empty)
  next
    fix out assume "res = Some (Inr out)"
      "rep = mk_lrep (g2 hdr 0) ST_OK (of_nat (length out)) (t4_adler32 p) (t4_adler32 out) node @ out"
    moreover from this(1) res(1) have "job_exec c k r (hdr ! 2) (hdr ! H_LEVEL) p cap = Some (Inr out)"
      by (auto split: if_splits)
    then have "int (length out) \<le> cap" by (rule job_exec_fits [OF assms(1)])
    ultimately show ?thesis by blast
  qed
qed

lemma job_reply_refused: "job_reply c k r hdr None node cap = Some (mk_lrep (g2 hdr 0) ST_TOOBIG 0 0 1 node)"
  by (simp add: job_reply_def mk_lrep_def mk_rep_def hdr_id)

text \<open>The checksum fields of a reply.\<close>

lemma lrep_checksums:
  "g4 (mk_lrep i st n ck out node @ p) 7 = ck"
  "g4 (mk_lrep i st n ck out node @ p) 11 = out"
  by (simp_all add: mk_lrep_def mk_rep_def g4_def le16_def le32_def nth_append byte_fields)

text \<open>What a node answers, as status and output: \<open>None\<close> is a payload it could not take, read away unseen.\<close>

definition node_answer :: "cfg \<Rightarrow> kernels \<Rightarrow> heap_report \<Rightarrow> bytes \<Rightarrow> bytes option \<Rightarrow> int \<Rightarrow> (u8 \<times> bytes) option" where
  "node_answer c k r hdr inp cap =
     (case inp of
        None \<Rightarrow> Some (ST_TOOBIG, [])
      | Some p \<Rightarrow>
          if t4_adler32 p \<noteq> g4 hdr H_ADLER then Some (ST_BADREQ, [])
          else case job_exec c k r (hdr ! 2) (hdr ! H_LEVEL) p cap of
            None \<Rightarrow> None
          | Some (Inl st) \<Rightarrow> Some (st, [])
          | Some (Inr out) \<Rightarrow> Some (ST_OK, out))"

lemma node_answer_fits:
  assumes "kernels_fit k" "0 \<le> cap" "node_answer c k r hdr inp cap = Some (st, out)"
  shows "int (length out) \<le> cap" "out \<noteq> [] \<Longrightarrow> st = ST_OK"
  using assms(2,3) job_exec_fits [OF assms(1)]
  by (auto simp: node_answer_def split: option.splits if_splits sum.splits)

lemma job_reply_answer:
  "job_reply c k r hdr inp node cap = map_option (\<lambda>(st, out).
     mk_lrep (g2 hdr 0) st (of_nat (length out)) (case inp of Some p \<Rightarrow> t4_adler32 p | None \<Rightarrow> 0) (t4_adler32 out) node @ out)
   (node_answer c k r hdr inp cap)"
  by (auto simp: job_reply_def node_answer_def Let_def mk_lrep_def mk_rep_def hdr_id adler_empty split: option.split sum.split)


definition demo_kernels :: kernels where
  "demo_kernels = \<lparr>ck_compress = (\<lambda>_ _ _ _. None), lha_kernel = (\<lambda>_ _ _ _. None),
     jpeg_kernel = (\<lambda>_ _ _ _. None), png_kernel = (\<lambda>_ _ _ _. None),
     ppmq_kernel = (\<lambda>_ _ inp cap. if int (length inp) \<le> cap then Some inp else None), bc_job = (\<lambda>_ _ _ _. None),
     lha_out_cap = (\<lambda>_ _ _. 0), jpeg_out_cap = (\<lambda>_ _ _. 0), png_out_cap = (\<lambda>_ _ _. 0), bc_out_cap = (\<lambda>_ _ _. 0)\<rparr>"

definition demo_cfg :: cfg where
  "demo_cfg = \<lparr>JOB_COMPRESS = False, JOB_LHA = False, JOB_JPEG = False, JOB_PNG = False, JOB_PPMQ = True,
     JOB_BC = False, JOB_ROOT = True, JOB_TEST = False\<rparr>"

definition demo_report :: heap_report where
  "demo_report = \<lparr>r_hiwater = 0, r_start = 0, r_end = 0, r_last = 0, r_total = 0\<rparr>"


text \<open>C32. A payload that did not arrive as it was sent is never run, whatever the operation and the node: one that was too
  big and read away is answered \<open>ST_TOOBIG\<close>, one whose Adler-32 is not the header's \<open>ST_BADREQ\<close>, both with the request's
  id and no output; and the checksum catches every change of a single byte.\<close>

theorem damaged_request_refused:
  assumes "i < length p" and "v \<noteq> p ! i"
  shows "job_reply c k r hdr None node cap = Some (mk_lrep (g2 hdr 0) ST_TOOBIG 0 0 1 node) \<and>
    (t4_adler32 q \<noteq> g4 hdr H_ADLER \<longrightarrow>
       job_reply c k r hdr (Some q) node cap = Some (mk_lrep (g2 hdr 0) ST_BADREQ 0 (t4_adler32 q) 1 node)) \<and>
    (g4 hdr H_ADLER = t4_adler32 p \<longrightarrow>
       job_reply c k r hdr (Some (p[i := v])) node cap = Some (mk_lrep (g2 hdr 0) ST_BADREQ 0 (t4_adler32 (p[i := v])) 1 node))"
proof -
  have bad: "job_reply c k r hdr (Some q) node cap = Some (mk_lrep (g2 hdr 0) ST_BADREQ 0 (t4_adler32 q) 1 node)"
    if "t4_adler32 q \<noteq> g4 hdr H_ADLER" for q
    using that by (simp add: job_reply_answer node_answer_def adler_empty)
  have "t4_adler32 (p[i := v]) \<noteq> t4_adler32 p"
    using adler.damaged_refused [OF assms refl] by simp
  then show ?thesis using bad job_reply_refused by simp
qed

theorem damaged_request_refused_witness:
  "job_reply demo_cfg demo_kernels demo_report (mk_req 7 OP_ECHO 0 0 2 (t4_adler32 [65, 66])) (Some [65, 67]) 0 64 =
     Some (mk_lrep 7 ST_BADREQ 0 (t4_adler32 [65, 67]) 1 0) \<and>
   job_reply demo_cfg demo_kernels demo_report (mk_req 7 OP_ECHO 0 0 2 0) (Some [65, 67]) 0 64 =
     Some (mk_lrep 7 ST_BADREQ 0 (t4_adler32 [65, 67]) 1 0)"
proof -
  have "t4_adler32 [65, 67] \<noteq> 0" by code_simp
  then show ?thesis
    using damaged_request_refused [of 1 "[65, 66]" 67 demo_cfg demo_kernels demo_report
        "mk_req 7 OP_ECHO 0 0 2 (t4_adler32 [65, 66])" 0 64 "[65, 67]"]
      damaged_request_refused [of 1 "[65, 66]" 67 demo_cfg demo_kernels demo_report "mk_req 7 OP_ECHO 0 0 2 0" 0 64 "[65, 67]"]
      req_fields [of 7 OP_ECHO 0 0 2 "t4_adler32 [65, 66]" "[]"] req_fields [of 7 OP_ECHO 0 0 2 0 "[]"] by simp
qed

text \<open>A node always has room for the operations it computes itself: with the room
  \<open>job_out_cap\<close> reserves (64 bytes to 2.5 MB), echo, SHA-256, X25519, Ed25519, ChaCha20 and
  capacity jobs of the right input length always complete with output.\<close>

lemma builtin_jobs_complete:
  assumes "builtin_ok c op inp" and "int (length inp) \<le> JOB_BIG"
  shows "(\<exists>out. job_exec c k r op level inp (job_out_cap c k op level inp) = Some (Inr out)) \<and>
    64 \<le> job_out_cap c k op level inp \<and> job_out_cap c k op level inp \<le> JOB_BIG"
  using builtin_completes [OF assms, of k r level] job_out_cap_bounds [of c k op level inp] by blast

end
