(* ===== verification/Node0.thy ===== *)
theory Node0
  imports Jobexec
begin

text \<open>
  A job on the T425, node 0 of \<open>sam-job-tt/llvm/root.c\<close>: \<open>host\<close> takes an input buffer from the
  heap, \<open>work0\<close> a reply buffer, runs the job inside the heap's job bracket and frees the input,
  \<open>mux\<close> frees the reply once it is sent; \<open>op 'q'\<close> works in one block. The heap calls of the kernel
  are any sequence the kernel makes. Shown: input and reply never overlap, a job the heap cannot
  hold is answered \<open>ST_TOOBIG\<close>, and after the job the heap is what it was before.
\<close>

section \<open>The code\<close>

definition QGAP :: "int \<Rightarrow> int" where
  "QGAP n = int LREP_HDR + 64 + (n div 3 + 8) div 8 * 8"

definition op_q :: "bytes \<Rightarrow> bool" where
  "op_q hdr \<longleftrightarrow> hdr ! 2 = of_char CHR ''q''"

text \<open>\<open>host\<close>: the block for the payload, with room for the reply in front of it for \<open>'q'\<close>.\<close>

definition host_alloc :: "nat \<Rightarrow> nat \<Rightarrow> bytes \<Rightarrow> heap \<Rightarrow> nat option \<times> heap" where
  "host_alloc hs he hdr h =
     (let n = sint (g4 hdr H_LEN); k = (if op_q hdr \<and> 0 < n then QGAP n else 0) in
      if 0 \<le> n \<and> n \<le> JOB_BIG then wrap_malloc hs he (nat (k + (if 0 < n then n else 1))) h
      else (None, h))"

definition report_of :: "nat \<Rightarrow> nat \<Rightarrow> heap \<Rightarrow> heap_report" where
  "report_of hs he h = \<lparr>r_hiwater = of_nat (h_hiwater h), r_start = of_nat hs, r_end = of_nat he,
     r_last = of_nat (h_last h), r_total = of_nat (h_total h)\<rparr>"

text \<open>\<open>work0\<close> with the payload \<open>p\<close> read into the block (or no block): the reply, the block that
  \<open>mux\<close> frees after sending it, and the heap. \<open>kops\<close> are the kernel's heap calls.\<close>

definition work0_room :: "cfg \<Rightarrow> kernels \<Rightarrow> bytes \<Rightarrow> bytes \<Rightarrow> int" where
  "work0_room c k hdr p =
     (if p \<noteq> [] \<and> op_q hdr then int (length p) else job_out_cap c k (hdr ! 2) (hdr ! H_LEVEL) p)"

definition job_bracket :: "nat \<Rightarrow> nat \<Rightarrow> hop list \<Rightarrow> heap \<Rightarrow> heap option" where
  "job_bracket hs he kops h = map_option jobheap_end (heap_run hs he kops (jobheap_begin h))"

definition work0 ::
    "nat \<Rightarrow> nat \<Rightarrow> cfg \<Rightarrow> kernels \<Rightarrow> bytes \<Rightarrow> bytes \<Rightarrow> hop list \<Rightarrow> nat option \<Rightarrow> heap \<Rightarrow>
     (bytes option \<times> nat option \<times> heap) option" where
  "work0 hs he c k hdr p kops in0 h =
     (case in0 of
        None \<Rightarrow>
          map_option (\<lambda>h1. (job_reply c k (report_of hs he h) hdr None 0 0, None, h1)) (job_bracket hs he [] h)
      | Some a \<Rightarrow>
          let cap = work0_room c k hdr p in
          if p \<noteq> [] \<and> op_q hdr then
            map_option (\<lambda>h1. (job_reply c k (report_of hs he h) hdr (Some p) 0 cap, Some a, h1))
              (job_bracket hs he kops h)
          else
            (case wrap_malloc hs he (nat (int LREP_HDR + cap)) h of
               (None, h1) \<Rightarrow>
                 Option.bind (job_bracket hs he [] h1) (\<lambda>h2.
                   map_option (\<lambda>h3. (job_reply c k (report_of hs he h1) hdr None 0 0, None, h3))
                     (wrap_free (Some a) h2))
             | (Some q, h1) \<Rightarrow>
                 Option.bind (job_bracket hs he kops h1) (\<lambda>h2.
                   map_option (\<lambda>h3. (job_reply c k (report_of hs he h1) hdr (Some p) 0 cap, Some q, h3))
                     (wrap_free (Some a) h2))))"

text \<open>The whole way of a node-0 job through the heap.\<close>

definition node0_job ::
    "nat \<Rightarrow> nat \<Rightarrow> cfg \<Rightarrow> kernels \<Rightarrow> bytes \<Rightarrow> bytes \<Rightarrow> hop list \<Rightarrow> heap \<Rightarrow> (bytes option \<times> heap) option" where
  "node0_job hs he c k hdr p kops h =
     (let (in0, h1) = host_alloc hs he hdr h in
      Option.bind (work0 hs he c k hdr p kops in0 h1) (\<lambda>(rep, rep0, h2).
        map_option (\<lambda>h3. (rep, h3)) (wrap_free rep0 h2)))"

section \<open>The heap after a job\<close>

text \<open>A kernel is well behaved on \<open>h\<close> when it frees nothing that was allocated before it.\<close>

definition kernel_heap_ok :: "nat \<Rightarrow> nat \<Rightarrow> hop list \<Rightarrow> heap \<Rightarrow> bool" where
  "kernel_heap_ok hs he kops h \<longleftrightarrow>
     (\<forall>h1. heap_run hs he kops (jobheap_begin h) = Some h1 \<longrightarrow> set (h_live h) \<subseteq> set (h_live h1))"

definition no_job :: "heap \<Rightarrow> bool" where
  "no_job h \<longleftrightarrow> \<not> h_on h \<and> (\<forall>b \<in> set (h_live h). \<not> b_job b)"

lemma bracket_restores:
  assumes "heap_ok he h" and "no_job h" and "kernel_heap_ok hs he kops h" and "job_bracket hs he kops h = Some h'"
  shows "heap_ok he h'" and "no_job h'" and "set (h_live h') = set (h_live h)" and "h_base h' = h_base h"
proof -
  obtain h1 where r: "heap_run hs he kops (jobheap_begin h) = Some h1" "h' = jobheap_end h1"
    using assms(4) by (auto simp: job_bracket_def)
  have "heap_ok he (jobheap_begin h)" using assms(1) by (simp add: jobheap_begin_def)
  from heap_run_step [OF this r(1)] have s: "heap_ok he h1" "h_base h1 = h_base h"
    "{b \<in> set (h_live h1). \<not> b_job b} \<subseteq> set (h_live h)"
    by (auto simp: job_step_def jobheap_begin_def)
  note e = jobheap_end_ok [OF s(1)]
  show "set (h_live h') = set (h_live h)"
    using e(2) s(3) assms(2,3) r by (auto simp: no_job_def kernel_heap_ok_def)
  then show "no_job h'" using e(4) assms(2) r(2) by (simp add: no_job_def)
  show "heap_ok he h'" "h_base h' = h_base h" using e(1,3) s(2) r(2) by simp_all
qed

lemma kernel_nil: "kernel_heap_ok hs he [] h"
  by (simp add: kernel_heap_ok_def jobheap_begin_def)

lemma find_block_only:
  assumes "heap_ok he h" and "b \<in> set (h_live h)"
  shows "find_block (b_addr b) h = Some b"
proof -
  obtain b' where f: "find_block (b_addr b) h = Some b'"
    using assms(2) by (cases "find_block (b_addr b) h") (auto simp: find_block_def find_None_iff)
  moreover have "b' = b"
    using find_block_mem [OF f] assms by (auto simp: heap_ok_def disjoint_blocks_def distinct_map inj_on_def)
  ultimately show ?thesis by simp
qed

lemma free_block:
  assumes "heap_ok he h" and "b \<in> set (h_live h)"
  shows "wrap_free (Some (b_addr b + HB)) h = Some (release b h)"
    and "heap_ok he (release b h)" and "set (h_live (release b h)) = set (h_live h) - {b}"
    and "h_base (release b h) = h_base h" and "no_job h \<Longrightarrow> no_job (release b h)"
proof -
  have inj: "c = b" if "c \<in> set (h_live h)" "b_addr c = b_addr b" for c
    using assms that by (auto simp: heap_ok_def disjoint_blocks_def distinct_map inj_on_def)
  show "wrap_free (Some (b_addr b + HB)) h = Some (release b h)"
    using find_block_only [OF assms] by (simp add: wrap_free_def)
  show "heap_ok he (release b h)" by (rule release_ok [OF assms])
  show "set (h_live (release b h)) = set (h_live h) - {b}" using inj by (auto simp: release_def)
  show "h_base (release b h) = h_base h" "no_job h \<Longrightarrow> no_job (release b h)"
    by (simp_all add: release_def no_job_def)
qed

lemma malloc_block:
  assumes "heap_ok he h" and "no_job h" and "wrap_malloc hs he n h = (Some p, h')"
  obtains b where "p = b_addr b + HB" and "n \<le> b_n b" and "set (h_live h') = insert b (set (h_live h))"
    and "b \<notin> set (h_live h)" and "heap_ok he h'" and "no_job h'" and "h_base h' = h_base h"
proof -
  from malloc_Some [OF assms(1,3)] obtain b where
    b: "h_live h' = b # h_live h" "p = b_addr b + HB" "n \<le> b_n b" "b_job b = h_on h" "h_on h' = h_on h"
      "h_base h' = h_base h"
    by (metis HB_def add_diff_cancel_right' diff_le_mono hb.select_convs)
  have ok: "heap_ok he h'" by (rule heap_ok_malloc [OF assms(1,3)])
  then have "b \<notin> set (h_live h)" using b(1) by (auto simp: heap_ok_def disjoint_blocks_def)
  with that [of b] b ok assms(2) show thesis by (auto simp: no_job_def)
qed

text \<open>The heap a kernel finds: after the input buffer and, unless it works in place, the reply buffer.\<close>

definition kernel_heap :: "nat \<Rightarrow> nat \<Rightarrow> cfg \<Rightarrow> kernels \<Rightarrow> bytes \<Rightarrow> bytes \<Rightarrow> heap \<Rightarrow> heap" where
  "kernel_heap hs he c k hdr p h =
     (let h1 = snd (host_alloc hs he hdr h) in
      if p \<noteq> [] \<and> op_q hdr then h1
      else snd (wrap_malloc hs he (nat (int LREP_HDR + work0_room c k hdr p)) h1))"

definition restored :: "nat \<Rightarrow> heap \<Rightarrow> heap \<Rightarrow> bool" where
  "restored he h h' \<longleftrightarrow> heap_ok he h' \<and> no_job h' \<and> set (h_live h') = set (h_live h) \<and> h_base h' = h_base h"

lemma restored_refl: "heap_ok he h \<Longrightarrow> no_job h \<Longrightarrow> restored he h h"
  by (simp add: restored_def)

lemma restored_fl: "heap_ok he h \<Longrightarrow> restored he h h' \<Longrightarrow> h_fl h' = h_fl h"
  by (rule heap_canonical [of he]) (simp_all add: restored_def)

lemma restored_bracket:
  "heap_ok he h \<Longrightarrow> no_job h \<Longrightarrow> kernel_heap_ok hs he kops h \<Longrightarrow> job_bracket hs he kops h = Some h' \<Longrightarrow> restored he h h'"
  using bracket_restores [of he h hs kops h'] by (simp add: restored_def)

lemma restored_free:
  assumes "restored he g h" and "set (h_live g) = insert b (set (h_live g0))" and "b \<notin> set (h_live g0)"
    and "h_base g = h_base g0" and "wrap_free (Some (b_addr b + HB)) h = Some h'"
  shows "restored he g0 h'"
  using free_block [of he h b] assms by (auto simp: restored_def)

lemma host_alloc_restored:
  assumes "heap_ok he h" and "no_job h" and "host_alloc hs he hdr h = (r, h1)"
  obtains "r = None" "restored he h h1"
  | b where "r = Some (b_addr b + HB)" "set (h_live h1) = insert b (set (h_live h))" "b \<notin> set (h_live h)"
      "heap_ok he h1" "no_job h1" "h_base h1 = h_base h"
proof (cases r)
  case None
  then have "h1 = h" using assms malloc_None by (auto simp: host_alloc_def Let_def split: if_splits)
  with None that(1) assms restored_refl show thesis by simp
next
  case (Some q)
  then obtain n where "wrap_malloc hs he n h = (Some q, h1)"
    using assms(3) by (auto simp: host_alloc_def Let_def split: if_splits)
  from malloc_block [OF assms(1,2) this] Some that(2) show thesis by metis
qed

lemma restored_free_ex:
  assumes "restored he g h" and "set (h_live g) = insert b (set (h_live g0))" and "b \<notin> set (h_live g0)"
    and "h_base g = h_base g0"
  shows "\<exists>h'. wrap_free (Some (b_addr b + HB)) h = Some h' \<and> restored he g0 h'"
proof -
  have "wrap_free (Some (b_addr b + HB)) h = Some (release b h)"
    using assms(1,2) by (intro free_block(1) [of he]) (auto simp: restored_def)
  with restored_free [OF assms] show ?thesis by blast
qed

text \<open>After \<open>work0\<close> only the reply block is left to free.\<close>

lemma work0_restored:
  assumes ok: "heap_ok he h" "no_job h" and ker: "kernel_heap_ok hs he kops (kernel_heap hs he c k hdr p h)"
    and ha: "host_alloc hs he hdr h = (in0, h1)" and w: "work0 hs he c k hdr p kops in0 h1 = Some (rep, rep0, h2)"
  shows "\<exists>h'. wrap_free rep0 h2 = Some h' \<and> restored he h h'"
  using ok ha
proof (cases rule: host_alloc_restored)
  case 1
  then have "job_bracket hs he [] h1 = Some h2" "rep0 = None" using w by (auto simp: work0_def)
  moreover have "heap_ok he h1" "no_job h1" using 1 by (simp_all add: restored_def)
  ultimately have "restored he h1 h2" "rep0 = None" using restored_bracket [OF _ _ kernel_nil] by auto
  with 1 show ?thesis by (auto simp: restored_def wrap_free_def)
next
  case (2 b)
  note b = 2
  show ?thesis
  proof (cases "p \<noteq> [] \<and> op_q hdr")
    case True
    then have "job_bracket hs he kops h1 = Some h2" "rep0 = Some (b_addr b + HB)"
      using w b(1) by (auto simp: work0_def Let_def)
    moreover have "kernel_heap_ok hs he kops h1" using ker True ha by (simp add: kernel_heap_def)
    ultimately have "restored he h1 h2" "rep0 = Some (b_addr b + HB)" using restored_bracket b by auto
    then show ?thesis using restored_free_ex b by blast
  next
    case False
    obtain r h3 where m: "wrap_malloc hs he (nat (int LREP_HDR + work0_room c k hdr p)) h1 = (r, h3)"
      by (metis surj_pair)
    show ?thesis
    proof (cases r)
      case None
      then have "h3 = h1" using m malloc_None b by simp
      then obtain h4 where f: "job_bracket hs he [] h1 = Some h4" "wrap_free (Some (b_addr b + HB)) h4 = Some h2"
        "rep0 = None"
        using w b(1) m None False by (auto simp: work0_def Let_def Option.bind_eq_Some_conv)
      then have "restored he h1 h4" using restored_bracket [OF _ _ kernel_nil] b by simp
      then have "restored he h h2" using restored_free b f(2) by blast
      then show ?thesis using f(3) by (simp add: wrap_free_def)
    next
      case (Some q)
      from malloc_block [OF b(4,5) m [unfolded Some]] obtain d where
        d: "q = b_addr d + HB" "set (h_live h3) = insert d (set (h_live h1))" "d \<notin> set (h_live h1)"
          "heap_ok he h3" "no_job h3" "h_base h3 = h_base h1" by metis
      obtain h4 where f: "job_bracket hs he kops h3 = Some h4" "wrap_free (Some (b_addr b + HB)) h4 = Some h2"
        "rep0 = Some q"
        using w b(1) m Some False by (auto simp: work0_def Let_def Option.bind_eq_Some_conv)
      have kh: "kernel_heap hs he c k hdr p h = h3" using ha m False by (auto simp: kernel_heap_def Let_def)
      have b4: "restored he h3 h4" using ker unfolding kh using restored_bracket [OF d(4,5) _ f(1)] by blast
      have "b \<in> set (h_live h4)" using b4 d(2) b(2) by (auto simp: restored_def)
      then have "restored he (release b h3) h2"
        using free_block [of he h4 b] b4 f(2) free_block [OF d(4), of b] b(2) d(2) by (auto simp: restored_def)
      moreover have "set (h_live (release b h3)) = insert d (set (h_live h))"
        using free_block(3) [OF d(4), of b] b(2,3) d(2,3) by auto
      moreover have "d \<notin> set (h_live h)" using d(3) b(2) by auto
      moreover have "h_base (release b h3) = h_base h" using d(6) b(6) by (simp add: release_def)
      ultimately show ?thesis using restored_free_ex f(3) d(1) by blast
    qed
  qed
qed

lemma node0_restored:
  assumes "heap_ok he h" "no_job h" and "kernel_heap_ok hs he kops (kernel_heap hs he c k hdr p h)"
    and "node0_job hs he c k hdr p kops h = Some (rep, h')"
  shows "restored he h h'"
proof -
  obtain in0 h1 where ha: "host_alloc hs he hdr h = (in0, h1)" by (metis surj_pair)
  from assms(4) ha obtain rep0 h2 where w: "work0 hs he c k hdr p kops in0 h1 = Some (rep, rep0, h2)"
    "wrap_free rep0 h2 = Some h'" by (auto simp: node0_job_def Option.bind_eq_Some_conv)
  from work0_restored [OF assms(1,2,3) ha w(1)] w(2) show ?thesis by auto
qed

lemma bracket_nil: "job_bracket hs he [] h = Some (jobheap_end (jobheap_begin h))"
  by (simp add: job_bracket_def)

lemma job_reply_returns: "\<not> JOB_TEST c \<Longrightarrow> \<exists>rep. job_reply c k r hdr inp node cap = Some rep"
  using job_exec_returns by (cases inp) (fastforce simp: job_reply_def Let_def)+

text \<open>A kernel that returns lets \<open>work0\<close> finish.\<close>

lemma work0_runs:
  assumes ok: "heap_ok he h" "no_job h" and ha: "host_alloc hs he hdr h = (in0, h1)" and c: "\<not> JOB_TEST c"
  shows "\<exists>rep rep0 h2. work0 hs he c k hdr p [] in0 h1 = Some (Some rep, rep0, h2)"
proof (cases in0)
  case None
  then show ?thesis using job_reply_returns [OF c] by (auto simp: work0_def bracket_nil)
next
  case (Some a)
  with host_alloc_restored [OF ok ha] obtain b where b: "a = b_addr b + HB" "set (h_live h1) = insert b (set (h_live h))"
    "b \<notin> set (h_live h)" "heap_ok he h1" "no_job h1" "h_base h1 = h_base h" by (metis option.distinct(1) option.inject)
  have fr: "\<exists>h3. wrap_free (Some a) (jobheap_end (jobheap_begin g)) = Some h3"
    if "heap_ok he g" "no_job g" "b \<in> set (h_live g)" for g
  proof -
    have "restored he g (jobheap_end (jobheap_begin g))"
      using restored_bracket [OF that(1,2) kernel_nil] by (simp add: bracket_nil)
    then show ?thesis using free_block(1) [of he "jobheap_end (jobheap_begin g)" b] that(3) b(1) by (auto simp: restored_def)
  qed
  obtain m h3 where m: "wrap_malloc hs he (nat (int LREP_HDR + work0_room c k hdr p)) h1 = (m, h3)" by (metis surj_pair)
  have "heap_ok he h3 \<and> no_job h3 \<and> b \<in> set (h_live h3)"
  proof (cases m)
    case None
    then have "h3 = h1" using m malloc_None b(4) by blast
    then show ?thesis using b by simp
  next
    case (Some q)
    from malloc_block [OF b(4,5) m [unfolded Some]] b(2) show ?thesis by (metis insertCI)
  qed
  then obtain h4 where "wrap_free (Some a) (jobheap_end (jobheap_begin h3)) = Some h4" using fr by blast
  then show ?thesis using Some m job_reply_returns [OF c]
    by (cases m) (auto simp: work0_def bracket_nil Let_def)
qed

section \<open>Properties\<close>

text \<open>C14. After every node-0 job, answered or refused, with or without leaks in its kernel, the heap is
  as before: the same live blocks and the same free list. (Hypothesis: the kernel frees only what
  it allocated.)\<close>

theorem node0_heap_restored:
  assumes "heap_ok he h" and "no_job h" and "kernel_heap_ok hs he kops (kernel_heap hs he c k hdr p h)"
    and "node0_job hs he c k hdr p kops h = Some (rep, h')"
  shows "h_fl h' = h_fl h \<and> set (h_live h') = set (h_live h) \<and> heap_ok he h' \<and> no_job h'"
  using node0_restored [OF assms] restored_fl [OF assms(1)] by (simp add: restored_def)

theorem node0_heap_restored_witness:
  "\<exists>rep h'. node0_job 8 1032 demo_cfg demo_kernels (mk_req 7 OP_ECHO 0 0 1 (t4_adler32 [65])) [65] [Malloc 20]
     demo_heap = Some (rep, h') \<and> h_fl h' = h_fl demo_heap"
proof -
  define hdr where "hdr = mk_req 7 OP_ECHO 0 0 1 (t4_adler32 [65])"
  have h: "hdr ! 2 = 69" "g4 hdr H_LEN = 1"
    using req_fields [of 7 OP_ECHO 0 0 1 "t4_adler32 [65]" "[]"] by (simp_all add: hdr_def OP_ECHO_def)
  have nq: "\<not> op_q hdr" by (simp add: op_q_def h)
  have room: "work0_room demo_cfg demo_kernels hdr [65] = 64"
    by (simp add: work0_room_def nq h job_out_cap_def wire_ops JOB_BIG_def)
  have nj: "no_job demo_heap" by (simp add: no_job_def demo_heap_val heap0_def)
  have ker: "kernel_heap_ok 8 1032 [Malloc 20] (kernel_heap 8 1032 demo_cfg demo_kernels hdr [65] demo_heap)"
    by (auto simp: kernel_heap_ok_def jobheap_begin_def wrap_malloc_def Let_def heap_init_def split: if_splits option.splits)
  note defs = demo_heap_val node0_job_def host_alloc_def work0_def room nq h job_bracket_def jobheap_begin_def
    jobheap_end_def end_block_def wrap_malloc_def wrap_free_def find_block_def release_def heap_init_def heap0_def
    align_down_def block_size_def ULONG_def HB_def JOB_BIG_def LREP_HDR_def
  obtain rep h' where r: "node0_job 8 1032 demo_cfg demo_kernels hdr [65] [Malloc 20] demo_heap = Some (rep, h')"
    by (simp add: defs)
  from node0_heap_restored [OF demo_heap_ok nj ker r] r show ?thesis unfolding hdr_def by blast
qed

text \<open>On the T425 the payload and the reply of a job are in separate memory: when both buffers come
  from the heap they share no byte, whatever else is allocated.\<close>

lemma node0_buffers_disjoint:
  assumes "heap_ok he h" and "host_alloc hs he hdr h = (Some a, h1)" and "\<not> op_q hdr"
    and "wrap_malloc hs he (nat (int LREP_HDR + cap)) h1 = (Some q, h2)"
  shows "{a..<a + nat (sint (g4 hdr H_LEN))} \<inter> {q..<q + nat (int LREP_HDR + cap)} = {}"
proof -
  let ?n = "sint (g4 hdr H_LEN)"
  have m: "wrap_malloc hs he (nat (if 0 < ?n then ?n else 1)) h = (Some a, h1)"
    using assms(2,3) by (auto simp: host_alloc_def Let_def split: if_splits)
  have "{a..<a + nat (if 0 < ?n then ?n else 1)} \<inter> {q..<q + nat (int LREP_HDR + cap)} = {}"
    by (rule job_alloc.two_allocs [OF assms(1) m assms(4)])
  moreover have "{a..<a + nat ?n} \<subseteq> {a..<a + nat (if 0 < ?n then ?n else 1)}" by auto
  ultimately show ?thesis by blast
qed

end
