(* ===== verification/Jobnet.thy ===== *)
theory Jobnet
  imports Node0 "HOL-Library.Monad_Syntax" "HOL-Library.Multiset"
begin

text \<open>
  The network of the resident image: the processes \<open>host\<close>, \<open>work0\<close> and \<open>mux\<close> on the T425
  (\<open>sam-job-tt/llvm/root.c\<close>), \<open>route\<close>, \<open>work1\<close> and \<open>mux1\<close> on TRAM 1 (\<open>worker1.c\<close>), the loop of TRAM 2
  (\<open>worker2.c\<close>), and the link to the 68030 with what \<open>ttjobd\<close> does there: it writes a request only for a node
  with no job of its own outstanding, one at a time, and reads replies when it is not writing. The processes
  share static buffers and meet on unbuffered channels; the state holds every buffer and where each process
  is blocked, and a step is one rendezvous or one run of a kernel, in any order. What a receiver takes off a
  link is computed from the bytes the sender puts on it, so a length on which the two sides disagree blocks both.
\<close>

section \<open>The code\<close>

text \<open>\<open>ChanIn\<close> of \<open>n\<close> bytes from the bytes under way; blocks when there are fewer.\<close>

definition chan_in :: "int \<Rightarrow> bytes \<Rightarrow> (bytes \<times> bytes) option" where
  "chan_in n w = (if nat n \<le> length w then Some (take (nat n) w, drop (nat n) w) else None)"

text \<open>\<open>p\<close> written to the start of a static buffer.\<close>

definition put :: "bytes \<Rightarrow> bytes \<Rightarrow> bytes" where
  "put p b = p @ drop (length p) b"

function drain_from :: "int \<Rightarrow> int \<Rightarrow> bytes \<Rightarrow> bytes option" where
  "drain_from i n w =
     (if i < n then chan_in (if 64 < n - i then 64 else n - i) w \<bind> (\<lambda>(sink, w). drain_from (i + 64) n w) else Some w)"
  by auto
termination by (relation "measure (\<lambda>(i, n, w). nat (n - i))") auto

definition drain :: "int \<Rightarrow> bytes \<Rightarrow> bytes option" where
  "drain n w = drain_from 0 n w"

definition msg_len :: "bytes \<Rightarrow> int" where
  "msg_len h = sint (g4 h H_LEN)"

text \<open>\<open>job_read\<close>: length or -1, header, buffer, and what is left on the link.\<close>

definition job_read :: "bytes \<Rightarrow> bytes \<Rightarrow> (int \<times> bytes \<times> bytes \<times> bytes) option" where
  "job_read w buf = do {
     (hdr, w) \<leftarrow> chan_in (int JOB_HDR) w;
     (let n = msg_len hdr in
      if n < 0 \<or> JOB_MAX < n then do { w \<leftarrow> drain n w; Some (- 1, hdr, buf, w) }
      else do { (p, w) \<leftarrow> chan_in n w; Some (n, hdr, put p buf, w) })
   }"

definition rep_read :: "bytes \<Rightarrow> bytes \<Rightarrow> (int \<times> bytes \<times> bytes) option" where
  "rep_read w rep = do {
     (h, w) \<leftarrow> chan_in (int LREP_HDR) w;
     (let olen = sint (g4 h 3) in do {
        (out, w) \<leftarrow> chan_in olen w;
        Some (int LREP_HDR + olen, put (h @ out) rep, w) })
   }"

text \<open>Boot: what \<open>main\<close> of the root sends to TRAM 1 and to the host, and what TRAM 1 passes on.\<close>

definition root_boot :: "bytes \<Rightarrow> bytes \<Rightarrow> bytes \<times> bytes" where
  "root_boot worker1_btl worker2_btl =
     (worker1_btl @ le32 (of_nat (length worker2_btl)) @ worker2_btl, map of_char ''RDY0'')"

definition worker1_boot :: "bytes \<Rightarrow> (bytes \<times> bytes) option" where
  "worker1_boot w = do {
     (b, w) \<leftarrow> chan_in 4 w;
     (let n2 = sint (g4 b 0) in if 0 < n2 \<and> n2 \<le> 262144 then chan_in n2 w else Some ([], w))
   }"

text \<open>Where each process is blocked. The numbers are the \<open>n\<close> and \<open>len\<close> it holds.\<close>

datatype host_pc = HAlt | HWait bytes | HGo int | HFwd int
datatype work_pc = Ready | Running int | Finished int
datatype mux_pc = MAlt | MOwn int | MSub int | MFree nat
datatype route_pc = RIn | RGo int | RFwd int

type_synonym request = "bytes \<times> bytes"

record net =
  tj_w :: bytes
  tj_fl :: "request list"
  tj_got :: "(request \<times> bytes) list"
  tj_stray :: "bytes list"
  busy :: "bool list"
  hpc :: host_pc
  w0 :: work_pc
  mpc :: mux_pc
  hdr0 :: bytes
  in0 :: "nat option"
  in0b :: bytes
  rep0 :: "nat option"
  rep0b :: bytes
  hdrf :: bytes
  fwd :: bytes
  repm :: bytes
  nheap :: heap
  rpc :: route_pc
  w1 :: work_pc
  mpc1 :: mux_pc
  hdr1 :: bytes
  in1 :: bytes
  rep1 :: bytes
  hdrf1 :: bytes
  fwd1 :: bytes
  repm1 :: bytes
  w2 :: work_pc
  hdr2 :: bytes
  in2 :: bytes
  rep2 :: bytes

text \<open>The image: how many nodes it has, the heap of the T425, and what each node was built with.\<close>

record image =
  i_nodes :: nat
  i_hs :: nat
  i_he :: nat
  i_cfg :: "nat \<Rightarrow> cfg"
  i_ker :: "nat \<Rightarrow> kernels"

definition net_init :: "heap \<Rightarrow> net" where
  "net_init h = \<lparr>tj_w = [], tj_fl = [], tj_got = [], tj_stray = [], busy = replicate NODES False,
     hpc = HAlt, w0 = Ready, mpc = MAlt, hdr0 = replicate JOB_HDR 0, in0 = None, in0b = [], rep0 = None, rep0b = [],
     hdrf = replicate JOB_HDR 0, fwd = replicate (nat JOB_MAX) 0, repm = replicate (LREP_HDR + nat JOB_MAX) 0, nheap = h,
     rpc = RIn, w1 = Ready, mpc1 = MAlt, hdr1 = replicate JOB_HDR 0, in1 = replicate (nat JOB_MAX) 0,
     rep1 = replicate (LREP_HDR + nat JOB_MAX) 0, hdrf1 = replicate JOB_HDR 0, fwd1 = replicate (nat JOB_MAX) 0,
     repm1 = replicate (LREP_HDR + nat JOB_MAX) 0, w2 = Ready, hdr2 = replicate JOB_HDR 0,
     in2 = replicate (nat JOB_MAX) 0, rep2 = replicate (LREP_HDR + nat JOB_MAX) 0\<rparr>"

text \<open>The node for a request, or nothing while \<open>host\<close> has to wait for one to be freed.\<close>

definition host_pick :: "bool list \<Rightarrow> u8 \<Rightarrow> nat option" where
  "host_pick bs node =
     (if node = NODE_ANY \<or> NODES \<le> unat node then find (\<lambda>k. \<not> bs ! k) [0..<NODES]
      else if bs ! unat node then None else Some (unat node))"

text \<open>The rest of \<open>host\<close>'s loop once it has a node: the payload is read and the job handed on.\<close>

definition host_start :: "image \<Rightarrow> bytes \<Rightarrow> nat \<Rightarrow> net \<Rightarrow> net option" where
  "host_start im h0 node s =
     (let h = h0[3 := of_nat node]; s = s\<lparr>busy := (busy s)[node := True]\<rparr>; n = msg_len h in
      if node = 0 then
        (case host_alloc (i_hs im) (i_he im) h (nheap s) of
           (None, hp) \<Rightarrow> do {
             w \<leftarrow> drain n (tj_w s);
             Some (s\<lparr>hdr0 := h, in0 := None, in0b := [], nheap := hp, tj_w := w, hpc := HGo (- 1)\<rparr>) }
         | (Some a, hp) \<Rightarrow> do {
             (p, w) \<leftarrow> chan_in n (tj_w s);
             Some (s\<lparr>hdr0 := h, in0 := Some a, in0b := p, nheap := hp, tj_w := w, hpc := HGo n\<rparr>) })
      else if 1 < i_nodes im \<and> n \<le> JOB_MAX then do {
        (p, w) \<leftarrow> chan_in n (tj_w s);
        Some (s\<lparr>hdrf := h, fwd := put p (fwd s), tj_w := w, hpc := HFwd n\<rparr>) }
      else do {
        w \<leftarrow> drain n (tj_w s);
        Some (s\<lparr>busy := (busy s)[node := False], tj_w := w, hpc := HAlt\<rparr>) })"

text \<open>What \<open>host\<close> puts on the TRAM 1 link, and \<open>route\<close> on the TRAM 2 link.\<close>

definition fwd_msg :: "bytes \<Rightarrow> bytes \<Rightarrow> int \<Rightarrow> bytes" where
  "fwd_msg h b n = h @ take (nat n) b"

definition route_in :: "image \<Rightarrow> bytes \<Rightarrow> net \<Rightarrow> (net \<times> bytes) option" where
  "route_in im w s = do {
     (h, w) \<leftarrow> chan_in (int JOB_HDR) w;
     (let n = msg_len h in
      if h ! 3 = 1 then
        if n < 0 \<or> JOB_MAX < n then Some (s\<lparr>hdr1 := h, rpc := RGo (- 1)\<rparr>, w)
        else do { (p, w) \<leftarrow> chan_in n w; Some (s\<lparr>hdr1 := h, in1 := put p (in1 s), rpc := RGo n\<rparr>, w) }
      else if 2 < i_nodes im then do {
        (p, w) \<leftarrow> chan_in (if n \<le> JOB_MAX then n else 0) w;
        Some (s\<lparr>hdrf1 := h, fwd1 := put p (fwd1 s), rpc := RFwd (if n \<le> JOB_MAX then n else 0)\<rparr>, w) }
      else do { (p, w) \<leftarrow> chan_in (if n \<le> JOB_MAX then n else 0) w; Some (s\<lparr>fwd1 := put p (fwd1 s)\<rparr>, w) })
   }"

text \<open>\<open>job_reply\<close> on the TRAMs, with the room \<open>JOB_MAX\<close>, into the static reply buffer.\<close>

definition tram_reply :: "image \<Rightarrow> heap_report \<Rightarrow> nat \<Rightarrow> bytes \<Rightarrow> bytes \<Rightarrow> int \<Rightarrow> bytes option" where
  "tram_reply im r k h b n =
     job_reply (i_cfg im k) (i_ker im k) r h (if n < 0 then None else Some (take (nat n) b)) (of_nat k) JOB_MAX"

text \<open>\<open>ttjobd\<close> reading a reply: matched by its id, as \<open>poll_link\<close> does.\<close>

definition req_node :: "request \<Rightarrow> nat" where
  "req_node q = unat (fst q ! 3)"

definition tj_reply :: "bytes \<Rightarrow> net \<Rightarrow> net" where
  "tj_reply r s =
     (case find (\<lambda>q. g2 (fst q) 0 = g2 r 0) (tj_fl s) of
        None \<Rightarrow> s\<lparr>tj_stray := tj_stray s @ [r]\<rparr>
      | Some q \<Rightarrow> s\<lparr>tj_fl := remove1 q (tj_fl s), tj_got := tj_got s @ [(q, r)]\<rparr>)"

text \<open>A request \<open>ttjobd\<close> may write now: for a present node without a job of its own, with a fresh id, its length
  in the header and, for a TRAM, within \<open>JOB_MAX\<close>.\<close>

definition may_send :: "image \<Rightarrow> request \<Rightarrow> net \<Rightarrow> bool" where
  "may_send im q s \<longleftrightarrow>
     tj_w s = [] \<and> length (fst q) = JOB_HDR \<and> msg_len (fst q) = int (length (snd q)) \<and>
     req_node q < i_nodes im \<and> req_node q < NODES \<and> (req_node q \<noteq> 0 \<longrightarrow> int (length (snd q)) \<le> JOB_MAX) \<and>
     list_all (\<lambda>q'. req_node q' \<noteq> req_node q \<and> g2 (fst q') 0 \<noteq> g2 (fst q) 0) (tj_fl s)"

section \<open>Steps\<close>

text \<open>The kernel of node 0 frees nothing that was allocated before it ran.\<close>

definition kernel_tidy :: "image \<Rightarrow> hop list \<Rightarrow> net \<Rightarrow> bool" where
  "kernel_tidy im kops s \<longleftrightarrow>
     kernel_heap_ok (i_hs im) (i_he im) kops
       (if in0b s \<noteq> [] \<and> op_q (hdr0 s) then nheap s
        else snd (wrap_malloc (i_hs im) (i_he im)
          (nat (int LREP_HDR + work0_room (i_cfg im 0) (i_ker im 0) (hdr0 s) (in0b s))) (nheap s)))"

definition send_req :: "request \<Rightarrow> net \<Rightarrow> net" where
  "send_req q s = s\<lparr>tj_w := fst q @ snd q, tj_fl := tj_fl s @ [q]\<rparr>"

text \<open>The T425: \<open>host\<close>, \<open>work0\<close> and \<open>mux\<close>, and the replies they give \<open>ttjobd\<close>. A rule is one rendezvous, or one run of the kernel.\<close>

inductive root_step :: "image \<Rightarrow> net \<Rightarrow> net \<Rightarrow> bool" for im where
  host_hdr: "hpc s = HAlt \<Longrightarrow> chan_in (int JOB_HDR) (tj_w s) = Some (h, w) \<Longrightarrow>
    root_step im s (s\<lparr>hpc := HWait h, tj_w := w\<rparr>)"
| host_free: "hpc s = HAlt \<Longrightarrow> mpc s = MFree k \<Longrightarrow>
    root_step im s (s\<lparr>busy := (busy s)[k := False], mpc := MAlt\<rparr>)"
| host_wait: "hpc s = HWait h \<Longrightarrow> host_pick (busy s) (h ! 3) = None \<Longrightarrow> mpc s = MFree k \<Longrightarrow>
    root_step im s (s\<lparr>busy := (busy s)[k := False], mpc := MAlt\<rparr>)"
| host_job: "hpc s = HWait h \<Longrightarrow> host_pick (busy s) (h ! 3) = Some k \<Longrightarrow> host_start im h k s = Some s' \<Longrightarrow>
    root_step im s s'"
| go0: "hpc s = HGo n \<Longrightarrow> w0 s = Ready \<Longrightarrow> root_step im s (s\<lparr>hpc := HAlt, w0 := Running n\<rparr>)"
| run0: "w0 s = Running n \<Longrightarrow> kernel_tidy im kops s \<Longrightarrow>
    work0 (i_hs im) (i_he im) (i_cfg im 0) (i_ker im 0) (hdr0 s) (in0b s) kops (in0 s) (nheap s) = Some (Some r, a, hp) \<Longrightarrow>
    root_step im s (s\<lparr>w0 := Finished (int (length r)), in0 := None, rep0 := a, rep0b := r, nheap := hp\<rparr>)"
| mux_own: "mpc s = MAlt \<Longrightarrow> w0 s = Finished l \<Longrightarrow> root_step im s (s\<lparr>mpc := MOwn l, w0 := Ready\<rparr>)"
| mux_tram1: "mpc s = MAlt \<Longrightarrow> mpc1 s = MOwn l \<Longrightarrow> rep_read (take (nat l) (rep1 s)) (repm s) = Some (l', b, []) \<Longrightarrow>
    root_step im s (s\<lparr>mpc := MSub l', repm := b, mpc1 := MAlt\<rparr>)"
| mux_tram2: "mpc s = MAlt \<Longrightarrow> mpc1 s = MSub l \<Longrightarrow> rep_read (take (nat l) (repm1 s)) (repm s) = Some (l', b, []) \<Longrightarrow>
    root_step im s (s\<lparr>mpc := MSub l', repm := b, mpc1 := MAlt\<rparr>)"
| reply_own: "mpc s = MOwn l \<Longrightarrow> tj_w s = [] \<Longrightarrow> wrap_free (rep0 s) (nheap s) = Some hp \<Longrightarrow>
    root_step im s (tj_reply (take (nat l) (rep0b s)) (s\<lparr>mpc := MFree 0, rep0 := None, nheap := hp\<rparr>))"
| reply_sub: "mpc s = MSub l \<Longrightarrow> tj_w s = [] \<Longrightarrow>
    root_step im s (tj_reply (take (nat l) (repm s)) (s\<lparr>mpc := MFree (unat (repm s ! R_NODE))\<rparr>))"

text \<open>TRAM 1: \<open>route\<close>, \<open>work1\<close> and \<open>mux1\<close>.\<close>

inductive tram1_step :: "image \<Rightarrow> net \<Rightarrow> net \<Rightarrow> bool" for im where
  route: "rpc s = RIn \<Longrightarrow> hpc s = HFwd n \<Longrightarrow> route_in im (fwd_msg (hdrf s) (fwd s) n) (s\<lparr>hpc := HAlt\<rparr>) = Some (s', []) \<Longrightarrow>
    tram1_step im s s'"
| go1: "rpc s = RGo n \<Longrightarrow> w1 s = Ready \<Longrightarrow> tram1_step im s (s\<lparr>rpc := RIn, w1 := Running n\<rparr>)"
| run1: "w1 s = Running n \<Longrightarrow> tram_reply im r 1 (hdr1 s) (in1 s) n = Some rep \<Longrightarrow>
    tram1_step im s (s\<lparr>w1 := Finished (int (length rep)), rep1 := put rep (rep1 s)\<rparr>)"
| mux1_own: "mpc1 s = MAlt \<Longrightarrow> w1 s = Finished l \<Longrightarrow> tram1_step im s (s\<lparr>mpc1 := MOwn l, w1 := Ready\<rparr>)"
| mux1_sub: "mpc1 s = MAlt \<Longrightarrow> w2 s = Finished l \<Longrightarrow> rep_read (take (nat l) (rep2 s)) (repm1 s) = Some (l', b, []) \<Longrightarrow>
    tram1_step im s (s\<lparr>mpc1 := MSub l', repm1 := b, w2 := Ready\<rparr>)"

text \<open>TRAM 2.\<close>

inductive tram2_step :: "image \<Rightarrow> net \<Rightarrow> net \<Rightarrow> bool" for im where
  tram2: "rpc s = RFwd n \<Longrightarrow> w2 s = Ready \<Longrightarrow>
    job_read (fwd_msg (hdrf1 s) (fwd1 s) n) (in2 s) = Some (m, h, b, []) \<Longrightarrow>
    tram2_step im s (s\<lparr>rpc := RIn, w2 := Running m, hdr2 := h, in2 := b\<rparr>)"
| run2: "w2 s = Running n \<Longrightarrow> tram_reply im r 2 (hdr2 s) (in2 s) n = Some rep \<Longrightarrow>
    tram2_step im s (s\<lparr>w2 := Finished (int (length rep)), rep2 := put rep (rep2 s)\<rparr>)"

inductive net_step :: "image \<Rightarrow> net \<Rightarrow> net \<Rightarrow> bool" for im where
  on_root: "root_step im s s' \<Longrightarrow> net_step im s s'"
| on_tram1: "tram1_step im s s' \<Longrightarrow> net_step im s s'"
| on_tram2: "tram2_step im s s' \<Longrightarrow> net_step im s s'"

lemmas net_steps =
  root_step.intros [THEN on_root] tram1_step.intros [THEN on_tram1] tram2_step.intros [THEN on_tram2]

inductive net_reach :: "image \<Rightarrow> heap \<Rightarrow> net \<Rightarrow> bool" for im h where
  start: "net_reach im h (net_init h)"
| send: "net_reach im h s \<Longrightarrow> may_send im q s \<Longrightarrow> net_reach im h (send_req q s)"
| step: "net_reach im h s \<Longrightarrow> net_step im s s' \<Longrightarrow> net_reach im h s'"

section \<open>Reading what was sent\<close>

lemma chan_in_append: "n = int (length p) \<Longrightarrow> chan_in n (p @ w) = Some (p, w)"
  by (simp add: chan_in_def)

lemma chan_in_exact: "n = int (length p) \<Longrightarrow> chan_in n p = Some (p, [])"
  by (simp add: chan_in_def)

lemma chan_in_none: "n \<le> 0 \<Longrightarrow> chan_in n w = Some ([], w)"
  by (simp add: chan_in_def)

declare drain_from.simps [simp del]

lemma drain_from_drop: "nat (n - i) \<le> length w \<Longrightarrow> drain_from i n w = Some (drop (nat (n - i)) w)"
proof (induction i n w rule: drain_from.induct)
  case (1 i n w)
  show ?case
  proof (cases "i < n")
    case True
    let ?k = "if 64 < n - i then 64 else n - i"
    have c: "chan_in ?k w = Some (take (nat ?k) w, drop (nat ?k) w)" using 1(2) by (auto simp: chan_in_def)
    have "nat (n - (i + 64)) \<le> length (drop (nat ?k) w)" using 1(2) by auto
    from 1(1) [OF True c refl this] have "drain_from (i + 64) n (drop (nat ?k) w) = Some (drop (nat (n - (i + 64))) (drop (nat ?k) w))" .
    moreover have "drop (nat (n - (i + 64))) (drop (nat ?k) w) = drop (nat (n - i)) w"
      using True by (auto simp: drop_drop nat_diff_distrib intro!: arg_cong [where f = "\<lambda>k. drop k w"])
    ultimately show ?thesis using True c by (subst drain_from.simps) simp
  qed (subst drain_from.simps, simp)
qed

lemma drain_append: "n = int (length p) \<Longrightarrow> drain n (p @ w) = Some w"
  unfolding drain_def by (subst drain_from_drop) simp_all

lemma drain_none: "n \<le> 0 \<Longrightarrow> drain n w = Some w"
  by (simp add: drain_def drain_from.simps)

lemma take_put [simp]: "take (length p) (put p b) = p"
  by (simp add: put_def)

lemma take_put_le: "n = int (length p) \<Longrightarrow> take (nat n) (put p b) = p"
  by simp

lemma job_read_sent:
  assumes "length h = JOB_HDR" "msg_len h = int (length p)" "int (length p) \<le> JOB_MAX"
  shows "job_read (h @ p) b = Some (int (length p), h, put p b, [])"
  using assms by (simp add: job_read_def chan_in_append chan_in_exact Let_def)

lemma rep_read_sent:
  assumes "length h = LREP_HDR" "sint (g4 h 3) = int (length out)"
  shows "rep_read (h @ out) b = Some (int (length (h @ out)), put (h @ out) b, [])"
  using assms by (simp add: rep_read_def chan_in_append chan_in_exact Let_def)

lemma worker1_boot_sent:
  assumes "img2 \<noteq> []" "length img2 \<le> 262144"
  shows "worker1_boot (le32 (of_nat (length img2)) @ img2) = Some (img2, [])"
proof -
  have "sint (of_nat (length img2) :: u32) = int (length img2)"
    using assms(2) by (simp add: signed_of_nat signed_take_bit_int_eq_self)
  then show ?thesis using assms g4_skip [of 0 "[]" "of_nat (length img2)" "[]"]
    by (simp add: worker1_boot_def chan_in_append chan_in_exact Let_def)
qed

text \<open>After its own image, TRAM 1 passes exactly TRAM 2's image on.\<close>

lemma boot_delivered:
  assumes "img2 \<noteq> []" "length img2 \<le> 262144"
  shows "worker1_boot (drop (length img1) (fst (root_boot img1 img2))) = Some (img2, [])"
  using worker1_boot_sent [OF assms] by (simp add: root_boot_def)

end
