(* ===== verification/JobnetInv.thy ===== *)
theory JobnetInv
  imports Jobnet
begin

text \<open>
  The invariant of the network of \<open>Jobnet\<close>: each outstanding request is held by exactly one process, the
  \<open>busy\<close> marks of \<open>host\<close> are those of the requests past it, and every buffer in use holds the bytes of the request
  or reply its process works on. Each step keeps it.
\<close>

section \<open>Where the jobs are\<close>

text \<open>The node whose job a process holds. A request under way from \<open>ttjobd\<close> is at the wire, unless it is the
  payload \<open>host\<close> has still to read.\<close>

fun at_wire :: "bytes \<Rightarrow> host_pc \<Rightarrow> nat list" where
  "at_wire w (HWait h) = (if w = [] \<or> 0 < msg_len h then [] else [unat (w ! 3)])"
| "at_wire w pc = (if w = [] then [] else [unat (w ! 3)])"

fun at_wait :: "host_pc \<Rightarrow> nat list" where
  "at_wait (HWait h) = [unat (h ! 3)]"
| "at_wait pc = []"

fun at_host :: "host_pc \<Rightarrow> bytes \<Rightarrow> nat list" where
  "at_host (HGo n) h = [0]"
| "at_host (HFwd n) h = [unat (h ! 3)]"
| "at_host pc h = []"

fun at_work :: "nat \<Rightarrow> work_pc \<Rightarrow> nat list" where
  "at_work k Ready = []"
| "at_work k w = [k]"

fun at_mux :: "mux_pc \<Rightarrow> nat \<Rightarrow> nat \<Rightarrow> nat list" where
  "at_mux (MOwn l) own sub = [own]"
| "at_mux (MSub l) own sub = [sub]"
| "at_mux pc own sub = []"

fun at_route :: "route_pc \<Rightarrow> nat list" where
  "at_route RIn = []"
| "at_route (RGo n) = [1]"
| "at_route (RFwd n) = [2]"

fun freed :: "mux_pc \<Rightarrow> nat list" where
  "freed (MFree k) = [k]"
| "freed pc = []"

definition inside :: "net \<Rightarrow> nat list" where
  "inside s = at_host (hpc s) (hdrf s) @ at_work 0 (w0 s) @ at_mux (mpc s) 0 (unat (repm s ! R_NODE)) @ at_route (rpc s) @
     at_work 1 (w1 s) @ at_mux (mpc1 s) 1 2 @ at_work 2 (w2 s)"

definition places :: "net \<Rightarrow> nat list" where
  "places s = at_wire (tj_w s) (hpc s) @ at_wait (hpc s) @ inside s"

definition freeing :: "net \<Rightarrow> nat list" where
  "freeing s = freed (mpc s)"

lemmas place_defs = inside_def places_def freeing_def

text \<open>Each outstanding request is in one place; \<open>busy\<close> marks the nodes that have one, or whose mark is on its way.\<close>

definition one_place :: "net \<Rightarrow> bool" where
  "one_place s \<longleftrightarrow> mset (places s) = mset (map req_node (tj_fl s)) \<and> distinct (map req_node (tj_fl s))"

definition busy_right :: "net \<Rightarrow> bool" where
  "busy_right s \<longleftrightarrow> length (busy s) = NODES \<and> distinct (freeing s @ inside s) \<and> set (freeing s) \<subseteq> {..<NODES} \<and>
     (\<forall>k < NODES. busy s ! k \<longleftrightarrow> k \<in> set (freeing s @ inside s))"

section \<open>What the buffers hold\<close>

definition good_reply :: "image \<Rightarrow> request \<Rightarrow> bytes \<Rightarrow> bool" where
  "good_reply im q r \<longleftrightarrow>
     (let k = req_node q in
      if k = 0 then
        (\<exists>rp. job_reply (i_cfg im 0) (i_ker im 0) rp (fst q) (Some (snd q)) 0
            (work0_room (i_cfg im 0) (i_ker im 0) (fst q) (snd q)) = Some r) \<or>
        r = mk_lrep (g2 (fst q) 0) ST_TOOBIG 0 0 1 0
      else \<exists>rp. job_reply (i_cfg im k) (i_ker im k) rp (fst q) (Some (snd q)) (of_nat k) JOB_MAX = Some r)"

definition req_ok :: "image \<Rightarrow> request \<Rightarrow> bool" where
  "req_ok im q \<longleftrightarrow> length (fst q) = JOB_HDR \<and> msg_len (fst q) = int (length (snd q)) \<and>
     req_node q < i_nodes im \<and> req_node q < NODES \<and> (req_node q \<noteq> 0 \<longrightarrow> int (length (snd q)) \<le> JOB_MAX)"

definition held :: "net \<Rightarrow> nat \<Rightarrow> (request \<Rightarrow> bool) \<Rightarrow> bool" where
  "held s k P \<longleftrightarrow> (\<exists>q \<in> set (tj_fl s). req_node q = k \<and> P q)"

definition sent_in :: "bytes \<Rightarrow> bytes \<Rightarrow> int \<Rightarrow> request \<Rightarrow> bool" where
  "sent_in h b n q \<longleftrightarrow> h = fst q \<and> n = int (length (snd q)) \<and> take (length (snd q)) b = snd q"

definition reply_in :: "image \<Rightarrow> bytes \<Rightarrow> int \<Rightarrow> request \<Rightarrow> bool" where
  "reply_in im b l q \<longleftrightarrow> l \<le> int (length b) \<and> 0 \<le> l \<and> good_reply im q (take (nat l) b)"

text \<open>Node 0's buffers: before it runs the heap is as \<open>host_alloc\<close> left it, afterwards only the reply is to be freed.\<close>

definition in0_ok :: "image \<Rightarrow> heap \<Rightarrow> net \<Rightarrow> int \<Rightarrow> request \<Rightarrow> bool" where
  "in0_ok im h0 s n q \<longleftrightarrow> hdr0 s = fst q \<and>
     (\<exists>hp. restored (i_he im) h0 hp \<and> host_alloc (i_hs im) (i_he im) (fst q) hp = (in0 s, nheap s)) \<and>
     (in0 s \<noteq> None \<longrightarrow> n = int (length (snd q)) \<and> in0b s = snd q)"

definition rep0_ok :: "image \<Rightarrow> heap \<Rightarrow> net \<Rightarrow> int \<Rightarrow> request \<Rightarrow> bool" where
  "rep0_ok im h0 s l q \<longleftrightarrow> reply_in im (rep0b s) l q \<and>
     (\<exists>hp. wrap_free (rep0 s) (nheap s) = Some hp \<and> restored (i_he im) h0 hp)"

definition wire_ok :: "image \<Rightarrow> net \<Rightarrow> bool" where
  "wire_ok im s \<longleftrightarrow> (\<forall>k \<in> set (at_wire (tj_w s) (hpc s)). held s k (\<lambda>q. tj_w s = fst q @ snd q))"

definition host_ok :: "image \<Rightarrow> heap \<Rightarrow> net \<Rightarrow> bool" where
  "host_ok im h0 s \<longleftrightarrow> (case hpc s of
      HAlt \<Rightarrow> True
    | HWait h \<Rightarrow> held s (unat (h ! 3)) (\<lambda>q. h = fst q \<and> (snd q = [] \<or> tj_w s = snd q))
    | HGo n \<Rightarrow> held s 0 (in0_ok im h0 s n)
    | HFwd n \<Rightarrow> held s (unat (hdrf s ! 3)) (\<lambda>q. req_node q \<noteq> 0 \<and> sent_in (hdrf s) (fwd s) n q))"

definition work0_ok :: "image \<Rightarrow> heap \<Rightarrow> net \<Rightarrow> bool" where
  "work0_ok im h0 s \<longleftrightarrow> (case w0 s of
      Ready \<Rightarrow> True | Running n \<Rightarrow> held s 0 (in0_ok im h0 s n) | Finished l \<Rightarrow> held s 0 (rep0_ok im h0 s l))"

definition mux_ok :: "image \<Rightarrow> heap \<Rightarrow> net \<Rightarrow> bool" where
  "mux_ok im h0 s \<longleftrightarrow> (case mpc s of
      MOwn l \<Rightarrow> held s 0 (rep0_ok im h0 s l)
    | MSub l \<Rightarrow> held s (unat (repm s ! R_NODE)) (\<lambda>q. req_node q \<noteq> 0 \<and> reply_in im (repm s) l q)
    | _ \<Rightarrow> True)"

definition tram1_ok :: "image \<Rightarrow> net \<Rightarrow> bool" where
  "tram1_ok im s \<longleftrightarrow>
     (case rpc s of RIn \<Rightarrow> True | RGo n \<Rightarrow> held s 1 (sent_in (hdr1 s) (in1 s) n) | RFwd n \<Rightarrow> held s 2 (sent_in (hdrf1 s) (fwd1 s) n)) \<and>
     (case w1 s of Ready \<Rightarrow> True | Running n \<Rightarrow> held s 1 (sent_in (hdr1 s) (in1 s) n) | Finished l \<Rightarrow> held s 1 (reply_in im (rep1 s) l)) \<and>
     (case mpc1 s of MOwn l \<Rightarrow> held s 1 (reply_in im (rep1 s) l) | MSub l \<Rightarrow> held s 2 (reply_in im (repm1 s) l) | MAlt \<Rightarrow> True | MFree k \<Rightarrow> False)"

definition tram2_ok :: "image \<Rightarrow> net \<Rightarrow> bool" where
  "tram2_ok im s \<longleftrightarrow>
     (case w2 s of Ready \<Rightarrow> True | Running n \<Rightarrow> held s 2 (sent_in (hdr2 s) (in2 s) n) | Finished l \<Rightarrow> held s 2 (reply_in im (rep2 s) l))"

text \<open>The heap while node 0 has no job inside.\<close>

definition heap_ok0 :: "image \<Rightarrow> heap \<Rightarrow> net \<Rightarrow> bool" where
  "heap_ok0 im h0 s \<longleftrightarrow> 0 \<in> set (inside s) \<or> restored (i_he im) h0 (nheap s)"

definition got_ok :: "image \<Rightarrow> net \<Rightarrow> bool" where
  "got_ok im s \<longleftrightarrow> tj_stray s = [] \<and> (\<forall>(q, r) \<in> set (tj_got s). good_reply im q r) \<and> (\<forall>q \<in> set (tj_fl s). req_ok im q) \<and>
     distinct (map (\<lambda>q. g2 (fst q) 0) (tj_fl s))"

definition net_ok :: "image \<Rightarrow> heap \<Rightarrow> net \<Rightarrow> bool" where
  "net_ok im h0 s \<longleftrightarrow> one_place s \<and> busy_right s \<and> wire_ok im s \<and> host_ok im h0 s \<and> work0_ok im h0 s \<and> mux_ok im h0 s \<and>
     tram1_ok im s \<and> tram2_ok im s \<and> heap_ok0 im h0 s \<and> got_ok im s"

lemmas ok_defs = wire_ok_def host_ok_def work0_ok_def mux_ok_def tram1_ok_def tram2_ok_def

lemma heldE: "held s k P \<Longrightarrow> (\<And>q. q \<in> set (tj_fl s) \<Longrightarrow> req_node q = k \<Longrightarrow> P q \<Longrightarrow> thesis) \<Longrightarrow> thesis"
  by (auto simp: held_def)

lemma heldI: "q \<in> set (tj_fl s) \<Longrightarrow> req_node q = k \<Longrightarrow> P q \<Longrightarrow> held s k P"
  by (auto simp: held_def)

lemma held_mono: "held s k P \<Longrightarrow> set (tj_fl s) \<subseteq> set (tj_fl s') \<Longrightarrow> (\<And>q. P q \<Longrightarrow> Q q) \<Longrightarrow> held s' k Q"
  by (auto simp: held_def)

lemma one_place_distinct: "one_place s \<Longrightarrow> distinct (places s)"
  unfolding one_place_def by (metis mset_eq_imp_distinct_iff)

lemma one_place_set: "one_place s \<Longrightarrow> set (places s) = req_node ` set (tj_fl s)"
  unfolding one_place_def by (metis set_map mset_eq_setD)

text \<open>A step that moves a job between places keeps \<open>one_place\<close>.\<close>

lemma one_place_move: "one_place s \<Longrightarrow> tj_fl s' = tj_fl s \<Longrightarrow> mset (places s') = mset (places s) \<Longrightarrow> one_place s'"
  by (simp add: one_place_def)

lemma busy_move:
  "busy_right s \<Longrightarrow> busy s' = busy s \<Longrightarrow> mset (freeing s' @ inside s') = mset (freeing s @ inside s) \<Longrightarrow>
   set (freeing s') \<subseteq> set (freeing s) \<union> {..<NODES} \<Longrightarrow> busy_right s'"
  unfolding busy_right_def by (metis Un_absorb2 mset_eq_imp_distinct_iff mset_eq_setD sup_commute)

text \<open>Predicates that a step leaves alone: they read only the fields it does not write.\<close>

lemmas buf_defs = held_def in0_ok_def rep0_ok_def

lemma net_ok_parts:
  assumes "net_ok im h0 s"
  shows "one_place s" "busy_right s" "wire_ok im s" "host_ok im h0 s" "work0_ok im h0 s" "mux_ok im h0 s"
    "tram1_ok im s" "tram2_ok im s" "heap_ok0 im h0 s" "got_ok im s"
  using assms by (simp_all add: net_ok_def)

lemmas pc_congs = host_pc.case_cong work_pc.case_cong mux_pc.case_cong route_pc.case_cong

lemma net_ok_move:
  assumes "net_ok im h0 s"
    and "tj_fl s' = tj_fl s" "tj_got s' = tj_got s" "tj_stray s' = tj_stray s" "busy s' = busy s"
    and "mset (places s') = mset (places s)" "mset (freeing s' @ inside s') = mset (freeing s @ inside s)"
    and "set (freeing s') \<subseteq> set (freeing s)" "heap_ok0 im h0 s'"
    and "wire_ok im s'" "host_ok im h0 s'" "work0_ok im h0 s'" "mux_ok im h0 s'" "tram1_ok im s'" "tram2_ok im s'"
  shows "net_ok im h0 s'"
  using assms one_place_move [of s s'] busy_move [of s s', OF _ _ _ le_supI1] by (simp add: net_ok_def got_ok_def)

lemma ok_go0:
  assumes ok: "net_ok im h0 s" and g: "hpc s = HGo n" "w0 s = Ready"
  shows "net_ok im h0 (s\<lparr>hpc := HAlt, w0 := Running n\<rparr>)"
  by (rule net_ok_move [OF ok])
    (use net_ok_parts [OF ok] g in \<open>simp_all add: place_defs ok_defs buf_defs heap_ok0_def cong: pc_congs\<close>)

lemma ok_mux_own:
  assumes ok: "net_ok im h0 s" and g: "mpc s = MAlt" "w0 s = Finished l"
  shows "net_ok im h0 (s\<lparr>mpc := MOwn l, w0 := Ready\<rparr>)"
  by (rule net_ok_move [OF ok])
    (use net_ok_parts [OF ok] g in \<open>simp_all add: place_defs ok_defs buf_defs heap_ok0_def cong: pc_congs\<close>)

lemma ok_go1:
  assumes ok: "net_ok im h0 s" and g: "rpc s = RGo n" "w1 s = Ready"
  shows "net_ok im h0 (s\<lparr>rpc := RIn, w1 := Running n\<rparr>)"
  by (rule net_ok_move [OF ok])
    (use net_ok_parts [OF ok] g in \<open>simp_all add: place_defs ok_defs buf_defs heap_ok0_def cong: pc_congs\<close>)

lemma ok_mux1_own:
  assumes ok: "net_ok im h0 s" and g: "mpc1 s = MAlt" "w1 s = Finished l"
  shows "net_ok im h0 (s\<lparr>mpc1 := MOwn l, w1 := Ready\<rparr>)"
  by (rule net_ok_move [OF ok])
    (use net_ok_parts [OF ok] g in \<open>simp_all add: place_defs ok_defs buf_defs heap_ok0_def cong: pc_congs\<close>)

lemma ok_free:
  assumes ok: "net_ok im h0 s" and g: "mpc s = MFree k"
  shows "net_ok im h0 (s\<lparr>busy := (busy s)[k := False], mpc := MAlt\<rparr>)" (is "net_ok im h0 ?s")
  unfolding net_ok_def
proof (intro conjI)
  note p = net_ok_parts [OF ok]
  show "one_place ?s" by (rule one_place_move [OF p(1)]) (use g in \<open>simp_all add: place_defs\<close>)
  have "inside ?s = inside s" using g by (simp add: inside_def)
  then show "busy_right ?s" using p(2) g by (auto simp: busy_right_def freeing_def nth_list_update)
  show "heap_ok0 im h0 ?s" "wire_ok im ?s" "host_ok im h0 ?s" "work0_ok im h0 ?s" "mux_ok im h0 ?s" "tram1_ok im ?s" "tram2_ok im ?s" "got_ok im ?s"
    using p(3-10) g by (simp_all add: ok_defs buf_defs place_defs heap_ok0_def got_ok_def cong: pc_congs)
qed

text \<open>The header \<open>host\<close> reads is that of the request under way.\<close>

lemma hdr_read:
  assumes ok: "net_ok im h0 s" and g: "hpc s = HAlt" "chan_in (int JOB_HDR) (tj_w s) = Some (h, w)"
  obtains q where "q \<in> set (tj_fl s)" "h = fst q" "w = snd q" "at_wire (tj_w s) (hpc s) = [unat (h ! 3)]" "at_wire w (HWait h) = []"
    "req_node q = unat (h ! 3)"
proof -
  note p = net_ok_parts [OF ok]
  have "tj_w s \<noteq> []" using g(2) by (auto simp: chan_in_def JOB_HDR_def split: if_splits)
  then have wr: "at_wire (tj_w s) (hpc s) = [unat (tj_w s ! 3)]" using g by simp
  then obtain q where q: "q \<in> set (tj_fl s)" "req_node q = unat (tj_w s ! 3)" "tj_w s = fst q @ snd q"
    using p(3) by (auto simp: wire_ok_def elim: heldE)
  have rq: "length (fst q) = JOB_HDR" "msg_len (fst q) = int (length (snd q))" using q(1) p(10) by (auto simp: got_ok_def req_ok_def)
  have hw: "h = fst q" "w = snd q" using g(2) q(3) rq by (auto simp: chan_in_append)
  have "at_wire w (HWait h) = []" using hw rq by auto
  then show thesis using that [OF q(1) hw] wr q(2) hw by (simp add: req_node_def)
qed

lemma ok_host_hdr:
  assumes ok: "net_ok im h0 s" and g: "hpc s = HAlt" "chan_in (int JOB_HDR) (tj_w s) = Some (h, w)"
  shows "net_ok im h0 (s\<lparr>hpc := HWait h, tj_w := w\<rparr>)" (is "net_ok im h0 ?s")
proof -
  obtain q where q: "q \<in> set (tj_fl s)" "h = fst q" "w = snd q" "at_wire (tj_w s) (hpc s) = [unat (h ! 3)]" "at_wire w (HWait h) = []"
    "req_node q = unat (h ! 3)" using hdr_read [OF assms] .
  have "host_ok im h0 ?s" using q by (auto simp: host_ok_def held_def)
  moreover have "wire_ok im ?s" using q(5) by (simp add: wire_ok_def)
  ultimately show ?thesis
    by (intro net_ok_move [OF ok])
      (use net_ok_parts [OF ok] g q in \<open>simp_all add: place_defs ok_defs(3-) buf_defs heap_ok0_def cong: pc_congs\<close>)
qed

section \<open>Replies\<close>

definition kernels_ok :: "image \<Rightarrow> bool" where
  "kernels_ok im \<longleftrightarrow> (\<forall>k. kernels_fit (i_ker im k))"

lemma good_reply_id: "good_reply im q r \<Longrightarrow> g2 r 0 = g2 (fst q) 0"
  using lrep_fields(1) [where p = "[]"]
  by (auto simp: good_reply_def Let_def lrep_fields(1) elim!: job_reply_form split: if_splits)

lemma good_reply_shape:
  assumes "kernels_ok im" "good_reply im q r" "req_node q \<noteq> 0" "req_node q < NODES"
  obtains hd out where "r = hd @ out" "length hd = LREP_HDR" "sint (g4 hd 3) = int (length out)"
    "unat (hd ! R_NODE) = req_node q"
proof -
  obtain rp where "job_reply (i_cfg im (req_node q)) (i_ker im (req_node q)) rp (fst q) (Some (snd q)) (of_nat (req_node q)) JOB_MAX = Some r"
    using assms(2,3) by (auto simp: good_reply_def Let_def)
  from job_reply_shape [OF _ _ this] assms(1) obtain st out where
    r: "r = mk_lrep (g2 (fst q) 0) st (of_nat (length out)) (t4_adler32 (snd q)) (t4_adler32 out) (of_nat (req_node q)) @ out"
      "int (length out) \<le> JOB_MAX" by (auto simp: kernels_ok_def JOB_MAX_def)
  have "sint (of_nat (length out) :: u32) = int (length out)"
    using r(2) by (simp add: signed_of_nat signed_take_bit_int_eq_self JOB_MAX_def)
  moreover have "unat (of_nat (req_node q) :: u8) = req_node q" using assms(4) by (simp add: NODES_def unat_of_nat)
  ultimately show thesis using that [OF r(1)] lrep_fields(3,4) [where p = "[]", simplified] by simp
qed

lemma rep_read_good:
  assumes "kernels_ok im" "reply_in im b l q" "req_node q \<noteq> 0" "req_node q < NODES"
  shows "\<exists>b'. rep_read (take (nat l) b) b0 = Some (l, b', []) \<and> reply_in im b' l q \<and> unat (b' ! R_NODE) = req_node q"
proof -
  let ?r = "take (nat l) b"
  have l: "int (length ?r) = l" and g: "good_reply im q ?r" using assms(2) by (auto simp: reply_in_def)
  obtain hd out where r: "?r = hd @ out" "length hd = LREP_HDR" "sint (g4 hd 3) = int (length out)" "unat (hd ! R_NODE) = req_node q"
    using good_reply_shape [OF assms(1) g assms(3,4)] .
  have "put ?r b0 ! R_NODE = hd ! R_NODE" using r(1,2) by (simp add: put_def nth_append R_NODE_def LREP_HDR_def)
  moreover have "take (nat l) (put ?r b0) = ?r" using l by (metis nat_int take_put)
  moreover have "l \<le> int (length (put ?r b0))" "0 \<le> l" using l by (auto simp: put_def)
  ultimately show ?thesis using rep_read_sent [OF r(2,3), of b0] r(1,4) g l by (auto simp: reply_in_def)
qed

lemma held_node: "held s k P \<Longrightarrow> got_ok im s \<Longrightarrow> (\<And>q. q \<in> set (tj_fl s) \<Longrightarrow> req_node q = k \<Longrightarrow> req_ok im q \<Longrightarrow> P q \<Longrightarrow> thesis) \<Longrightarrow> thesis"
  by (auto simp: held_def got_ok_def)

lemma ok_mux_tram:
  assumes ok: "net_ok im h0 s" and kn: "kernels_ok im" and g: "mpc s = MAlt" "mpc1 s = MOwn l \<and> b = rep1 s \<or> mpc1 s = MSub l \<and> b = repm1 s"
    and r: "rep_read (take (nat l) b) (repm s) = Some (l', b', [])"
  shows "net_ok im h0 (s\<lparr>mpc := MSub l', repm := b', mpc1 := MAlt\<rparr>)" (is "net_ok im h0 ?s")
proof -
  note p = net_ok_parts [OF ok]
  obtain k where k: "at_mux (mpc1 s) 1 2 = [k]" "held s k (reply_in im b l)" "k \<noteq> 0" "k < NODES"
    using p(7) g(2) that [of 1] that [of 2] by (auto simp: tram1_ok_def NODES_def)
  from k(2) p(10) obtain q where q: "q \<in> set (tj_fl s)" "req_node q = k" "reply_in im b l q" by (rule held_node)
  from rep_read_good [OF kn q(3), of "repm s"] k(3,4) q(2) r have b': "l' = l" "reply_in im b' l q" "unat (b' ! R_NODE) = k" by auto
  have "mux_ok im h0 ?s" using q(1,2) b' k(3) by (auto simp: mux_ok_def held_def)
  moreover have "heap_ok0 im h0 ?s" using p(9) g(1) k(1) b'(3) by (auto simp: heap_ok0_def place_defs)
  ultimately show ?thesis
    by (intro net_ok_move [OF ok])
      (use p g k(1) b'(3) in \<open>simp_all add: place_defs ok_defs(1-3,5-) buf_defs cong: pc_congs\<close>)
qed

lemma ok_mux1_sub:
  assumes ok: "net_ok im h0 s" and kn: "kernels_ok im" and g: "mpc1 s = MAlt" "w2 s = Finished l"
    and r: "rep_read (take (nat l) (rep2 s)) (repm1 s) = Some (l', b', [])"
  shows "net_ok im h0 (s\<lparr>mpc1 := MSub l', repm1 := b', w2 := Ready\<rparr>)" (is "net_ok im h0 ?s")
proof -
  note p = net_ok_parts [OF ok]
  have "held s 2 (reply_in im (rep2 s) l)" using p(8) g(2) by (simp add: tram2_ok_def)
  then obtain q where q: "q \<in> set (tj_fl s)" "req_node q = 2" "reply_in im (rep2 s) l q" using p(10) by (rule held_node)
  from rep_read_good [OF kn q(3), of "repm1 s"] q(2) r have b': "l' = l" "reply_in im b' l q" by (auto simp: NODES_def)
  have "held ?s 2 (reply_in im b' l')" using q b' by (auto simp: held_def)
  then show ?thesis
    by (intro net_ok_move [OF ok])
      (use p g in \<open>simp_all add: place_defs ok_defs buf_defs heap_ok0_def cong: pc_congs\<close>)
qed

lemma tram_reply_in:
  assumes "sent_in h b n q" "req_node q = k" "k \<noteq> 0" "tram_reply im rp k h b n = Some r"
  shows "reply_in im (put r b0) (int (length r)) q"
proof -
  have "good_reply im q r" using assms by (auto simp: good_reply_def tram_reply_def sent_in_def)
  then show ?thesis by (simp add: reply_in_def put_def)
qed

lemma ok_run1:
  assumes ok: "net_ok im h0 s" and g: "w1 s = Running n" "tram_reply im rp 1 (hdr1 s) (in1 s) n = Some r"
  shows "net_ok im h0 (s\<lparr>w1 := Finished (int (length r)), rep1 := put r (rep1 s)\<rparr>)" (is "net_ok im h0 ?s")
proof -
  note p = net_ok_parts [OF ok]
  have "held s 1 (sent_in (hdr1 s) (in1 s) n)" using p(7) g(1) by (simp add: tram1_ok_def)
  then have "held ?s 1 (reply_in im (put r (rep1 s)) (int (length r)))"
    using tram_reply_in [OF _ _ _ g(2)] by (auto simp: held_def)
  moreover have "mpc1 s \<noteq> MOwn l" for l using one_place_distinct [OF p(1)] g(1) by (auto simp: place_defs)
  ultimately show ?thesis
    by (intro net_ok_move [OF ok])
      (use p g in \<open>auto simp: place_defs ok_defs buf_defs heap_ok0_def cong: pc_congs split: mux_pc.splits\<close>)
qed

lemma ok_run2:
  assumes ok: "net_ok im h0 s" and g: "w2 s = Running n" "tram_reply im rp 2 (hdr2 s) (in2 s) n = Some r"
  shows "net_ok im h0 (s\<lparr>w2 := Finished (int (length r)), rep2 := put r (rep2 s)\<rparr>)" (is "net_ok im h0 ?s")
proof -
  note p = net_ok_parts [OF ok]
  have "held s 2 (sent_in (hdr2 s) (in2 s) n)" using p(8) g(1) by (simp add: tram2_ok_def)
  then have "held ?s 2 (reply_in im (put r (rep2 s)) (int (length r)))"
    using tram_reply_in [OF _ _ _ g(2)] by (auto simp: held_def)
  then show ?thesis
    by (intro net_ok_move [OF ok])
      (use p g in \<open>simp_all add: place_defs ok_defs buf_defs heap_ok0_def cong: pc_congs\<close>)
qed

lemma ok_tram2:
  assumes ok: "net_ok im h0 s" and g: "rpc s = RFwd n" "w2 s = Ready"
    and r: "job_read (fwd_msg (hdrf1 s) (fwd1 s) n) (in2 s) = Some (m, h, b, [])"
  shows "net_ok im h0 (s\<lparr>rpc := RIn, w2 := Running m, hdr2 := h, in2 := b\<rparr>)" (is "net_ok im h0 ?s")
proof -
  note p = net_ok_parts [OF ok]
  have "held s 2 (sent_in (hdrf1 s) (fwd1 s) n)" using p(7) g(1) by (simp add: tram1_ok_def)
  then obtain q where q: "q \<in> set (tj_fl s)" "req_node q = 2" "req_ok im q" "sent_in (hdrf1 s) (fwd1 s) n q"
    using p(10) by (rule held_node)
  have "fwd_msg (hdrf1 s) (fwd1 s) n = fst q @ snd q" using q(4) by (simp add: fwd_msg_def sent_in_def)
  then have "m = int (length (snd q))" "h = fst q" "b = put (snd q) (in2 s)"
    using r q(2,3) job_read_sent [of "fst q" "snd q" "in2 s"] by (auto simp: req_ok_def)
  then have "held ?s 2 (sent_in h b m)" using q by (auto simp: held_def sent_in_def)
  then show ?thesis
    by (intro net_ok_move [OF ok])
      (use p g in \<open>simp_all add: place_defs ok_defs buf_defs heap_ok0_def cong: pc_congs\<close>)
qed

lemma work0_reply:
  assumes "work0 hs he c k hdr p kops a h = Some (Some r, b, h')"
  shows "a \<noteq> None \<and> (\<exists>rp. job_reply c k rp hdr (Some p) 0 (work0_room c k hdr p) = Some r) \<or>
    r = mk_lrep (g2 hdr 0) ST_TOOBIG 0 0 1 0"
  using assms
  by (auto simp: work0_def job_reply_refused Let_def Option.bind_eq_Some_conv split: option.splits if_splits prod.splits)

lemma ok_run0:
  assumes ok: "net_ok im h0 s" and h0: "heap_ok (i_he im) h0" and g: "w0 s = Running n" "kernel_tidy im kops s"
    and r: "work0 (i_hs im) (i_he im) (i_cfg im 0) (i_ker im 0) (hdr0 s) (in0b s) kops (in0 s) (nheap s) = Some (Some r, a, hp)"
  shows "net_ok im h0 (s\<lparr>w0 := Finished (int (length r)), in0 := None, rep0 := a, rep0b := r, nheap := hp\<rparr>)" (is "net_ok im h0 ?s")
proof -
  note p = net_ok_parts [OF ok]
  have "held s 0 (in0_ok im h0 s n)" using p(5) g(1) by (simp add: work0_ok_def)
  then obtain q where q: "q \<in> set (tj_fl s)" "req_node q = 0" "in0_ok im h0 s n q" using p(10) by (rule held_node)
  from q(3) obtain hp0 where i: "hdr0 s = fst q" "restored (i_he im) h0 hp0" "host_alloc (i_hs im) (i_he im) (fst q) hp0 = (in0 s, nheap s)"
    "in0 s \<noteq> None \<Longrightarrow> in0b s = snd q" by (auto simp: in0_ok_def)
  have "kernel_heap_ok (i_hs im) (i_he im) kops (kernel_heap (i_hs im) (i_he im) (i_cfg im 0) (i_ker im 0) (fst q) (in0b s) hp0)"
    using g(2) i(3) unfolding kernel_tidy_def kernel_heap_def i(1) by (simp only: snd_conv Let_def)
  from work0_restored [OF _ _ this i(3)] i(1,2) r obtain h' where "wrap_free a hp = Some h'" "restored (i_he im) hp0 h'"
    by (auto simp: restored_def)
  moreover from this(2) i(2) have "restored (i_he im) h0 h'" by (simp add: restored_def)
  moreover have "good_reply im q r" using work0_reply [OF r] i(1,4) q(2) by (auto simp: good_reply_def)
  ultimately have "held ?s 0 (rep0_ok im h0 ?s (int (length r)))" using q(1,2) by (auto simp: held_def rep0_ok_def reply_in_def)
  moreover have "mpc s \<noteq> MOwn l" "hpc s \<noteq> HGo m" for l m using one_place_distinct [OF p(1)] g(1) by (auto simp: place_defs)
  moreover have "heap_ok0 im h0 ?s" by (simp add: heap_ok0_def place_defs)
  ultimately show ?thesis
    by (intro net_ok_move [OF ok])
      (use p g in \<open>auto simp: place_defs ok_defs held_def cong: pc_congs split: mux_pc.splits host_pc.splits\<close>)
qed

lemma ok_route:
  assumes ok: "net_ok im h0 s" and g: "rpc s = RIn" "hpc s = HFwd n"
    and r: "route_in im (fwd_msg (hdrf s) (fwd s) n) (s\<lparr>hpc := HAlt\<rparr>) = Some (s', [])"
  shows "net_ok im h0 s'"
proof -
  note p = net_ok_parts [OF ok]
  have "held s (unat (hdrf s ! 3)) (\<lambda>q. req_node q \<noteq> 0 \<and> sent_in (hdrf s) (fwd s) n q)" using p(4) g(2) by (simp add: host_ok_def)
  then obtain q where q: "q \<in> set (tj_fl s)" "req_node q = unat (hdrf s ! 3)" "req_ok im q" "req_node q \<noteq> 0"
    "sent_in (hdrf s) (fwd s) n q" using p(10) by (rule held_node) blast
  have m: "fwd_msg (hdrf s) (fwd s) n = fst q @ snd q" "hdrf s = fst q" using q(5) by (simp_all add: fwd_msg_def sent_in_def)
  have rq: "length (fst q) = JOB_HDR" "msg_len (fst q) = int (length (snd q))" "int (length (snd q)) \<le> JOB_MAX" "req_node q < NODES" "req_node q < i_nodes im"
    using q(3,4) by (auto simp: req_ok_def)
  then have kk: "req_node q = 1 \<or> req_node q = 2" using q(4) by (auto simp: NODES_def)
  then show ?thesis
  proof
    assume k: "req_node q = 1"
    then have "hdrf s ! 3 = 1" using q(2) unat_1 by (metis word_unat_eq_iff)
    then have s': "s' = s\<lparr>hpc := HAlt, hdr1 := fst q, in1 := put (snd q) (in1 s), rpc := RGo (int (length (snd q)))\<rparr>"
      using r rq m by (auto simp: route_in_def chan_in_append chan_in_exact Let_def case_prod_beta)
    have "held s' 1 (sent_in (hdr1 s') (in1 s') (int (length (snd q))))" using q(1) k s' by (auto simp: held_def sent_in_def)
    moreover have "w1 s = Ready" using one_place_distinct [OF p(1)] g(2) k q(2) by (cases "w1 s") (auto simp: place_defs)
    ultimately show ?thesis using k q(2)
      by (intro net_ok_move [OF ok])
        (use p g in \<open>simp_all add: s' place_defs ok_defs buf_defs heap_ok0_def cong: pc_congs\<close>)
  next
    assume k: "req_node q = 2"
    then have "hdrf s ! 3 \<noteq> 1" using q(2) by auto
    then have s': "s' = s\<lparr>hpc := HAlt, hdrf1 := fst q, fwd1 := put (snd q) (fwd1 s), rpc := RFwd (int (length (snd q)))\<rparr>"
      using r rq m k by (auto simp: route_in_def chan_in_append chan_in_exact Let_def case_prod_beta)
    have "held s' 2 (sent_in (hdrf1 s') (fwd1 s') (int (length (snd q))))" using q(1) k s' by (auto simp: held_def sent_in_def)
    then show ?thesis using k q(2)
      by (intro net_ok_move [OF ok])
        (use p g in \<open>simp_all add: s' place_defs ok_defs buf_defs heap_ok0_def cong: pc_congs\<close>)
  qed
qed

text \<open>The payload \<open>host\<close> reads for the request it holds, and what stays on the link.\<close>

lemma wait_payload:
  assumes "net_ok im h0 s" "hpc s = HWait h"
  obtains q w where "q \<in> set (tj_fl s)" "req_node q = unat (h ! 3)" "req_ok im q" "h = fst q"
    "chan_in (msg_len h) (tj_w s) = Some (snd q, w)" "drain (msg_len h) (tj_w s) = Some w"
    "\<And>n. at_wire w (HGo n) = at_wire (tj_w s) (hpc s)" "\<And>n. at_wire w (HFwd n) = at_wire (tj_w s) (hpc s)" "w = [] \<or> w = tj_w s"
proof -
  note p = net_ok_parts [OF assms(1)]
  have "held s (unat (h ! 3)) (\<lambda>q. h = fst q \<and> (snd q = [] \<or> tj_w s = snd q))" using p(4) assms(2) by (simp add: host_ok_def)
  then obtain q where q: "q \<in> set (tj_fl s)" "req_node q = unat (h ! 3)" "req_ok im q" "h = fst q" "snd q = [] \<or> tj_w s = snd q"
    using p(10) by (rule held_node) blast
  have n: "msg_len h = int (length (snd q))" using q(3,4) by (simp add: req_ok_def)
  show thesis
  proof (cases "snd q = []")
    case True
    then show thesis using that [OF q(1-4), of "tj_w s"] n assms(2) by (simp add: chan_in_none drain_none)
  next
    case False
    then show thesis using that [OF q(1-4), of "[]"] n assms(2) q(5) drain_append [of _ "snd q" "[]"] by (simp add: chan_in_exact)
  qed
qed

lemma host_pick_own: "unat k < NODES \<Longrightarrow> host_pick bs k = (if bs ! unat k then None else Some (unat k))"
  by (auto simp: host_pick_def NODES_def NODE_ANY_def)

lemma busy_start:
  assumes "busy_right s" "busy s' = (busy s)[k := True]" "k < NODES" "\<not> busy s ! k" "freeing s' = freeing s"
    and "mset (inside s') = add_mset k (mset (inside s))"
  shows "busy_right s'"
proof -
  have "set (inside s') = insert k (set (inside s))" using assms(6) by (metis set_mset_add_mset_insert set_mset_mset)
  moreover have "k \<notin> set (freeing s @ inside s)" using assms(1,3,4) by (auto simp: busy_right_def)
  moreover have "distinct (inside s')"
    using assms(1,6) calculation(2) mset_eq_imp_distinct_iff [of "inside s'" "k # inside s"] by (simp add: busy_right_def)
  ultimately show ?thesis using assms by (auto simp: busy_right_def nth_list_update)
qed

lemma ok_host_job:
  assumes ok: "net_ok im h0 s" and h0: "heap_ok (i_he im) h0" and g: "hpc s = HWait h" "host_pick (busy s) (h ! 3) = Some k"
    and r: "host_start im h k s = Some s'"
  shows "net_ok im h0 s'"
proof -
  note p = net_ok_parts [OF ok]
  obtain q w where q: "q \<in> set (tj_fl s)" "req_node q = unat (h ! 3)" "req_ok im q" "h = fst q"
    and w: "chan_in (msg_len h) (tj_w s) = Some (snd q, w)" "drain (msg_len h) (tj_w s) = Some w"
      "\<And>n. at_wire w (HGo n) = at_wire (tj_w s) (hpc s)" "\<And>n. at_wire w (HFwd n) = at_wire (tj_w s) (hpc s)" "w = [] \<or> w = tj_w s"
    using wait_payload [OF ok g(1)] by metis
  have lt: "unat (h ! 3) < NODES" "req_node q < i_nodes im" "msg_len h = int (length (snd q))" using q(2,3,4) by (auto simp: req_ok_def)
  then have k: "k = unat (h ! 3)" "\<not> busy s ! k" using g(2) by (auto simp: host_pick_own split: if_splits)
  then have hk: "h[3 := of_nat k] = h" by simp
  have wr: "wire_ok im s'" if "tj_fl s' = tj_fl s" "tj_w s' = w" "hpc s' = HGo n \<or> hpc s' = HFwd n" for n
  proof -
    have "at_wire (tj_w s') (hpc s') = at_wire (tj_w s) (hpc s)" using that w(3,4) [of n] by metis
    moreover have "at_wire [] (hpc s') = []" using that(3) by auto
    ultimately show ?thesis using that(1,2) w(5) p(3) unfolding wire_ok_def held_def by (metis empty_iff set_empty)
  qed
  have fr: "\<not> 0 \<in> set (inside s)" if "k = 0" using one_place_distinct [OF p(1)] g(1) that k(1) by (auto simp: places_def)
  show ?thesis
  proof (cases "k = 0")
    case True
    obtain a hp where ha: "host_alloc (i_hs im) (i_he im) h (nheap s) = (a, hp)" by (metis surj_pair)
    let ?n = "if a = None then - 1 else msg_len h"
    have s': "s' = s\<lparr>busy := (busy s)[0 := True], hdr0 := h, in0 := a, in0b := (if a = None then [] else snd q), nheap := hp, tj_w := w, hpc := HGo ?n\<rparr>"
      using r True ha w(1,2) hk by (cases a) (auto simp: host_start_def Let_def)
    have rs: "restored (i_he im) h0 (nheap s)" using p(9) fr [OF True] by (simp add: heap_ok0_def)
    have "held s' 0 (in0_ok im h0 s' ?n)"
      unfolding s' held_def in0_ok_def using q(1,2,4) True k(1) rs ha lt(3) by (intro bexI [of _ q]) auto
    then have ho: "host_ok im h0 s'" by (simp add: host_ok_def s')
    have ns: "w0 s = Ready" "mpc s \<noteq> MOwn l" for l using fr [OF True] by (cases "w0 s", auto simp: inside_def)+
    show ?thesis unfolding net_ok_def
    proof (intro conjI)
      show "one_place s'" by (rule one_place_move [OF p(1)]) (use g w(3) True k(1) in \<open>simp_all add: s' place_defs\<close>)
      show "busy_right s'" by (rule busy_start [OF p(2), of _ 0]) (use g k True lt(1) in \<open>simp_all add: s' place_defs\<close>)
      show "heap_ok0 im h0 s'" by (simp add: heap_ok0_def s' place_defs)
      show "wire_ok im s'" by (rule wr) (simp_all add: s')
      show "host_ok im h0 s'" by (rule ho)
      show "work0_ok im h0 s'" "tram1_ok im s'" "tram2_ok im s'" "got_ok im s'"
        using p(5,7,8,10) ns(1) by (simp_all add: s' ok_defs held_def got_ok_def cong: pc_congs)
      show "mux_ok im h0 s'" using p(6) ns(2) by (auto simp: s' mux_ok_def held_def cong: pc_congs split: mux_pc.splits)
    qed
  next
    case False
    have "1 < i_nodes im" "msg_len h \<le> JOB_MAX" using False lt q(2,3) k(1) by (auto simp: req_ok_def)
    then have s': "s' = s\<lparr>busy := (busy s)[k := True], hdrf := h, fwd := put (snd q) (fwd s), tj_w := w, hpc := HFwd (msg_len h)\<rparr>"
      using r False w(1) hk by (auto simp: host_start_def Let_def)
    have ho: "host_ok im h0 s'"
      unfolding s' host_ok_def held_def sent_in_def using q k(1) False lt(3) by auto
    show ?thesis unfolding net_ok_def
    proof (intro conjI)
      show "one_place s'" by (rule one_place_move [OF p(1)]) (use g w(4) k(1) in \<open>simp_all add: s' place_defs\<close>)
      show "busy_right s'" by (rule busy_start [OF p(2), of _ k]) (use g k lt(1) in \<open>simp_all add: s' place_defs\<close>)
      show "heap_ok0 im h0 s'" using p(9) g(1) by (auto simp: heap_ok0_def s' place_defs)
      show "wire_ok im s'" by (rule wr) (simp_all add: s')
      show "host_ok im h0 s'" by (rule ho)
      show "work0_ok im h0 s'" "mux_ok im h0 s'" "tram1_ok im s'" "tram2_ok im s'" "got_ok im s'"
        using p(5-8,10) by (simp_all add: s' ok_defs buf_defs got_ok_def cong: pc_congs)
    qed
  qed
qed

lemma ok_send:
  assumes ok: "net_ok im h0 s" and g: "may_send im q s"
  shows "net_ok im h0 (send_req q s)" (is "net_ok im h0 ?s")
proof -
  note p = net_ok_parts [OF ok]
  have m: "tj_w s = []" "req_ok im q" "fst q \<noteq> []" "length (fst q) = JOB_HDR"
    "req_node q \<notin> req_node ` set (tj_fl s)" "g2 (fst q) 0 \<notin> (\<lambda>q. g2 (fst q) 0) ` set (tj_fl s)"
    using g by (auto simp: may_send_def req_ok_def list_all_iff JOB_HDR_def image_iff)
  have "\<not> 0 < msg_len h" if "hpc s = HWait h" for h
  proof -
    have "chan_in (msg_len h) [] \<noteq> None" using wait_payload [OF ok that] m(1) by (metis option.distinct(1))
    then show ?thesis by (auto simp: chan_in_def split: if_splits)
  qed
  then have wr: "at_wire (fst q @ snd q) (hpc s) = [req_node q]" "at_wire [] (hpc s) = []"
    using m(3,4) by (cases "hpc s"; simp add: req_node_def nth_append JOB_HDR_def)+
  have h: "held ?s k P \<longleftrightarrow> held s k P \<or> req_node q = k \<and> P q" for k P by (auto simp: held_def send_req_def)
  have e: "in0_ok im h0 ?s = in0_ok im h0 s" "rep0_ok im h0 ?s = rep0_ok im h0 s"
    by (intro ext, simp add: in0_ok_def rep0_ok_def send_req_def)+
  show ?thesis unfolding net_ok_def
  proof (intro conjI)
    show "one_place ?s" using p(1) m(1,5) wr by (auto simp: one_place_def places_def inside_def send_req_def)
    show "busy_right ?s" by (rule busy_move [OF p(2)]) (simp_all add: send_req_def place_defs)
    show "heap_ok0 im h0 ?s" using p(9) by (simp add: heap_ok0_def send_req_def place_defs)
    show "wire_ok im ?s" using wr by (auto simp: wire_ok_def held_def send_req_def)
    show "got_ok im ?s" using p(10) m(2,6) by (auto simp: got_ok_def send_req_def)
    show "host_ok im h0 ?s"
      using p(4) m(1) unfolding host_ok_def h e by (simp add: send_req_def split: host_pc.splits) (auto simp: held_def)
    show "work0_ok im h0 ?s" "mux_ok im h0 ?s" "tram1_ok im ?s" "tram2_ok im ?s"
      using p(5-8) unfolding ok_defs h e by (simp_all add: send_req_def split: work_pc.splits mux_pc.splits route_pc.splits)
  qed
qed

section \<open>Answered requests\<close>

lemma find_by:
  "q \<in> set qs \<Longrightarrow> distinct (map f qs) \<Longrightarrow> find (\<lambda>q'. f q' = f q) qs = Some q"
  by (induction qs) (auto simp: image_iff)

lemma remove1_by: "q \<in> set qs \<Longrightarrow> distinct (map f qs) \<Longrightarrow> set (remove1 q qs) = {q' \<in> set qs. f q' \<noteq> f q}"
  by (induction qs) (auto simp: image_iff)

lemma mset_map_remove1: "q \<in> set qs \<Longrightarrow> mset (map f qs) = add_mset (f q) (mset (map f (remove1 q qs)))"
  by (induction qs) auto

text \<open>\<open>ttjobd\<close> finds the request a correct reply answers.\<close>

lemma tj_reply_match:
  assumes "q \<in> set (tj_fl s)" "good_reply im q r" "got_ok im s" "tj_fl t = tj_fl s"
  shows "tj_reply r t = t\<lparr>tj_fl := remove1 q (tj_fl s), tj_got := tj_got t @ [(q, r)]\<rparr>"
proof -
  have "find (\<lambda>q'. g2 (fst q') 0 = g2 r 0) (tj_fl s) = Some q"
    using find_by [OF assms(1), of "\<lambda>q. g2 (fst q) 0"] good_reply_id [OF assms(2)] assms(3) by (simp add: got_ok_def)
  then show ?thesis by (simp add: tj_reply_def assms(4))
qed

lemma ok_reply:
  assumes ok: "net_ok im h0 s" and g: "at_mux (mpc s) 0 (unat (repm s ! R_NODE)) = [k]" "tj_w s = []"
    and q: "q \<in> set (tj_fl s)" "req_node q = k" "good_reply im q r"
    and hp: "k \<noteq> 0 \<Longrightarrow> nheap t = nheap s \<and> rep0 t = rep0 s" "k = 0 \<Longrightarrow> restored (i_he im) h0 (nheap t)"
    and t: "t = s\<lparr>mpc := MFree k, rep0 := rep0 t, nheap := nheap t\<rparr>"
  shows "net_ok im h0 (tj_reply r t)"
proof -
  note p = net_ok_parts [OF ok]
  have f: "tj_fl t = tj_fl s" "tj_got t = tj_got s" "freeing s = []" by (subst t, simp)+ (use g(1) in \<open>cases "mpc s"; simp add: freeing_def\<close>)
  let ?s = "tj_reply r t"
  have s': "?s = s\<lparr>mpc := MFree k, rep0 := rep0 t, nheap := nheap t, tj_fl := remove1 q (tj_fl s), tj_got := tj_got s @ [(q, r)]\<rparr>"
    unfolding tj_reply_match [OF q(1,3) p(10) f(1)] f(2) by (subst t) simp
  have dn: "distinct (map req_node (tj_fl s))" using p(1) by (simp add: one_place_def)
  have lt: "k < NODES" using q(1,2) p(10) by (auto simp: got_ok_def req_ok_def)
  have rm: "set (remove1 q (tj_fl s)) = {q' \<in> set (tj_fl s). req_node q' \<noteq> k}"
    using remove1_by [OF q(1) dn] q(2) by simp
  have keep: "held s k' P \<Longrightarrow> k' \<noteq> k \<Longrightarrow> held ?s k' P" for k' P by (auto simp: held_def s' rm)
  have pl: "mset (places s) = add_mset k (mset (places ?s))" "mset (inside s) = add_mset k (mset (inside ?s))"
    using g by (simp_all add: s' place_defs)
  have others: "k' \<noteq> k" if "k' \<in> set (places ?s)" for k'
    using one_place_distinct [OF p(1)] pl(1) that by (metis distinct.simps(2) mset.simps(2) mset_eq_imp_distinct_iff)
  show ?thesis unfolding net_ok_def
  proof (intro conjI)
    have "add_mset k (mset (places ?s)) = add_mset k (mset (map req_node (remove1 q (tj_fl s))))"
      using p(1) mset_map_remove1 [OF q(1), of req_node] pl(1) q(2) by (simp add: one_place_def)
    then show "one_place ?s" using distinct_map_remove1 [OF dn] by (simp add: one_place_def s')
    show "busy_right ?s"
      by (rule busy_move [OF p(2)]) (use pl(2) f(3) lt in \<open>simp_all add: s' freeing_def\<close>)
    show "got_ok im ?s" using p(10) q(3) distinct_map_remove1 by (auto simp: got_ok_def s' dest: notin_set_remove1)
    show "wire_ok im ?s" using g(2) by (cases "hpc s") (auto simp: wire_ok_def s')
    have ip: "in0_ok im h0 ?s = in0_ok im h0 s" "rep0_ok im h0 ?s = rep0_ok im h0 s" if "k \<noteq> 0"
      using hp(1) [OF that] by (intro ext, simp add: in0_ok_def rep0_ok_def s')+
    have pcs: "hpc ?s = hpc s" "hdrf ?s = hdrf s" "fwd ?s = fwd s" "tj_w ?s = tj_w s" "w0 ?s = w0 s" "mpc ?s = MFree k" "rpc ?s = rpc s"
      "w1 ?s = w1 s" "mpc1 ?s = mpc1 s" "w2 ?s = w2 s" "hdr1 ?s = hdr1 s" "in1 ?s = in1 s" "rep1 ?s = rep1 s" "hdrf1 ?s = hdrf1 s"
      "fwd1 ?s = fwd1 s" "repm1 ?s = repm1 s" "hdr2 ?s = hdr2 s" "in2 ?s = in2 s" "rep2 ?s = rep2 s" by (simp_all add: s')
    have "k \<notin> set (places ?s)" using others by blast
    then have ne: "hpc s = HWait h \<Longrightarrow> unat (h ! 3) \<noteq> k" "hpc s = HGo n \<Longrightarrow> k \<noteq> 0" "hpc s = HFwd n \<Longrightarrow> unat (hdrf s ! 3) \<noteq> k"
        "w0 s = Running n \<Longrightarrow> k \<noteq> 0" "w0 s = Finished n \<Longrightarrow> k \<noteq> 0" "rpc s = RGo n \<Longrightarrow> k \<noteq> 1" "rpc s = RFwd n \<Longrightarrow> k \<noteq> 2"
        "w1 s = Running n \<Longrightarrow> k \<noteq> 1" "w1 s = Finished n \<Longrightarrow> k \<noteq> 1" "mpc1 s = MOwn n \<Longrightarrow> k \<noteq> 1" "mpc1 s = MSub n \<Longrightarrow> k \<noteq> 2"
        "w2 s = Running n \<Longrightarrow> k \<noteq> 2" "w2 s = Finished n \<Longrightarrow> k \<noteq> 2" for n h
      by (auto simp: pcs places_def inside_def)
    show "host_ok im h0 ?s"
      using p(4) keep ip ne(1-3) unfolding host_ok_def pcs by (cases "hpc s") auto
    show "work0_ok im h0 ?s"
      using p(5) keep ip ne(4,5) unfolding work0_ok_def pcs by (cases "w0 s") auto
    show "mux_ok im h0 ?s" by (simp add: mux_ok_def pcs)
    show "tram1_ok im ?s" "tram2_ok im ?s"
      using p(7,8) keep ne(6-) unfolding tram1_ok_def tram2_ok_def pcs by (auto split: route_pc.splits work_pc.splits mux_pc.splits)
    have "set (inside s) = insert k (set (inside ?s))" using pl(2) by (metis set_mset_add_mset_insert set_mset_mset)
    moreover have "nheap ?s = nheap t" by (simp add: s')
    ultimately show "heap_ok0 im h0 ?s"
      using p(9) hp by (cases "k = 0") (auto simp: heap_ok0_def)
  qed
qed

lemma ok_reply_own:
  assumes ok: "net_ok im h0 s" and g: "mpc s = MOwn l" "tj_w s = []" "wrap_free (rep0 s) (nheap s) = Some hp"
  shows "net_ok im h0 (tj_reply (take (nat l) (rep0b s)) (s\<lparr>mpc := MFree 0, rep0 := None, nheap := hp\<rparr>))"
proof -
  note p = net_ok_parts [OF ok]
  have "held s 0 (rep0_ok im h0 s l)" using p(6) g(1) by (simp add: mux_ok_def)
  then obtain q where q: "q \<in> set (tj_fl s)" "req_node q = 0" "rep0_ok im h0 s l q" using p(10) by (rule held_node)
  then have "good_reply im q (take (nat l) (rep0b s))" "restored (i_he im) h0 hp" using g(3) by (auto simp: rep0_ok_def reply_in_def)
  then show ?thesis by (intro ok_reply [OF ok, of 0 q]) (use g q in simp_all)
qed

lemma ok_reply_sub:
  assumes ok: "net_ok im h0 s" and g: "mpc s = MSub l" "tj_w s = []"
  shows "net_ok im h0 (tj_reply (take (nat l) (repm s)) (s\<lparr>mpc := MFree (unat (repm s ! R_NODE))\<rparr>))"
proof -
  note p = net_ok_parts [OF ok]
  have "held s (unat (repm s ! R_NODE)) (\<lambda>q. req_node q \<noteq> 0 \<and> reply_in im (repm s) l q)" using p(6) g(1) by (simp add: mux_ok_def)
  then obtain q where q: "q \<in> set (tj_fl s)" "req_node q = unat (repm s ! R_NODE)" "req_node q \<noteq> 0" "reply_in im (repm s) l q"
    using p(10) by (rule held_node) blast
  then show ?thesis by (intro ok_reply [OF ok, of "unat (repm s ! R_NODE)" q]) (use g in \<open>simp_all add: reply_in_def\<close>)
qed

lemma root_ok_step:
  assumes "root_step im s s'" "net_ok im h0 s" "kernels_ok im" "heap_ok (i_he im) h0"
  shows "net_ok im h0 s'"
  using assms
proof (cases rule: root_step.cases)
  case (mux_tram1 l l' b)
  then show ?thesis using ok_mux_tram [of im h0 s l "rep1 s"] assms by auto
next
  case (mux_tram2 l l' b)
  then show ?thesis using ok_mux_tram [of im h0 s l "repm1 s"] assms by auto
qed (use assms in \<open>auto intro: ok_host_hdr ok_free ok_host_job ok_go0 ok_run0 ok_mux_own ok_reply_own ok_reply_sub\<close>)

lemma tram1_ok_step: "tram1_step im s s' \<Longrightarrow> net_ok im h0 s \<Longrightarrow> kernels_ok im \<Longrightarrow> net_ok im h0 s'"
  by (cases rule: tram1_step.cases) (auto intro: ok_route ok_go1 ok_run1 ok_mux1_own ok_mux1_sub)

lemma tram2_ok_step: "tram2_step im s s' \<Longrightarrow> net_ok im h0 s \<Longrightarrow> net_ok im h0 s'"
  by (cases rule: tram2_step.cases) (auto intro: ok_tram2 ok_run2)

lemma net_ok_step:
  "net_step im s s' \<Longrightarrow> net_ok im h0 s \<Longrightarrow> kernels_ok im \<Longrightarrow> heap_ok (i_he im) h0 \<Longrightarrow> net_ok im h0 s'"
  by (cases rule: net_step.cases) (auto intro: root_ok_step tram1_ok_step tram2_ok_step)

lemma net_ok_init: "heap_ok (i_he im) h0 \<Longrightarrow> no_job h0 \<Longrightarrow> net_ok im h0 (net_init h0)"
  by (simp add: net_ok_def net_init_def one_place_def busy_right_def ok_defs place_defs heap_ok0_def got_ok_def restored_refl)

lemma net_reach_ok:
  "net_reach im h0 s \<Longrightarrow> kernels_ok im \<Longrightarrow> heap_ok (i_he im) h0 \<Longrightarrow> no_job h0 \<Longrightarrow> net_ok im h0 s"
  by (induction rule: net_reach.induct) (auto intro: net_ok_init ok_send net_ok_step)

end
