(* ===== verification/JobnetProps.thy ===== *)
theory JobnetProps
  imports JobnetInv
begin

text \<open>
  What the network of \<open>Jobnet\<close> promises: replies are right and matched, it cannot deadlock, and every run without new
  requests ends with everything answered.
\<close>

section \<open>Progress\<close>

lemma route_moves:
  assumes ok: "net_ok im h0 s" and r: "rpc s \<noteq> RIn"
  shows "\<exists>s'. net_step im s s'"
proof -
  note p = net_ok_parts [OF ok] and d = one_place_distinct [OF net_ok_parts(1) [OF ok]]
  show ?thesis
  proof (cases "rpc s")
    case (RGo n)
    then have "w1 s = Ready" using d by (cases "w1 s") (auto simp: place_defs)
    with RGo show ?thesis by (blast intro: go1 [THEN on_tram1])
  next
    case (RFwd n)
    then have w: "w2 s = Ready" using d by (cases "w2 s") (auto simp: place_defs)
    have "held s 2 (sent_in (hdrf1 s) (fwd1 s) n)" using p(7) RFwd by (simp add: tram1_ok_def)
    then obtain q where q: "req_node q = 2" "req_ok im q" "sent_in (hdrf1 s) (fwd1 s) n q" using p(10) by (rule held_node)
    then have "fwd_msg (hdrf1 s) (fwd1 s) n = fst q @ snd q" by (simp add: fwd_msg_def sent_in_def)
    then have "\<exists>m h b. job_read (fwd_msg (hdrf1 s) (fwd1 s) n) (in2 s) = Some (m, h, b, [])"
      using q job_read_sent [of "fst q" "snd q" "in2 s"] by (auto simp: req_ok_def)
    with RFwd w show ?thesis by (blast intro: tram2 [THEN on_tram2])
  qed (use r in simp)
qed

text \<open>\<open>host\<close> is never stuck: a node it waits for has its mark on the way.\<close>

lemma host_moves:
  assumes ok: "net_ok im h0 s" and h: "hpc s \<noteq> HAlt \<or> tj_w s \<noteq> []"
  shows "\<exists>s'. net_step im s s'"
proof -
  note p = net_ok_parts [OF ok] and d = one_place_distinct [OF net_ok_parts(1) [OF ok]]
  show ?thesis
  proof (cases "hpc s")
    case HAlt
    then have "held s (unat (tj_w s ! 3)) (\<lambda>q. tj_w s = fst q @ snd q)" using h p(3) by (simp add: wire_ok_def)
    then obtain q where "req_ok im q" "tj_w s = fst q @ snd q" using p(10) by (rule held_node)
    then have "chan_in (int JOB_HDR) (tj_w s) = Some (fst q, snd q)" using chan_in_append [of "int JOB_HDR" "fst q" "snd q"] by (simp add: req_ok_def)
    then show ?thesis using host_hdr [OF HAlt, THEN on_root] by blast
  next
    case (HWait h)
    obtain q w where q: "req_node q = unat (h ! 3)" "req_ok im q" "h = fst q"
      and w: "chan_in (msg_len h) (tj_w s) = Some (snd q, w)" "drain (msg_len h) (tj_w s) = Some w"
      using wait_payload [OF ok HWait] by metis
    have lt: "unat (h ! 3) < NODES" using q by (simp add: req_ok_def)
    show ?thesis
    proof (cases "busy s ! unat (h ! 3)")
      case True
      have "unat (h ! 3) \<notin> set (inside s)" using d HWait by (auto simp: places_def)
      then have "unat (h ! 3) \<in> set (freeing s)" using p(2) lt True by (auto simp: busy_right_def)
      then obtain k where "mpc s = MFree k" by (cases "mpc s") (auto simp: freeing_def)
      with HWait True lt show ?thesis using host_wait [OF HWait, THEN on_root] by (auto simp: host_pick_own)
    next
      case False
      then have "host_pick (busy s) (h ! 3) = Some (unat (h ! 3))" using lt by (simp add: host_pick_own)
      moreover have "\<exists>s'. host_start im h (unat (h ! 3)) s = Some s'"
        using w by (auto simp: host_start_def Let_def split: prod.splits option.splits)
      ultimately show ?thesis using host_job [OF HWait, THEN on_root] by blast
    qed
  next
    case (HGo n)
    then have "w0 s = Ready" using d by (cases "w0 s") (auto simp: place_defs)
    with HGo show ?thesis by (blast intro: go0 [THEN on_root])
  next
    case (HFwd n)
    show ?thesis
    proof (cases "rpc s = RIn")
      case True
      have "held s (unat (hdrf s ! 3)) (\<lambda>q. req_node q \<noteq> 0 \<and> sent_in (hdrf s) (fwd s) n q)" using p(4) HFwd by (simp add: host_ok_def)
      then obtain q where q: "req_ok im q" "req_node q \<noteq> 0" "sent_in (hdrf s) (fwd s) n q" using p(10) by (rule held_node) blast
      then have m: "fwd_msg (hdrf s) (fwd s) n = fst q @ snd q" by (simp add: fwd_msg_def sent_in_def)
      have "\<exists>s'. route_in im (fst q @ snd q) (s\<lparr>hpc := HAlt\<rparr>) = Some (s', [])"
        using q by (auto simp: route_in_def req_ok_def chan_in_append chan_in_exact Let_def case_prod_beta)
      then show ?thesis using route [OF True HFwd, THEN on_tram1] m by auto
    qed (rule route_moves [OF ok])
  qed
qed

lemma tram_moves:
  assumes ok: "net_ok im h0 s" and kn: "kernels_ok im" and t: "\<And>k. \<not> JOB_TEST (i_cfg im k)"
    and m: "mpc s = MAlt" and w: "w1 s \<noteq> Ready \<or> w2 s \<noteq> Ready \<or> mpc1 s \<noteq> MAlt"
  shows "\<exists>s'. net_step im s s'"
proof -
  note p = net_ok_parts [OF ok]
  have run: "\<exists>r. tram_reply im undefined k h b n = Some r" for k h b n using job_reply_returns [OF t] by (simp add: tram_reply_def)
  have rd: "\<exists>l' b'. rep_read (take (nat l) b) b0 = Some (l', b', [])" if "held s k (reply_in im b l)" "k \<noteq> 0" "k < NODES" for k b l b0
    using that(1) p(10) by (rule held_node) (use rep_read_good [OF kn, of b l _ b0] that(2,3) in blast)
  show ?thesis
  proof (cases "mpc1 s")
    case (MOwn l)
    then show ?thesis using rd [of 1 "rep1 s" l "repm s"] p(7) mux_tram1 [OF m MOwn, THEN on_root] by (auto simp: tram1_ok_def NODES_def)
  next
    case (MSub l)
    then show ?thesis using rd [of 2 "repm1 s" l "repm s"] p(7) mux_tram2 [OF m MSub, THEN on_root] by (auto simp: tram1_ok_def NODES_def)
  next
    case MAlt
    consider (a) n where "w1 s = Running n" | (b) l where "w1 s = Finished l" | (c) n where "w2 s = Running n" | (d) l where "w2 s = Finished l"
      using w MAlt by (cases "w1 s"; cases "w2 s") auto
    then show ?thesis
    proof cases
      case a
      then show ?thesis using run1 [OF a, THEN on_tram1] run by blast
    next
      case b
      then show ?thesis using mux1_own [OF MAlt b, THEN on_tram1] by blast
    next
      case c
      then show ?thesis using run2 [OF c, THEN on_tram2] run by blast
    next
      case d
      then show ?thesis using rd [of 2 "rep2 s" l "repm1 s"] p(8) mux1_sub [OF MAlt d, THEN on_tram1] by (auto simp: tram2_ok_def NODES_def)
    qed
  qed (use p(7) in \<open>simp add: tram1_ok_def\<close>)
qed

lemma net_progress:
  assumes ok: "net_ok im h0 s" and kn: "kernels_ok im" and t: "\<And>k. \<not> JOB_TEST (i_cfg im k)" and fl: "tj_fl s \<noteq> []"
  shows "\<exists>s'. net_step im s s'"
proof (cases "hpc s = HAlt \<and> tj_w s = []")
  case False
  then show ?thesis using host_moves [OF ok] by auto
next
  case h: True
  note p = net_ok_parts [OF ok]
  show ?thesis
  proof (cases "mpc s")
    case (MOwn l)
    then have "\<exists>hp. wrap_free (rep0 s) (nheap s) = Some hp" using p(6) by (auto simp: mux_ok_def held_def rep0_ok_def)
    then show ?thesis using reply_own [OF MOwn, THEN on_root] h by blast
  next
    case (MSub l)
    then show ?thesis using reply_sub [OF MSub, THEN on_root] h by blast
  next
    case (MFree k)
    then show ?thesis using host_free [OF _ MFree, THEN on_root] h by blast
  next
    case MAlt
    show ?thesis
    proof (cases "w0 s")
      case (Running n)
      then have "held s 0 (in0_ok im h0 s n)" using p(5) by (simp add: work0_ok_def)
      then obtain q hp where i: "hdr0 s = fst q" "restored (i_he im) h0 hp" "host_alloc (i_hs im) (i_he im) (fst q) hp = (in0 s, nheap s)"
        by (auto simp: held_def in0_ok_def)
      have "\<exists>rep rep0 h2. work0 (i_hs im) (i_he im) (i_cfg im 0) (i_ker im 0) (hdr0 s) (in0b s) [] (in0 s) (nheap s) = Some (Some rep, rep0, h2)"
        unfolding i(1) by (rule work0_runs [OF _ _ i(3) t]) (use i(2) in \<open>simp_all add: restored_def\<close>)
      moreover have "kernel_tidy im [] s" by (simp add: kernel_tidy_def kernel_nil)
      ultimately show ?thesis using run0 [OF Running, THEN on_root] by blast
    next
      case (Finished l)
      then show ?thesis using mux_own [OF MAlt, THEN on_root] by blast
    next
      case Ready
      have "places s \<noteq> []" using p(1) fl by (auto simp: one_place_def)
      then have "rpc s \<noteq> RIn \<or> w1 s \<noteq> Ready \<or> w2 s \<noteq> Ready \<or> mpc1 s \<noteq> MAlt"
        using h MAlt Ready by (auto simp: place_defs)
      then show ?thesis using route_moves [OF ok] tram_moves [OF ok kn t MAlt] by blast
    qed
  qed
qed

section \<open>Every run ends\<close>

text \<open>How far the jobs are from their answer.\<close>

fun work_left :: "work_pc \<Rightarrow> nat" where
  "work_left Ready = 0" | "work_left (Running n) = 6" | "work_left (Finished l) = 5"

fun mux_left :: "mux_pc \<Rightarrow> nat" where
  "mux_left MAlt = 0" | "mux_left (MFree k) = 1" | "mux_left pc = 2"

definition net_left :: "net \<Rightarrow> nat" where
  "net_left s = 10 * length (at_wire (tj_w s) (hpc s)) + 9 * length (at_wait (hpc s)) + 8 * length (at_host (hpc s) (hdrf s)) +
     7 * length (at_route (rpc s)) + work_left (w0 s) + work_left (w1 s) + work_left (w2 s) +
     4 * length (at_mux (mpc1 s) 1 2) + mux_left (mpc s)"

lemma tj_reply_fields:
  "tj_w (tj_reply r s) = tj_w s" "hpc (tj_reply r s) = hpc s" "hdrf (tj_reply r s) = hdrf s" "rpc (tj_reply r s) = rpc s"
  "w0 (tj_reply r s) = w0 s" "w1 (tj_reply r s) = w1 s" "w2 (tj_reply r s) = w2 s" "mpc1 (tj_reply r s) = mpc1 s" "mpc (tj_reply r s) = mpc s"
  by (simp_all add: tj_reply_def split: option.split)

lemma host_start_fields:
  assumes "host_start im h k s = Some s'" "h[3 := of_nat k] = h" "chan_in (msg_len h) (tj_w s) = Some (p, w)" "drain (msg_len h) (tj_w s) = Some w"
  shows "tj_w s' = w \<and> (hpc s' = HAlt \<or> (\<exists>n. hpc s' = HGo n) \<or> (\<exists>n. hpc s' = HFwd n)) \<and> rpc s' = rpc s \<and> w0 s' = w0 s \<and> w1 s' = w1 s \<and>
    w2 s' = w2 s \<and> mpc1 s' = mpc1 s \<and> mpc s' = mpc s"
  using assms(1) unfolding host_start_def Let_def assms(2)
  by (cases "host_alloc (i_hs im) (i_he im) h (nheap s)") (auto simp: assms(3,4) split: option.splits if_splits)

lemma route_in_fields:
  "route_in im m t = Some (s', r) \<Longrightarrow> tj_w s' = tj_w t \<and> hpc s' = hpc t \<and> hdrf s' = hdrf t \<and> w0 s' = w0 t \<and> w1 s' = w1 t \<and>
    w2 s' = w2 t \<and> mpc1 s' = mpc1 t \<and> mpc s' = mpc t"
  unfolding route_in_def Let_def
  by (cases "chan_in (int JOB_HDR) m") (auto simp: Option.bind_eq_Some_conv split: if_splits)

lemma net_left_root:
  assumes st: "root_step im s s'" and ok: "net_ok im h0 s"
  shows "net_left s' < net_left s"
  using st
proof (cases rule: root_step.cases)
  case (host_hdr h w)
  obtain q where "at_wire (tj_w s) (hpc s) = [unat (h ! 3)]" "at_wire w (HWait h) = []" "req_node q = unat (h ! 3)"
    using hdr_read [OF ok host_hdr(2,3)] by metis
  then show ?thesis using host_hdr(1,2) by (simp add: net_left_def)
next
  case (host_job h k)
  obtain q w where w: "chan_in (msg_len h) (tj_w s) = Some (snd q, w)" "drain (msg_len h) (tj_w s) = Some w"
      "\<And>n. at_wire w (HGo n) = at_wire (tj_w s) (hpc s)" "req_ok im q" "h = fst q" "req_node q = unat (h ! 3)"
    using wait_payload [OF ok host_job(1)] by metis
  then have "k = unat (h ! 3)" using host_job(2) by (auto simp: host_pick_own req_ok_def split: if_splits)
  then have "h[3 := of_nat k] = h" by simp
  from host_start_fields [OF host_job(3) this w(1,2)]
  have f: "tj_w s' = w" "hpc s' = HAlt \<or> (\<exists>n. hpc s' = HGo n) \<or> (\<exists>n. hpc s' = HFwd n)" "rpc s' = rpc s" "w0 s' = w0 s" "w1 s' = w1 s"
    "w2 s' = w2 s" "mpc1 s' = mpc1 s" "mpc s' = mpc s" by simp_all
  have "at_wire w (hpc s') = at_wire (tj_w s) (hpc s)" "at_wait (hpc s') = []" "length (at_host (hpc s') (hdrf s')) \<le> 1"
  proof -
    have "at_wire w (hpc s') = at_wire w (HGo 0)" using f(2) by (elim disjE exE) simp_all
    then show "at_wire w (hpc s') = at_wire (tj_w s) (hpc s)" by (simp only: w(3))
    show "at_wait (hpc s') = []" "length (at_host (hpc s') (hdrf s')) \<le> 1" using f(2) by (elim disjE exE; simp)+
  qed
  then show ?thesis unfolding net_left_def f(1,3-) using host_job(1) by simp
next
  case (mux_tram1 l l' b)
  then show ?thesis by (simp add: net_left_def)
next
  case (mux_tram2 l l' b)
  then show ?thesis by (simp add: net_left_def)
qed (auto simp: net_left_def tj_reply_fields)

lemma net_left_tram1:
  assumes "tram1_step im s s'"
  shows "net_left s' < net_left s"
  using assms
proof (cases rule: tram1_step.cases)
  case (route n)
  note f = route_in_fields [OF route(3)]
  have "length (at_route (rpc s')) \<le> 1" by (cases "rpc s'") auto
  then show ?thesis using route(1,2) f unfolding net_left_def by simp
qed (auto simp: net_left_def)

lemma net_left_tram2: "tram2_step im s s' \<Longrightarrow> net_left s' < net_left s"
  by (cases rule: tram2_step.cases) (auto simp: net_left_def)

lemma net_left_step: "net_step im s s' \<Longrightarrow> net_ok im h0 s \<Longrightarrow> net_left s' < net_left s"
  by (cases rule: net_step.cases) (auto intro: net_left_root net_left_tram1 net_left_tram2)

lemma net_left_bound:
  assumes "net_ok im h0 s"
  shows "net_left s \<le> 31"
proof -
  have wk: "work_left w \<le> 10 * length (at_work k w)" for w k by (cases w) auto
  have mx: "mux_left m \<le> 1 + 10 * length (at_mux m a b)" for m a b by (cases m) auto
  have "net_left s \<le> 10 * length (places s) + 1"
    unfolding net_left_def places_def inside_def length_append
    using wk [of "w0 s" 0] wk [of "w1 s" 1] wk [of "w2 s" 2] mx [of "mpc s" 0 "unat (repm s ! R_NODE)"] by simp
  moreover have "set (places s) \<subseteq> {..<NODES}"
    using one_place_set [OF net_ok_parts(1) [OF assms]] net_ok_parts(10) [OF assms] by (auto simp: got_ok_def req_ok_def)
  then have "length (places s) \<le> NODES"
    using one_place_distinct [OF net_ok_parts(1) [OF assms]] card_mono [of "{..<NODES}" "set (places s)"] by (simp add: distinct_card)
  ultimately show ?thesis by (simp add: NODES_def)
qed

lemma net_run:
  assumes "(net_step im ^^ n) s s'" "net_ok im h0 s" "kernels_ok im" "heap_ok (i_he im) h0"
  shows "net_ok im h0 s' \<and> n + net_left s' \<le> net_left s"
  using assms(1)
proof (induction n arbitrary: s')
  case (Suc n)
  then obtain t where t: "(net_step im ^^ n) s t" "net_step im t s'" by auto
  from Suc.IH [OF t(1)] net_left_step [OF t(2)] net_ok_step [OF t(2) _ assms(3,4)] show ?case by fastforce
qed (use assms(2) in simp)

section \<open>Properties\<close>

definition demo_image :: image where
  "demo_image = \<lparr>i_nodes = 3, i_hs = 8, i_he = 1032, i_cfg = (\<lambda>_. demo_cfg), i_ker = (\<lambda>_. demo_kernels)\<rparr>"

definition demo_net :: net where
  "demo_net = send_req (mk_req 1 OP_ECHO 2 0 1 1, [65]) (net_init demo_heap)"

lemma demo_net_facts:
  "net_reach demo_image demo_heap demo_net" "kernels_ok demo_image" "heap_ok (i_he demo_image) demo_heap" "no_job demo_heap"
  "\<not> JOB_TEST (i_cfg demo_image k)"
proof -
  note f = req_fields(3,5) [where p = "[]", simplified]
  have "may_send demo_image (mk_req 1 OP_ECHO 2 0 1 1, [65]) (net_init demo_heap)"
    by (simp add: may_send_def net_init_def demo_image_def msg_len_def req_node_def f NODES_def JOB_MAX_def)
  then show "net_reach demo_image demo_heap demo_net" unfolding demo_net_def by (intro net_reach.send net_reach.start)
  show "kernels_ok demo_image" by (auto simp: kernels_ok_def kernels_fit_def demo_image_def demo_kernels_def split: if_splits)
  show "heap_ok (i_he demo_image) demo_heap" using demo_heap_ok by (simp add: demo_image_def)
  show "no_job demo_heap" by (simp add: no_job_def demo_heap_val heap0_def)
  show "\<not> JOB_TEST (i_cfg demo_image k)" by (simp add: demo_image_def demo_cfg_def)
qed

text \<open>C3. Whatever the order in which the seven processes run, every reply \<open>ttjobd\<close> reads answers one of its
  requests, with the bytes \<open>job_reply\<close> computes on the node the request names from that request's header and
  payload (on node 0 possibly \<open>ST_TOOBIG\<close>): no shared buffer is overwritten while it is in use. No two
  outstanding requests are on one node, and with nothing outstanding the T425's heap is as it was at the
  start. (Hypotheses: the kernels write at most the room they are given and free only their own blocks.)\<close>

theorem jobnet_replies_right:
  assumes "net_reach im h0 s" and "kernels_ok im" and "heap_ok (i_he im) h0" and "no_job h0"
  shows "tj_stray s = [] \<and> list_all (\<lambda>(q, r). good_reply im q r) (tj_got s) \<and> distinct (map req_node (tj_fl s)) \<and>
    (tj_fl s = [] \<longrightarrow> h_fl (nheap s) = h_fl h0 \<and> set (h_live (nheap s)) = set (h_live h0))"
proof -
  have ok: "net_ok im h0 s" by (rule net_reach_ok [OF assms])
  note p = net_ok_parts [OF ok]
  have "restored (i_he im) h0 (nheap s)" if "tj_fl s = []"
  proof -
    have "inside s = []" using p(1) that by (simp add: one_place_def places_def)
    then show ?thesis using p(9) by (simp add: heap_ok0_def)
  qed
  then show ?thesis
    using p(1,10) restored_fl [OF assms(3)] by (auto simp: got_ok_def one_place_def list_all_iff restored_def)
qed

theorem jobnet_replies_right_witness:
  "tj_stray demo_net = [] \<and> distinct (map req_node (tj_fl demo_net))"
  using jobnet_replies_right [OF demo_net_facts(1-4)] by (elim conjE) (intro conjI)

text \<open>C4. The network never deadlocks and answers everything: from any reachable state, without new requests,
  every run of the processes has at most 31 steps, and as long as a request is outstanding another step is
  possible, although \<open>ttjobd\<close> reads no reply while it is writing a request. (Hypotheses as before, and no
  kernel that loops for ever, the test operation \<open>'H'\<close>.)\<close>

theorem jobnet_answers_all:
  assumes "net_reach im h0 s" and "kernels_ok im" and "heap_ok (i_he im) h0" and "no_job h0"
    and "\<And>k. \<not> JOB_TEST (i_cfg im k)" and "(net_step im ^^ n) s s'"
  shows "n \<le> 31 \<and> (tj_fl s' = [] \<or> (\<exists>s''. net_step im s' s''))"
proof -
  have ok: "net_ok im h0 s" by (rule net_reach_ok [OF assms(1-4)])
  from net_run [OF assms(6) ok assms(2,3)] net_left_bound [OF ok] have "net_ok im h0 s'" "n \<le> 31" by auto
  then show ?thesis using net_progress [OF _ assms(2,5)] by blast
qed

theorem jobnet_answers_all_witness: "\<exists>s'. net_step demo_image demo_net s'"
proof -
  have "(net_step demo_image ^^ 0) demo_net demo_net" by simp
  from jobnet_answers_all [OF demo_net_facts this] show ?thesis by (simp add: demo_net_def send_req_def net_init_def)
qed

end
