(* ===== verification/T4lock.thy ===== *)
theory T4lock
  imports Prelude
begin

text \<open>
  The lock on the T425, \<open>sam-yum-tt/src/t4lock.c\<close>: the file \<open>/tmp/t425.lock\<close> with the pid and the program of its
  owner, and the file that says which server is loaded. \<open>t4lock_take\<close> is a state machine of its system calls, so
  several processes can be interleaved; a file is a directory entry and a node, and a process that has a file open
  keeps its node after an unlink. The kernel's process table is the record \<open>kern\<close>. Shown: run on its own a take is
  exclusive and takes over only what no live owner holds, and release frees only one's own lock; run together
  two takes can both succeed.
\<close>

section \<open>The code\<close>

text \<open>What \<open>/kern\<close> and \<open>kill(pid, 0)\<close> tell, and whether \<open>/tmp\<close> can be written.\<close>

record kern =
  k_alive :: "int \<Rightarrow> bool"
  k_fname :: "int \<Rightarrow> string option"
  k_stat :: "int \<Rightarrow> string option"
  k_tmp_ok :: bool

definition prog_of :: "kern \<Rightarrow> int \<Rightarrow> nat \<Rightarrow> string" where
  "prog_of k pid sz = (case k_fname k pid of
     None \<Rightarrow> []
   | Some line \<Rightarrow> takeWhile (\<lambda>c. c \<noteq> CHR '' '' \<and> c \<noteq> CHR 0x0D \<and> c \<noteq> CHR 0x0A) (take (sz - 1) line))"

text \<open>What follows the last \<open>)\<close>.\<close>

fun after_paren :: "string \<Rightarrow> string option" where
  "after_paren [] = None"
| "after_paren (c # cs) = (case after_paren cs of Some r \<Rightarrow> Some r | None \<Rightarrow> if c = CHR '')'' then Some cs else None)"

definition is_zombie :: "kern \<Rightarrow> int \<Rightarrow> bool" where
  "is_zombie k pid = (case k_stat k pid of
     None \<Rightarrow> False
   | Some line \<Rightarrow> (case after_paren (take 159 line) of
        Some (a # z # _) \<Rightarrow> a = CHR '' '' \<and> z = CHR ''Z''
      | _ \<Rightarrow> False))"

text \<open>\<open>sprintf("%ld")\<close>.\<close>

fun dec_nat :: "nat \<Rightarrow> string" where
  "dec_nat n = (if n < 10 then [char_of (48 + n)] else dec_nat (n div 10) @ [char_of (48 + n mod 10)])"

definition dec :: "int \<Rightarrow> string" where
  "dec x = (if x < 0 then CHR ''-'' # dec_nat (nat (- x)) else dec_nat (nat x))"

definition lock_text :: "kern \<Rightarrow> int \<Rightarrow> string" where
  "lock_text k me = (let now = prog_of k me 256 in dec me @ '' '' @ (if now \<noteq> [] then now else ''-'') @ [CHR 0x0A])"

text \<open>\<open>fscanf("%ld %255s")\<close>: the number, or 0 when there is none, and the word after it.\<close>

definition scan_owner :: "string \<Rightarrow> int \<times> string" where
  "scan_owner s =
     (let s = dropWhile is_space s;
          d = (case s of c # cs \<Rightarrow> if c = CHR ''-'' \<or> c = CHR ''+'' then cs else s | [] \<Rightarrow> []);
          rest = dropWhile is_space (dropWhile is_digit d)
      in if d = [] \<or> \<not> is_digit (hd d) then (0, []) else (atoi s, take 255 (takeWhile (\<lambda>c. \<not> is_space c) rest)))"

text \<open>The file: the node its name stands for, the nodes' contents, the nodes used so far.\<close>

record fs =
  f_lock :: "nat option"
  f_data :: "nat \<Rightarrow> string"
  f_next :: nat
  f_loaded :: "string option"

datatype take_pc = TOpen nat | TWrite nat | TRead nat | TUnlink nat | TDone int

definition owner_of :: "fs \<Rightarrow> int \<times> string" where
  "owner_of f = (case f_lock f of None \<Rightarrow> (0, []) | Some i \<Rightarrow> scan_owner (f_data f i))"

definition owner_live :: "kern \<Rightarrow> int \<Rightarrow> int \<Rightarrow> string \<Rightarrow> bool" where
  "owner_live k me pid held =
     (let now = prog_of k pid 256 in
      0 < pid \<and> pid \<noteq> me \<and> k_alive k pid \<and> \<not> is_zombie k pid \<and> (held = [] \<or> held = ''-'' \<or> now = [] \<or> held = now))"

text \<open>One system call of \<open>t4lock_take\<close> by process \<open>me\<close>: \<open>open\<close> with \<open>O_EXCL\<close>, the write of the owner, the read and
  judgement of another's lock, the unlink of a stale one. The result is 1, 0 (busy) or -1.\<close>

fun take_step :: "kern \<Rightarrow> int \<Rightarrow> fs \<times> take_pc \<Rightarrow> fs \<times> take_pc" where
  "take_step k me (f, TOpen tries) =
     (if 2 \<le> tries then (f, TDone (- 1))
      else if f_lock f \<noteq> None then (f, TRead tries)
      else if k_tmp_ok k then (f\<lparr>f_lock := Some (f_next f), f_data := (f_data f)(f_next f := []), f_next := Suc (f_next f)\<rparr>, TWrite (f_next f))
      else (f, TDone (- 1)))"
| "take_step k me (f, TWrite i) = (f\<lparr>f_data := (f_data f)(i := lock_text k me)\<rparr>, TDone 1)"
| "take_step k me (f, TRead tries) =
     (case owner_of f of (pid, held) \<Rightarrow> if owner_live k me pid held then (f, TDone 0) else (f, TUnlink tries))"
| "take_step k me (f, TUnlink tries) = (f\<lparr>f_lock := None\<rparr>, TOpen (Suc tries))"
| "take_step k me (f, TDone r) = (f, TDone r)"

text \<open>A take with nobody else at the file; seven calls are the most it makes.\<close>

definition t4lock_take :: "kern \<Rightarrow> int \<Rightarrow> fs \<Rightarrow> fs \<times> take_pc" where
  "t4lock_take k me f = (take_step k me ^^ 7) (f, TOpen 0)"

definition t4lock_release :: "int \<Rightarrow> fs \<Rightarrow> fs" where
  "t4lock_release me f =
     (let pid = (case f_lock f of None \<Rightarrow> 0 | Some i \<Rightarrow> atoi (take 63 (f_data f i))) in
      if pid = me then f\<lparr>f_lock := None\<rparr> else f)"

definition t4_loaded_set :: "string \<Rightarrow> fs \<Rightarrow> fs" where
  "t4_loaded_set server f = f\<lparr>f_loaded := Some (server @ [CHR 0x0A])\<rparr>"

definition t4_loaded_is :: "string \<Rightarrow> fs \<Rightarrow> int" where
  "t4_loaded_is server f = (case f_loaded f of
     None \<Rightarrow> - 1
   | Some [] \<Rightarrow> - 1
   | Some text \<Rightarrow> of_bool (takeWhile (\<lambda>c. c \<noteq> CHR 0x0D \<and> c \<noteq> CHR 0x0A) (take 255 text) = server))"

text \<open>Several processes: each at its own point, one call of one of them at a time.\<close>

definition sched_step :: "kern \<Rightarrow> fs \<times> (int \<Rightarrow> take_pc) \<Rightarrow> int \<Rightarrow> fs \<times> (int \<Rightarrow> take_pc)" where
  "sched_step k s me = (let (f, pc) = take_step k me (fst s, snd s me) in (f, (snd s)(me := pc)))"

section \<open>Reading what was written\<close>

lemma digit_char: "n < 10 \<Longrightarrow> is_digit (char_of (48 + n)) \<and> digit_val (char_of (48 + n)) = int n"
  by (simp add: is_digit_def digit_val_def)

lemma dec_nat_digits: "list_all is_digit (dec_nat n)"
  by (induction n rule: dec_nat.induct) (subst dec_nat.simps, simp add: digit_char del: dec_nat.simps)

lemma dec_nat_nonempty: "dec_nat n \<noteq> []"
  by (subst dec_nat.simps) simp

lemma dec_nat_val: "foldl (\<lambda>a c. 10 * a + digit_val c) 0 (dec_nat n) = int n"
proof (induction n rule: dec_nat.induct)
  case (1 n)
  show ?case
  proof (cases "n < 10")
    case True
    then show ?thesis by (subst dec_nat.simps) (simp add: digit_char)
  next
    case False
    have "10 * int (n div 10) + int (n mod 10) = int n" by (metis int_ops(7) mult_div_mod_eq of_nat_add of_nat_numeral)
    then show ?thesis using 1 [OF False] digit_char [of "n mod 10"] False
      by (subst dec_nat.simps) (simp del: dec_nat.simps)
  qed
qed

declare dec_nat.simps [simp del]

lemma digit_not: "is_digit c \<Longrightarrow> \<not> is_space c \<and> c \<noteq> CHR ''-'' \<and> c \<noteq> CHR ''+''"
  by (auto simp: is_digit_def is_space_def)

lemma takeWhile_digits: "list_all is_digit ds \<Longrightarrow> \<not> is_digit c \<Longrightarrow> takeWhile is_digit (ds @ c # r) = ds \<and> dropWhile is_digit (ds @ c # r) = c # r"
  by (induction ds) auto

lemma pid_text:
  assumes "0 < pid"
  obtains d ds where "dec pid = d # ds" "is_digit d" "list_all is_digit (d # ds)"
    "foldl (\<lambda>a c. 10 * a + digit_val c) 0 (d # ds) = pid"
proof -
  obtain d ds where e: "dec pid = d # ds" using assms dec_nat_nonempty by (cases "dec pid") (auto simp: dec_def)
  then have n: "dec_nat (nat pid) = d # ds" using assms by (simp add: dec_def)
  show thesis using that [OF e] dec_nat_digits [of "nat pid"] dec_nat_val [of "nat pid"] assms by (simp add: n)
qed

lemma atoi_pid: "0 < pid \<Longrightarrow> \<not> is_digit c \<Longrightarrow> atoi (dec pid @ c # r) = pid"
proof -
  assume "0 < pid" and c: "\<not> is_digit c"
  then obtain d ds where e: "dec pid = d # ds" "is_digit d" "list_all is_digit (d # ds)"
    "foldl (\<lambda>a c. 10 * a + digit_val c) 0 (d # ds) = pid" using pid_text by metis
  have "digits_val (d # ds @ c # r) = pid"
    using takeWhile_digits [OF e(3) c, of r] e(4) by (simp add: digits_val_def)
  then show ?thesis using digit_not [OF e(2)] e(1) by (simp add: atoi_def)
qed

text \<open>A program name as \<open>prog_of\<close> gives it: no white space in it.\<close>

definition name_ok :: "string \<Rightarrow> bool" where
  "name_ok s \<longleftrightarrow> list_all (\<lambda>c. \<not> is_space c) s \<and> s \<noteq> [] \<and> length s \<le> 255"

lemma takeWhile_name: "list_all (\<lambda>c. \<not> is_space c) s \<Longrightarrow> is_space c \<Longrightarrow> takeWhile (\<lambda>c. \<not> is_space c) (s @ c # r) = s"
  by (induction s) auto

lemma scan_lock:
  assumes "0 < pid" "name_ok s"
  shows "scan_owner (dec pid @ '' '' @ s @ [CHR 0x0A]) = (pid, s)"
proof -
  obtain d ds where e: "dec pid = d # ds" "is_digit d" "list_all is_digit (d # ds)" using pid_text [OF assms(1)] by metis
  have a: "atoi (dec pid @ '' '' @ s @ [CHR 0x0A]) = pid" using atoi_pid [OF assms(1), of "CHR '' ''" "s @ [CHR 0x0A]"] by (simp add: is_digit_def)
  obtain x xs where s: "s = x # xs" "\<not> is_space x" using assms(2) by (cases s) (auto simp: name_ok_def)
  have b: "\<not> is_digit CHR '' ''" "is_space CHR '' ''" by (simp_all add: is_digit_def is_space_def)
  have "dropWhile is_digit ((d # ds) @ CHR '' '' # s @ [CHR 0x0A]) = CHR '' '' # s @ [CHR 0x0A]"
    using takeWhile_digits [OF e(3) b(1)] by blast
  then have r: "dropWhile is_space (dropWhile is_digit (d # ds @ '' '' @ s @ [CHR 0x0A])) = s @ [CHR 0x0A]"
    using b(2) s by simp
  have w: "takeWhile (\<lambda>c. \<not> is_space c) (s @ [CHR 0x0A]) = s"
    using assms(2) takeWhile_name [of s "CHR 0x0A" "[]"] by (simp add: name_ok_def is_space_def)
  show ?thesis using a r w e(1) digit_not [OF e(2)] e(2) assms(2)
    by (simp add: scan_owner_def Let_def name_ok_def)
qed

lemma dec_nat_length: "n < 10 ^ Suc k \<Longrightarrow> length (dec_nat n) \<le> Suc k"
proof (induction k arbitrary: n)
  case (Suc k)
  have "n div 10 < 10 ^ Suc k" using Suc.prems by (simp add: less_mult_imp_div_less mult.commute)
  from Suc.IH [OF this] show ?case by (subst dec_nat.simps) simp
qed (subst dec_nat.simps, simp)

lemma release_pid:
  assumes "0 < pid" "in_long pid" "f_lock f = Some i" "f_data f i = dec pid @ CHR '' '' # r"
  shows "t4lock_release me f = (if pid = me then f\<lparr>f_lock := None\<rparr> else f)"
proof -
  have "nat pid < 10 ^ Suc 9" using assms(1,2) by (simp add: in_long_def nat_less_iff)
  then have "length (dec pid) \<le> 10" using dec_nat_length [of "nat pid" 9] assms(1) by (simp add: dec_def)
  then have "take 63 (f_data f i) = dec pid @ CHR '' '' # take (62 - length (dec pid)) r" using assms(4) by (simp add: take_Cons')
  then have "atoi (take 63 (f_data f i)) = pid" using atoi_pid [OF assms(1), of "CHR '' ''"] by (simp add: is_digit_def)
  then show ?thesis using assms(3) by (simp add: t4lock_release_def)
qed

text \<open>A lock file some process wrote: pid and program.\<close>

definition lock_ok :: "fs \<Rightarrow> int \<Rightarrow> string \<Rightarrow> bool" where
  "lock_ok f q s \<longleftrightarrow> 0 < q \<and> in_long q \<and> name_ok s \<and> (\<exists>i < f_next f. f_lock f = Some i \<and> f_data f i = dec q @ '' '' @ s @ [CHR 0x0A])"

definition prog_name :: "kern \<Rightarrow> int \<Rightarrow> string" where
  "prog_name k p = (let now = prog_of k p 256 in if now \<noteq> [] then now else ''-'')"

lemma prog_name_ok: "\<forall>c \<in> set (prog_of k p 256). \<not> is_space c \<Longrightarrow> name_ok (prog_name k p)"
proof -
  assume a: "\<forall>c \<in> set (prog_of k p 256). \<not> is_space c"
  have "length (prog_of k p 256) \<le> 255"
    using length_takeWhile_le [of _ "take 255 _"] by (auto simp: prog_of_def intro: le_trans split: option.splits)
  then show ?thesis using a by (auto simp: name_ok_def prog_name_def Let_def list_all_iff is_space_def)
qed

definition fresh_lock :: "kern \<Rightarrow> int \<Rightarrow> fs \<Rightarrow> fs" where
  "fresh_lock k me f = f\<lparr>f_lock := Some (f_next f), f_data := (f_data f)(f_next f := lock_text k me), f_next := Suc (f_next f)\<rparr>"

lemma fresh_lock_ok:
  "0 < me \<Longrightarrow> in_long me \<Longrightarrow> name_ok (prog_name k me) \<Longrightarrow> lock_ok (fresh_lock k me f) me (prog_name k me)"
  by (simp add: lock_ok_def fresh_lock_def lock_text_def prog_name_def Let_def)

lemma take_free: "f_lock f = None \<Longrightarrow> k_tmp_ok k \<Longrightarrow> t4lock_take k me f = (fresh_lock k me f, TDone 1)"
  by (simp add: t4lock_take_def fresh_lock_def numeral_eq_Suc)

lemma owner_ok: "lock_ok f q s \<Longrightarrow> owner_of f = (q, s)"
  using scan_lock [of q s] by (auto simp: lock_ok_def owner_of_def)

lemma take_held:
  assumes "lock_ok f q s" "k_tmp_ok k"
  shows "t4lock_take k me f = (if owner_live k me q s then (f, TDone 0) else (fresh_lock k me (f\<lparr>f_lock := None\<rparr>), TDone 1))"
proof -
  have l: "f_lock f \<noteq> None" using assms(1) by (auto simp: lock_ok_def)
  then show ?thesis using assms(2) owner_ok [OF assms(1)]
    by (simp add: t4lock_take_def fresh_lock_def numeral_eq_Suc)
qed

section \<open>Properties\<close>

text \<open>C25. A take that runs without another one in between: it is refused, with the file untouched, exactly
  when the file names another process that is alive, no zombie, and runs the program the file names (or one of
  the names is unknown); otherwise it succeeds and the file names the taker. Then a take by any other process is
  refused while the taker lives, release by another process changes nothing, and the taker's release removes the
  file.\<close>

theorem t4lock_exclusive:
  assumes "k_tmp_ok k" and "0 < me" and "in_long me" and "\<forall>c \<in> set (prog_of k me 256). \<not> is_space c" and "lock_ok f q s"
  shows "(owner_live k me q s \<longrightarrow> t4lock_take k me f = (f, TDone 0)) \<and>
    (\<not> owner_live k me q s \<longrightarrow> (\<exists>f'. t4lock_take k me f = (f', TDone 1) \<and> lock_ok f' me (prog_name k me) \<and>
      (\<forall>p. p \<noteq> me \<and> k_alive k me \<and> \<not> is_zombie k me \<longrightarrow> t4lock_take k p f' = (f', TDone 0)) \<and>
      (\<forall>p. t4lock_release p f' = (if p = me then f'\<lparr>f_lock := None\<rparr> else f')))) \<and>
    (\<exists>f'. t4lock_take k me (f\<lparr>f_lock := None\<rparr>) = (f', TDone 1) \<and> lock_ok f' me (prog_name k me))"
proof (cases "owner_live k me q s")
  case True
  then show ?thesis
    using take_held [OF assms(5,1)] take_free [OF _ assms(1)] fresh_lock_ok [OF assms(2,3) prog_name_ok [OF assms(4)]] by auto
next
  case False
  define f' where "f' = fresh_lock k me (f\<lparr>f_lock := None\<rparr>)"
  have ok: "lock_ok f' me (prog_name k me)"
    unfolding f'_def by (rule fresh_lock_ok [OF assms(2,3) prog_name_ok [OF assms(4)]])
  have "t4lock_take k p f' = (f', TDone 0)" if "p \<noteq> me" "k_alive k me" "\<not> is_zombie k me" for p
    using take_held [OF ok assms(1), of p] that assms(2) by (simp add: owner_live_def prog_name_def Let_def)
  moreover have "t4lock_release p f' = (if p = me then f'\<lparr>f_lock := None\<rparr> else f')" for p
    using ok release_pid [of me f'] by (fastforce simp: lock_ok_def)
  moreover have "t4lock_take k me f = (f', TDone 1)" using take_held [OF assms(5,1)] False by (simp add: f'_def)
  moreover have "t4lock_take k me (f\<lparr>f_lock := None\<rparr>) = (f', TDone 1)" using take_free [OF _ assms(1)] by (simp add: f'_def)
  ultimately show ?thesis using False ok by blast
qed

definition demo_kern :: kern where
  "demo_kern = \<lparr>k_alive = (\<lambda>p. p = 13 \<or> p = 14), k_fname = (\<lambda>p. if p = 13 \<or> p = 14 then Some ''ttjobd'' else None),
     k_stat = (\<lambda>p. Some ''13 (ttjobd) S 0''), k_tmp_ok = True\<rparr>"

definition demo_fs :: fs where
  "demo_fs = \<lparr>f_lock = Some 0, f_data = (\<lambda>i. ''12 tgzip'' @ [CHR 0x0A]), f_next = 1, f_loaded = None\<rparr>"

theorem t4lock_exclusive_witness:
  "\<exists>f'. t4lock_take demo_kern 13 demo_fs = (f', TDone 1) \<and> t4lock_release 13 f' = f'\<lparr>f_lock := None\<rparr>"
proof -
  have d: "dec 12 = ''12''" by code_simp
  have ok: "lock_ok demo_fs 12 ''tgzip''"
    by (simp add: lock_ok_def demo_fs_def d in_long_def name_ok_def is_space_def)
  have "\<forall>c \<in> set (prog_of demo_kern 13 256). \<not> is_space c" by (simp add: prog_of_def demo_kern_def is_space_def)
  moreover have "\<not> owner_live demo_kern 13 12 ''tgzip''" by (simp add: owner_live_def demo_kern_def)
  ultimately show ?thesis
    using t4lock_exclusive [OF _ _ _ _ ok, of demo_kern 13] by (auto simp: demo_kern_def in_long_def)
qed

text \<open>Two takes that overlap can both succeed, whichever two processes they are of and whatever else the system holds: the
  second process finds the file after the first has created it and before the first has written its pid, reads no
  pid, takes the lock for a stale one, unlinks it and makes its own, and the first then writes to a file without a name.\<close>

lemma t4lock_race:
  assumes "p \<noteq> q" and "f_lock f = None" and "k_tmp_ok k"
  shows "\<exists>f' pc. foldl (sched_step k) (f, \<lambda>_. TOpen 0) [p, q, q, q, q, q, p] = (f', pc) \<and> pc p = TDone 1 \<and> pc q = TDone 1"
  using assms by (simp add: sched_step_def Let_def owner_of_def scan_owner_def owner_live_def)

end
