(* ===== verification/Libttjob.thy ===== *)
theory Libttjob
  imports Jobwire Adler
begin

text \<open>
  The client library \<open>sam-job-tt/libttjob.c\<close>: one connection to the daemon, requests with fresh ids, replies read in
  whatever order they come and kept until their id is asked for. The answers of the system are the record \<open>cenv\<close>,
  indexed by the number of calls made so far; a connection is the bytes the daemon will send on it until it ends.
  \<open>ttlease.c\<close> is the one-shot client that holds the T425. Shown: whichever order the replies come in and are
  waited for, every id gets its own reply, and an id that has none gets \<open>ST_DOWN\<close>.
\<close>

section \<open>The code\<close>

record cenv =
  c_connect :: "nat \<Rightarrow> bytes option"
  c_write :: "nat \<Rightarrow> bool"
  c_ready :: "nat \<Rightarrow> int \<Rightarrow> bool"
  c_alloc :: "nat \<Rightarrow> bool"

record job_done =
  d_id :: int
  d_st :: u8
  d_out :: bytes

record lib =
  l_fd :: bool
  lastid :: int
  got :: "job_done list"
  l_in :: bytes
  l_out :: bytes
  l_tick :: nat

definition lib_init :: lib where
  "lib_init = \<lparr>l_fd = False, lastid = 0, got = [], l_in = [], l_out = [], l_tick = 0\<rparr>"

definition lost :: "lib \<Rightarrow> lib" where
  "lost s = s\<lparr>l_fd := False, l_in := []\<rparr>"

definition tock :: "lib \<Rightarrow> lib" where
  "tock s = s\<lparr>l_tick := Suc (l_tick s)\<rparr>"

text \<open>\<open>lib_wr\<close>: all of it, or the connection is given up.\<close>

definition lib_wr :: "cenv \<Rightarrow> bytes \<Rightarrow> lib \<Rightarrow> bool \<times> lib" where
  "lib_wr env b s = (c_write env (l_tick s), tock (s\<lparr>l_out := l_out s @ b\<rparr>))"

definition ttjob_connect :: "cenv \<Rightarrow> lib \<Rightarrow> lib" where
  "ttjob_connect env s =
     (if l_fd s then s
      else case c_connect env (l_tick s) of
        None \<Rightarrow> tock s
      | Some stream \<Rightarrow> tock (s\<lparr>l_fd := True, l_in := stream, l_out := []\<rparr>))"

definition ttjob_submit :: "cenv \<Rightarrow> u8 \<Rightarrow> u8 \<Rightarrow> bytes \<Rightarrow> lib \<Rightarrow> int \<times> lib" where
  "ttjob_submit env op level inp s =
     (if JOB_BIG < int (length inp) then (- 1, s)
      else
        let s = ttjob_connect env s in
        if \<not> l_fd s then (- 1, s)
        else
          let s = s\<lparr>lastid := lastid s mod 65535 + 1\<rparr>;
              h = mk_req (of_int (lastid s)) op NODE_ANY level (of_nat (length inp)) (t4_adler32 inp);
              (ok, s) = lib_wr env h s
          in if \<not> ok then (- 1, lost s)
             else if inp = [] then (lastid s, s)
             else let (ok, s) = lib_wr env inp s in if ok then (lastid s, s) else (- 1, lost s))"

text \<open>One reply from the socket into the \<open>got\<close> list, or the connection is lost.\<close>

definition take_one :: "cenv \<Rightarrow> lib \<Rightarrow> bool \<times> lib" where
  "take_one env s =
     (let r = take REP_HDR (l_in s); rest = drop REP_HDR (l_in s); olen = sint (g4 r 3); t = l_tick s; s = tock s in
      if length r < REP_HDR \<or> \<not> c_alloc env t \<or> olen < 0 \<or> JOB_BIG < olen \<or>
         0 < olen \<and> (\<not> c_alloc env (Suc t) \<or> length rest < nat olen)
      then (False, lost s)
      else
        let out = take (nat olen) rest;
            st = (if r ! 2 = ST_OK \<and> 0 < olen \<and> t4_adler32 out \<noteq> g4 r 11 then ST_BADREQ else r ! 2)
        in (True, tock (s\<lparr>l_in := drop (nat olen) rest, got := \<lparr>d_id = uint (g2 r 0), d_st = st, d_out = out\<rparr> # got s\<rparr>)))"

definition find_done :: "int \<Rightarrow> lib \<Rightarrow> job_done option" where
  "find_done i s = find (\<lambda>d. d_id d = i) (got s)"

lemma take_one_shrinks: "fst (take_one env s) \<Longrightarrow> length (l_in (snd (take_one env s))) < length (l_in s)"
  by (auto simp: take_one_def Let_def lost_def tock_def REP_HDR_def split: if_splits)

text \<open>The loop of \<open>ttjob_poll\<close>: while the socket has something.\<close>

function lib_poll_loop :: "cenv \<Rightarrow> int \<Rightarrow> lib \<Rightarrow> int \<times> lib" where
  "lib_poll_loop env i s =
     (let s1 = tock s in
      if \<not> c_ready env (l_tick s) 0 then (0, s1)
      else if \<not> fst (take_one env s1) then (- 1, snd (take_one env s1))
      else if find_done i (snd (take_one env s1)) \<noteq> None then (1, snd (take_one env s1))
      else lib_poll_loop env i (snd (take_one env s1)))"
  by auto
termination
  by (relation "measure (\<lambda>(env, i, s). length (l_in s))") (use take_one_shrinks in \<open>fastforce simp: tock_def\<close>)+

definition ttjob_poll :: "cenv \<Rightarrow> int \<Rightarrow> lib \<Rightarrow> int \<times> lib" where
  "ttjob_poll env i s = (if find_done i s \<noteq> None then (1, s) else if \<not> l_fd s then (- 1, s) else lib_poll_loop env i s)"

text \<open>The loop of \<open>ttjob_wait\<close>: false when it gives up.\<close>

function wait_loop :: "cenv \<Rightarrow> int \<Rightarrow> int \<Rightarrow> lib \<Rightarrow> bool \<times> lib" where
  "wait_loop env i ms s =
     (if find_done i s \<noteq> None then (True, s)
      else if \<not> l_fd s then (False, s)
      else if \<not> c_ready env (l_tick s) ms then (False, tock s)
      else if \<not> fst (take_one env (tock s)) then (False, snd (take_one env (tock s)))
      else wait_loop env i ms (snd (take_one env (tock s))))"
  by auto
termination
  by (relation "measure (\<lambda>(env, i, ms, s). length (l_in s))") (use take_one_shrinks in \<open>fastforce simp: tock_def\<close>)+

definition ttjob_wait :: "cenv \<Rightarrow> int \<Rightarrow> int \<Rightarrow> int \<Rightarrow> lib \<Rightarrow> (u8 \<times> bytes option) \<times> lib" where
  "ttjob_wait env i cap ms s =
     (let (ok, s) = wait_loop env i ms s in
      case find_done i s of
        None \<Rightarrow> ((ST_DOWN, None), s)
      | Some d \<Rightarrow>
          let s = s\<lparr>got := remove1 d (got s)\<rparr> in
          if d_st d = ST_OK \<and> cap < int (length (d_out d)) then ((ST_TOOBIG, None), s)
          else if d_st d = ST_OK then ((ST_OK, Some (d_out d)), s)
          else ((d_st d, None), s))"

text \<open>\<open>ttlease\<close> up to the program: its exit status, or nothing when it goes on to run the program.\<close>

definition ttlease :: "cenv \<Rightarrow> nat \<Rightarrow> lib \<Rightarrow> int option \<times> lib" where
  "ttlease env argc s =
     (if argc < 2 then (Some 2, s)
      else
        let (i, s) = ttjob_submit env OP_LEASE 0 [] s in
        if i < 0 then (None, s)
        else let (r, s) = ttjob_wait env i 0 10000 s in if fst r \<noteq> ST_OK then (Some 3, s) else (None, s))"

section \<open>Streams of replies\<close>

record reply =
  r_id :: u16
  r_st :: u8
  r_req :: u32
  r_ck :: u32
  r_out :: bytes

definition enc_reply :: "reply \<Rightarrow> bytes" where
  "enc_reply r = mk_rep (r_id r) (r_st r) (of_nat (length (r_out r))) (r_req r) (r_ck r) @ r_out r"

definition done_of :: "reply \<Rightarrow> job_done" where
  "done_of r = \<lparr>d_id = uint (r_id r),
     d_st = (if r_st r = ST_OK \<and> r_out r \<noteq> [] \<and> t4_adler32 (r_out r) \<noteq> r_ck r then ST_BADREQ else r_st r), d_out = r_out r\<rparr>"

definition no_faults :: "cenv \<Rightarrow> bool" where
  "no_faults env \<longleftrightarrow> (\<forall>t ms. c_ready env t ms) \<and> (\<forall>t. c_alloc env t)"

lemma take_one_reply:
  assumes "no_faults env" "int (length (r_out r)) \<le> JOB_BIG" "l_in s = enc_reply r @ rest"
  shows "take_one env s = (True, s\<lparr>l_in := rest, got := done_of r # got s, l_tick := Suc (Suc (l_tick s))\<rparr>)"
proof -
  have t: "take REP_HDR (l_in s) = mk_rep (r_id r) (r_st r) (of_nat (length (r_out r))) (r_req r) (r_ck r)"
    "drop REP_HDR (l_in s) = r_out r @ rest" by (simp_all add: assms(3) enc_reply_def)
  have n: "sint (of_nat (length (r_out r)) :: u32) = int (length (r_out r))"
    using assms(2) by (simp add: signed_of_nat signed_take_bit_int_eq_self JOB_BIG_def)
  note f = rep_fields [where p = "[]", simplified]
  show ?thesis
    using assms(1,2) by (simp add: take_one_def t f n Let_def tock_def no_faults_def done_of_def)
qed

lemma take_one_end: "length (l_in s) < REP_HDR \<Longrightarrow> take_one env s = (False, lost (tock s))"
  by (simp add: take_one_def Let_def)

declare wait_loop.simps [simp del] lib_poll_loop.simps [simp del]

text \<open>The pending replies: those read and those still to come, each under its own id.\<close>

definition pending :: "lib \<Rightarrow> reply list \<Rightarrow> job_done list" where
  "pending s rs = got s @ map done_of rs"

definition lib_ok :: "lib \<Rightarrow> reply list \<Rightarrow> bool" where
  "lib_ok s rs \<longleftrightarrow> l_fd s \<and> l_in s = concat (map enc_reply rs) \<and> list_all (\<lambda>r. int (length (r_out r)) \<le> JOB_BIG) rs \<and>
     distinct (map d_id (pending s rs))"

lemma wait_loop_found:
  assumes "no_faults env" "lib_ok s rs" "i \<in> d_id ` set (pending s rs)"
  shows "\<exists>s' rs'. wait_loop env i ms s = (True, s') \<and> lib_ok s' rs' \<and> set (pending s' rs') = set (pending s rs) \<and> i \<in> d_id ` set (got s')"
  using assms(2,3)
proof (induction rs arbitrary: s)
  case Nil
  then show ?case by (subst wait_loop.simps) (auto simp: pending_def find_done_def find_None_iff)
next
  case (Cons r rs)
  show ?case
  proof (cases "find_done i s = None")
    case True
    let ?s = "s\<lparr>l_tick := Suc (Suc (Suc (l_tick s))), l_in := concat (map enc_reply rs), got := done_of r # got s\<rparr>"
    have t: "take_one env (tock s) = (True, ?s)"
      using take_one_reply [OF assms(1), of r "tock s" "concat (map enc_reply rs)"] Cons.prems(1) by (simp add: lib_ok_def tock_def)
    have ok: "lib_ok ?s rs" using Cons.prems(1) by (auto simp: lib_ok_def pending_def)
    have set: "set (pending ?s rs) = set (pending s (r # rs))" by (auto simp: pending_def)
    from Cons.IH [OF ok] Cons.prems(2) set obtain s' rs' where "wait_loop env i ms ?s = (True, s')" "lib_ok s' rs'"
      "set (pending s' rs') = set (pending s (r # rs))" "i \<in> d_id ` set (got s')" by auto
    moreover have "wait_loop env i ms s = wait_loop env i ms ?s"
      using True t Cons.prems(1) assms(1) by (subst wait_loop.simps) (simp add: lib_ok_def no_faults_def)
    ultimately show ?thesis by auto
  next
    case False
    then have "i \<in> d_id ` set (got s)" by (auto simp: find_done_def find_Some_iff image_iff)
    then show ?thesis using False Cons.prems(1) by (subst wait_loop.simps) auto
  qed
qed

lemma wait_loop_missing:
  assumes "no_faults env" "lib_ok s rs" "i \<notin> d_id ` set (pending s rs)"
  shows "\<exists>s'. wait_loop env i ms s = (False, s') \<and> find_done i s' = None"
  using assms(2,3)
proof (induction rs arbitrary: s)
  case Nil
  have "take_one env (tock s) = (False, lost (tock (tock s)))"
    using Nil.prems(1) by (intro take_one_end) (simp add: lib_ok_def tock_def REP_HDR_def)
  moreover have "find_done i s = None" using Nil.prems(2) by (auto simp: pending_def find_done_def find_None_iff)
  ultimately show ?case using Nil.prems(1) assms(1)
    by (subst wait_loop.simps) (simp add: lib_ok_def no_faults_def find_done_def lost_def tock_def)
next
  case (Cons r rs)
  let ?s = "s\<lparr>l_tick := Suc (Suc (Suc (l_tick s))), l_in := concat (map enc_reply rs), got := done_of r # got s\<rparr>"
  have t: "take_one env (tock s) = (True, ?s)"
    using take_one_reply [OF assms(1), of r "tock s" "concat (map enc_reply rs)"] Cons.prems(1) by (simp add: lib_ok_def tock_def)
  have ok: "lib_ok ?s rs" using Cons.prems(1) by (auto simp: lib_ok_def pending_def)
  have "i \<notin> d_id ` set (pending ?s rs)" "find_done i s = None"
    using Cons.prems(2) by (auto simp: pending_def find_done_def find_None_iff)
  then show ?case using Cons.IH [OF ok] t Cons.prems(1) assms(1)
    by (subst wait_loop.simps) (simp add: lib_ok_def no_faults_def)
qed

section \<open>Waiting\<close>

text \<open>What \<open>ttjob_wait\<close> gives for a reply.\<close>

definition answer_of :: "int \<Rightarrow> job_done \<Rightarrow> u8 \<times> bytes option" where
  "answer_of cap d =
     (if d_st d = ST_OK then if int (length (d_out d)) \<le> cap then (ST_OK, Some (d_out d)) else (ST_TOOBIG, None)
      else (d_st d, None))"

definition pending_for :: "int \<Rightarrow> lib \<Rightarrow> reply list \<Rightarrow> job_done option" where
  "pending_for i s rs = find (\<lambda>d. d_id d = i) (pending s rs)"

lemma find_id: "distinct (map d_id ds) \<Longrightarrow> find (\<lambda>d. d_id d = i) ds = Some d \<longleftrightarrow> d \<in> set ds \<and> d_id d = i"
  by (induction ds) (auto simp: image_iff)

lemma wait_one:
  assumes "no_faults env" "lib_ok s rs" "d \<in> set (pending s rs)"
  shows "\<exists>s' rs'. ttjob_wait env (d_id d) cap ms s = (answer_of cap d, s') \<and> lib_ok s' rs' \<and>
    set (pending s' rs') = set (pending s rs) - {d}"
proof -
  obtain s1 rs1 where w: "wait_loop env (d_id d) ms s = (True, s1)" "lib_ok s1 rs1" "set (pending s1 rs1) = set (pending s rs)"
    "d_id d \<in> d_id ` set (got s1)" using wait_loop_found [OF assms(1,2), of "d_id d" ms] assms(3) by blast
  have dist: "distinct (map d_id (got s1))" using w(2) by (auto simp: lib_ok_def pending_def)
  obtain d' where d': "d' \<in> set (got s1)" "d_id d' = d_id d" using w(4) by (metis imageE)
  have "d' = d"
  proof -
    have "distinct (map d_id (pending s1 rs1))" using w(2) by (simp add: lib_ok_def)
    moreover have "d' \<in> set (pending s1 rs1)" "d \<in> set (pending s1 rs1)" using d'(1) assms(3) w(3) by (auto simp: pending_def)
    ultimately show ?thesis using d'(2) by (metis distinct_map inj_onD)
  qed
  then have f: "find_done (d_id d) s1 = Some d" using find_id [OF dist] d' by (simp add: find_done_def)
  let ?s = "s1\<lparr>got := remove1 d (got s1)\<rparr>"
  have g: "set (remove1 d (got s1)) = set (got s1) - {d}" using dist by (simp add: distinct_map)
  have "lib_ok ?s rs1" using w(2) distinct_map_remove1 [of d_id "got s1" d] set_remove1_subset [of d "got s1"] by (auto simp: lib_ok_def pending_def)
  moreover have "d \<notin> set (map done_of rs1)" using w(2) d'(1) \<open>d' = d\<close> by (auto simp: lib_ok_def pending_def)
  then have "set (pending ?s rs1) = set (pending s rs) - {d}" using w(3) g by (auto simp: pending_def)
  moreover have "ttjob_wait env (d_id d) cap ms s = (answer_of cap d, ?s)"
    using w(1) f by (simp add: ttjob_wait_def answer_of_def Let_def)
  ultimately show ?thesis by blast
qed

fun collect :: "cenv \<Rightarrow> int \<Rightarrow> int \<Rightarrow> int list \<Rightarrow> lib \<Rightarrow> (u8 \<times> bytes option) list" where
  "collect env cap ms [] s = []"
| "collect env cap ms (i # is) s = (let (r, s') = ttjob_wait env i cap ms s in r # collect env cap ms is s')"

lemma pending_for_Some: "lib_ok s rs \<Longrightarrow> pending_for i s rs = Some d \<longleftrightarrow> d \<in> set (pending s rs) \<and> d_id d = i"
  unfolding pending_for_def by (rule find_id) (simp add: lib_ok_def)

lemma collect_right:
  "no_faults env \<Longrightarrow> lib_ok s rs \<Longrightarrow> distinct (map d_id ds) \<Longrightarrow> set ds \<subseteq> set (pending s rs) \<Longrightarrow>
   collect env cap ms (map d_id ds) s = map (answer_of cap) ds"
proof (induction ds arbitrary: s rs)
  case (Cons d ds)
  obtain s' rs' where w: "ttjob_wait env (d_id d) cap ms s = (answer_of cap d, s')" "lib_ok s' rs'"
    "set (pending s' rs') = set (pending s rs) - {d}" using wait_one [OF Cons.prems(1,2)] Cons.prems(4) by force
  have "set ds \<subseteq> set (pending s' rs')" using Cons.prems(3,4) w(3) by (auto simp: image_iff)
  then show ?case using Cons.IH [OF Cons.prems(1) w(2)] Cons.prems(3) w(1) by simp
qed simp

section \<open>Properties\<close>

text \<open>C23. The replies \<open>rs\<close> come on the connection in any order; whichever of the pending ones are then waited for, in
  whichever order, each wait returns the reply of its own id: its output if the status is \<open>ST_OK\<close> and it fits,
  \<open>ST_TOOBIG\<close> if it does not fit, \<open>ST_BADREQ\<close> if the output is not what its checksum says, and else the
  daemon's status. An id without a reply gets \<open>ST_DOWN\<close> when the connection ends. (Hypotheses: \<open>select\<close> and the
  allocations succeed.)\<close>

theorem libttjob_collect:
  assumes "no_faults env" and "lib_ok s rs" and "distinct (map d_id ds)" and "set ds \<subseteq> set (pending s rs)"
    and "i \<notin> d_id ` set (pending s rs)"
  shows "collect env cap ms (map d_id ds) s = map (answer_of cap) ds \<and> fst (ttjob_wait env i cap ms s) = (ST_DOWN, None)"
  using collect_right [OF assms(1-4)] wait_loop_missing [OF assms(1,2,5), of ms] by (auto simp: ttjob_wait_def)

definition demo_cenv :: cenv where
  "demo_cenv = \<lparr>c_connect = (\<lambda>t. None), c_write = (\<lambda>t. True), c_ready = (\<lambda>t ms. True), c_alloc = (\<lambda>t. True)\<rparr>"

definition demo_replies :: "reply list" where
  "demo_replies = [\<lparr>r_id = 2, r_st = ST_FAILED, r_req = 1, r_ck = 1, r_out = []\<rparr>, \<lparr>r_id = 1, r_st = ST_OK, r_req = 1, r_ck = 0, r_out = [65]\<rparr>]"

definition demo_lib :: lib where
  "demo_lib = lib_init\<lparr>l_fd := True, l_in := concat (map enc_reply demo_replies)\<rparr>"

theorem libttjob_collect_witness:
  "collect demo_cenv 10 1000 [1, 2] demo_lib = [(ST_BADREQ, None), (ST_FAILED, None)]"
proof -
  have "lib_ok demo_lib demo_replies" by (simp add: lib_ok_def demo_lib_def demo_replies_def lib_init_def pending_def done_of_def JOB_BIG_def)
  moreover have "no_faults demo_cenv" by (simp add: no_faults_def demo_cenv_def)
  moreover have "t4_adler32 [65] \<noteq> 0" by code_simp
  ultimately show ?thesis
    using libttjob_collect [of demo_cenv demo_lib demo_replies "map done_of (rev demo_replies)" 3 10 1000]
    by (auto simp: pending_def demo_lib_def lib_init_def demo_replies_def done_of_def answer_of_def wire_status)
qed

end
