(* ===== verification/Ttkbdd.thy ===== *)
theory Ttkbdd
  imports Prelude
begin

text \<open>
  The remote-keyboard daemon \<open>src/ttkbdd.c\<close>: injecting scancodes with pacing, the table of held keys,
  mouse packets and the hot corner, one frame, the session bracket (key table and repeat rate), file
  sessions, the raw serial loop, recovery and the command line.

  What the program does to the TT is a trace of events (scancodes with the time they were
  injected, mouse packets, key tables loaded, repeat rates set, bytes written to the peer). What
  the system answers (how long calls take, the IOREC of the keyboard, the pointer, the results of
  \<open>S_LOADKBD\<close>, \<open>Kbrate\<close> and \<open>write\<close>) is the environment, read at a counter that advances with every call.
  Time is in microseconds; a call takes some time, \<open>usleep\<close> at least the time asked for, and
  \<open>times\<close> counts whole clock ticks. Bytes arrive as a list; a \<open>Quiet\<close> entry is a \<open>select\<close> that timed
  out, a \<open>Gone\<close> entry a read that failed or met the end.
\<close>

section \<open>The code\<close>

definition SC_MIN :: nat where "SC_MIN = 0x01"
definition SC_MAX :: nat where "SC_MAX = 0x72"
definition F_BREAK :: u8 where "F_BREAK = 1"
definition F_HEARTBEAT :: u8 where "F_HEARTBEAT = 2"
definition F_QUIT :: u8 where "F_QUIT = 8"
definition F_MOUSE :: u8 where "F_MOUSE = 0x10"
definition F_ACK :: u8 where "F_ACK = 0x20"
definition MSG_ACK :: u8 where "MSG_ACK = 6"
definition MSG_CORNER :: u8 where "MSG_CORNER = 5"
definition KBRATE_BOOT :: int where "KBRATE_BOOT = 0x0f02"

datatype event =
    Scan u8 int
  | Mouse u8 u8 u8
  | Table string
  | Rate int int
  | Tx bytes

record kenv =
  k_clk_tck :: int
  k_lag :: "nat \<Rightarrow> nat"
  k_iorec :: "nat \<Rightarrow> u16 \<times> u16 \<times> u16"
  k_pointer :: "nat \<Rightarrow> int \<times> int \<times> int \<times> int"
  k_loadkbd :: "nat \<Rightarrow> string \<Rightarrow> int"
  k_kbrate :: "nat \<Rightarrow> u32"
  k_write :: "nat \<Rightarrow> bytes \<Rightarrow> int"

record kcfg =
  tbl_unpatched :: string
  tbl_patched :: string
  corner :: int
  pace_ms :: int

record kbd =
  held :: "bool list"
  mbuttons :: u8
  corner_armed :: bool
  saved_kbrate :: int
  n_makes :: int
  io_peak :: u16
  io_size :: u16
  p_last :: int
  p_min :: int
  p_us :: int
  now :: int
  calls :: nat
  trace :: "event list"

definition kbd0 :: kbd where
  "kbd0 = \<lparr>held = replicate (SC_MAX + 1) False, mbuttons = 0, corner_armed = False, saved_kbrate = -1,
     n_makes = 0, io_peak = 0, io_size = 0, p_last = 0, p_min = 0, p_us = 0, now = 0, calls = 0, trace = []\<rparr>"

text \<open>A system call takes its time.\<close>

definition syscall :: "kenv \<Rightarrow> kbd \<Rightarrow> kbd" where
  "syscall env s = s\<lparr>now := now s + int (k_lag env (calls s)), calls := Suc (calls s)\<rparr>"

definition emit :: "event \<Rightarrow> kbd \<Rightarrow> kbd" where
  "emit e s = s\<lparr>trace := trace s @ [e]\<rparr>"

definition times :: "kenv \<Rightarrow> kbd \<Rightarrow> int" where
  "times env s = now s * k_clk_tck env div 1000000"

definition usleep :: "kenv \<Rightarrow> int \<Rightarrow> kbd \<Rightarrow> kbd" where
  "usleep env us s = syscall env (s\<lparr>now := now s + max 0 us\<rparr>)"

definition inject_one :: "kenv \<Rightarrow> u8 \<Rightarrow> kbd \<Rightarrow> kbd" where
  "inject_one env cur s =
     (let (size, hd, tl) = k_iorec env (calls s);
          fill = tl - hd;
          fill = (if sint fill < 0 then fill + size else fill);
          s = emit (Scan cur (now s)) s;
          s = (if sint (io_peak s) < sint fill then s\<lparr>io_peak := fill\<rparr> else s)
      in syscall env (s\<lparr>io_size := size\<rparr>))"

text \<open>The pacing of \<open>raw\<close>: the frame waits until \<open>min\<close> ticks have passed since the last inject
  returned.\<close>

definition pace_init :: "kenv \<Rightarrow> kbd \<Rightarrow> kbd" where
  "pace_init env s = (if p_min s = 0 then
     (let u = 1000000 div k_clk_tck env in s\<lparr>p_us := u, p_min := 20000 div u\<rparr>) else s)"

definition raw :: "kenv \<Rightarrow> u8 \<Rightarrow> kbd \<Rightarrow> kbd" where
  "raw env code s =
     (let t = times env s;
          s = pace_init env (syscall env s);
          s = (if t - p_last s < p_min s then usleep env ((p_min s - (t - p_last s)) * p_us s) s else s);
          s = inject_one env code s
      in syscall env (s\<lparr>p_last := times env s\<rparr>))"

text \<open>One key frame; 0 if applied, -1 if dropped.\<close>

definition key :: "kenv \<Rightarrow> u8 \<Rightarrow> u8 \<Rightarrow> kbd \<Rightarrow> int \<times> kbd" where
  "key env sc flags s =
     (if flags AND F_HEARTBEAT \<noteq> 0 then (0, s)
      else if unat sc < SC_MIN \<or> SC_MAX < unat sc then (-1, s)
      else if flags AND F_BREAK \<noteq> 0 then
        (let s = raw env (sc OR 0x80) s in (0, s\<lparr>held := (held s)[unat sc := False]\<rparr>))
      else
        (let s = raw env sc s in (0, s\<lparr>held := (held s)[unat sc := True], n_makes := n_makes s + 1\<rparr>)))"

definition release_step :: "kenv \<Rightarrow> kbd \<Rightarrow> nat \<Rightarrow> kbd" where
  "release_step env s sc = (if held s ! sc then snd (key env (of_nat sc) F_BREAK s) else s)"

definition release_held :: "kenv \<Rightarrow> kbd \<Rightarrow> kbd" where
  "release_held env s = foldl (release_step env) s [SC_MIN..<Suc SC_MAX]"

definition mouse :: "kenv \<Rightarrow> u8 \<Rightarrow> u8 \<Rightarrow> u8 \<Rightarrow> kbd \<Rightarrow> kbd" where
  "mouse env buttons dx dy s =
     (syscall env (emit (Mouse (0xf8 OR (buttons AND 3)) dx dy) s))\<lparr>mbuttons := buttons AND 3\<rparr>"

definition release_mouse :: "kenv \<Rightarrow> kbd \<Rightarrow> kbd" where
  "release_mouse env s = (if mbuttons s \<noteq> 0 then mouse env 0 0 0 s else s)"

definition in_corner :: "kenv \<Rightarrow> kcfg \<Rightarrow> kbd \<Rightarrow> bool" where
  "in_corner env cfg s =
     (let (x, y, w, h) = k_pointer env (calls s); e = 2 in
      if corner cfg = 0 then False
      else if corner cfg = 1 then w - e \<le> x \<and> y \<le> e
      else if corner cfg = 2 then x \<le> e \<and> y \<le> e
      else if corner cfg = 3 then w - e \<le> x \<and> h - e \<le> y
      else x \<le> e \<and> h - e \<le> y)"

text \<open>\<open>write\<close> on the peer: its result, and the bytes that went out.\<close>

definition kwrite :: "kenv \<Rightarrow> bytes \<Rightarrow> kbd \<Rightarrow> int \<times> kbd" where
  "kwrite env bs s = (let r = k_write env (calls s) bs in (r, syscall env (emit (Tx (take (nat r) bs)) s)))"

definition frame :: "kenv \<Rightarrow> kcfg \<Rightarrow> bytes \<Rightarrow> bool \<Rightarrow> kbd \<Rightarrow> int \<times> kbd" where
  "frame env cfg f reply s =
     (if f ! 0 AND F_QUIT \<noteq> 0 then (1, s)
      else if f ! 0 AND F_HEARTBEAT \<noteq> 0 then (0, s)
      else if f ! 0 AND F_MOUSE \<noteq> 0 then
        (let s = mouse env (f ! 1) (f ! 2) (f ! 3) s in
         if \<not> in_corner env cfg s then (0, s\<lparr>corner_armed := True\<rparr>)
         else if corner_armed s \<and> reply then (0, snd (kwrite env [MSG_CORNER] s))
         else (0, s))
      else
        (let (r, s) = key env (f ! 1) (f ! 0 AND NOT F_ACK) s in
         (0, if r = 0 \<and> f ! 0 AND F_ACK \<noteq> 0 \<and> reply then snd (kwrite env [MSG_ACK] s) else s)))"

definition load_table :: "kenv \<Rightarrow> string \<Rightarrow> kbd \<Rightarrow> int \<times> kbd" where
  "load_table env path s =
     (let r = k_loadkbd env (calls s) path in (r, syscall env (if r = 0 then emit (Table path) s else s)))"

definition session_begin :: "kenv \<Rightarrow> kcfg \<Rightarrow> kbd \<Rightarrow> int \<times> kbd" where
  "session_begin env cfg s =
     (let (r, s) = load_table env (tbl_unpatched cfg) s in
      if r \<noteq> 0 then (-1, s)
      else (0, syscall env (emit (Rate 255 (-1)) (s\<lparr>saved_kbrate := uint (k_kbrate env (calls s) AND 0xffff)\<rparr>))))"

definition restore_kbrate :: "kenv \<Rightarrow> kbd \<Rightarrow> kbd" where
  "restore_kbrate env s =
     (if 0 \<le> saved_kbrate s
      then (syscall env (emit (Rate (saved_kbrate s div 256) (saved_kbrate s mod 256)) s))\<lparr>saved_kbrate := -1\<rparr>
      else s\<lparr>saved_kbrate := -1\<rparr>)"

text \<open>What \<open>session_end\<close> and the signal handler have in common.\<close>

definition restore_all :: "kenv \<Rightarrow> kcfg \<Rightarrow> kbd \<Rightarrow> kbd" where
  "restore_all env cfg s =
     snd (load_table env (tbl_patched cfg) (restore_kbrate env (release_mouse env (release_held env s))))"

definition on_signal :: "kenv \<Rightarrow> kcfg \<Rightarrow> kbd \<Rightarrow> kbd" where
  "on_signal env cfg s = restore_all env cfg s"

definition session_end :: "kenv \<Rightarrow> kcfg \<Rightarrow> kbd \<Rightarrow> kbd" where
  "session_end env cfg s = (restore_all env cfg (s\<lparr>corner_armed := False\<rparr>))\<lparr>n_makes := 0, io_peak := 0\<rparr>"

section \<open>Sessions\<close>

definition bad_key :: "bytes \<Rightarrow> bool" where
  "bad_key f \<longleftrightarrow> f ! 0 AND (F_MOUSE OR F_HEARTBEAT OR F_QUIT) = 0 \<and> (unat (f ! 1) < SC_MIN \<or> SC_MAX < unat (f ! 1))"

text \<open>The loop of a file session: whole 4-byte frames; a quit frame does not end it.\<close>

function file_loop :: "kenv \<Rightarrow> kcfg \<Rightarrow> bytes \<Rightarrow> int \<times> int \<Rightarrow> kbd \<Rightarrow> (int \<times> int) \<times> kbd" where
  "file_loop env cfg d (frames, dropped) s =
     (if length d < 4 then ((frames, dropped), s)
      else
        (let f = take 4 d;
             s = snd (frame env cfg f False s);
             s = (if pace_ms cfg \<noteq> 0 then usleep env (pace_ms cfg * 1000) s else s)
         in file_loop env cfg (drop 4 d) (frames + 1, dropped + (if bad_key f then 1 else 0)) s))"
  by pat_completeness auto
termination by (relation "measure (\<lambda>(env, cfg, d, c, s). length d)") auto

text \<open>The result is the exit status, and what the last line reports.\<close>

definition session_file :: "kenv \<Rightarrow> kcfg \<Rightarrow> bytes option \<Rightarrow> bool \<Rightarrow> kbd \<Rightarrow> (int \<times> (int \<times> int) option) \<times> kbd" where
  "session_file env cfg content test s =
     (case content of
        None \<Rightarrow> ((1, None), s)
      | Some d \<Rightarrow>
          (let (r, s) = session_begin env cfg s in
           if r \<noteq> 0 then ((1, None), s)
           else
             (let (c, s) = file_loop env cfg d (0, 0) s;
                  s = session_end env cfg s;
                  s = (if test then raw env 0xa7 (raw env 0x27 (raw env 0x9e (raw env 0x1e s))) else s)
              in ((0, Some c), s))))"

datatype rx = Byte u8 | Quiet | Gone

text \<open>\<open>recv_exact\<close>: 0 with the bytes, -1 on a failed read, -2 on silence; \<open>None\<close> while it still waits.\<close>

fun recv_exact :: "nat \<Rightarrow> rx list \<Rightarrow> int option \<times> bytes \<times> rx list" where
  "recv_exact 0 rs = (Some 0, [], rs)"
| "recv_exact (Suc n) [] = (None, [], [])"
| "recv_exact (Suc n) (Quiet # rs) = (Some (-2), [], rs)"
| "recv_exact (Suc n) (Gone # rs) = (Some (-1), [], rs)"
| "recv_exact (Suc n) (Byte b # rs) = (let (r, bs, rs') = recv_exact n rs in (r, b # bs, rs'))"

lemma recv_exact_rest: "recv_exact n rs = (r, bs, rs') \<Longrightarrow> length rs' \<le> length rs"
  by (induction n rs arbitrary: r bs rs' rule: recv_exact.induct) (auto split: prod.splits intro: le_SucI)

lemma recv_exact_less: "0 < n \<Longrightarrow> (Some r, bs, rs') = recv_exact n rs \<Longrightarrow> length rs' < length rs"
  by (cases "(n, rs)" rule: recv_exact.cases) (auto split: prod.splits dest: recv_exact_rest)

lemmas recv_1_less = recv_exact_less [of "Suc 0", simplified]
lemmas recv_4_less = recv_exact_less [of 4, simplified]

definition SYNC :: u8 where "SYNC = 0xA5"

text \<open>The serial loop after the port is set up: \<open>Some\<close> the exit status, \<open>None\<close> while it waits for input.\<close>

function serial_loop :: "kenv \<Rightarrow> kcfg \<Rightarrow> rx list \<Rightarrow> bool \<Rightarrow> kbd \<Rightarrow> int option \<times> bool \<times> kbd" where
  "serial_loop env cfg rs in_session s =
     (case recv_exact (Suc 0) rs of
        (None, _, _) \<Rightarrow> (None, in_session, s)
      | (Some r, b, rs1) \<Rightarrow>
          if r = -2 then serial_loop env cfg rs1 False (if in_session then session_end env cfg s else s)
          else if r \<noteq> 0 then (Some 1, in_session, s)
          else if hd b \<noteq> SYNC then serial_loop env cfg rs1 in_session s
          else
            (case recv_exact 4 rs1 of
               (None, _, _) \<Rightarrow> (None, in_session, s)
             | (Some r, f, rs2) \<Rightarrow>
                 if r \<noteq> 0 then serial_loop env cfg rs2 in_session s
                 else if f ! 0 AND F_QUIT \<noteq> 0 then
                   (Some 0, False, if in_session then session_end env cfg s else s)
                 else if \<not> in_session \<and> f ! 0 AND F_HEARTBEAT = 0 then
                   (let (b, s) = session_begin env cfg s in
                    if b \<noteq> 0 then (Some 1, in_session, s)
                    else serial_loop env cfg rs2 True (snd (frame env cfg f True s)))
                 else serial_loop env cfg rs2 in_session (snd (frame env cfg f True s))))"
  by pat_completeness auto
termination
  by (relation "measure (\<lambda>(env, cfg, rs, i, s). length rs)") (auto dest!: recv_1_less recv_4_less)

declare serial_loop.simps [simp del] file_loop.simps [simp del]

definition release_all :: "kenv \<Rightarrow> kcfg \<Rightarrow> kbd \<Rightarrow> int \<times> kbd" where
  "release_all env cfg s =
     (let s = foldl (\<lambda>s sc. raw env (of_nat sc OR 0x80) s) s [SC_MIN..<Suc SC_MAX];
          s = syscall env (emit (Rate (KBRATE_BOOT div 256) (KBRATE_BOOT mod 256)) s);
          (r, s) = load_table env (tbl_patched cfg) s
      in (if r \<noteq> 0 then 1 else 0, s))"

end
