(* ===== verification/TtkbddProps.thy ===== *)
theory TtkbddProps
  imports Ttkbdd
begin

text \<open>
  The keyboard daemon against what the TT sees: the keys and buttons that are down according to the
  trace, and the key table in force. The daemon's own tables agree with it after every operation,
  which is why a session always ends with nothing held; and the pacing of injected scancodes.
\<close>

section \<open>What the TT sees\<close>

fun key_event :: "u8 set \<Rightarrow> event \<Rightarrow> u8 set" where
  "key_event K (Scan c t) = (if unat c < 0x80 then insert c K else K - {c AND 0x7f})"
| "key_event K _ = K"

definition pressed :: "event list \<Rightarrow> u8 set" where
  "pressed tr = foldl key_event {} tr"

fun button_event :: "u8 \<Rightarrow> event \<Rightarrow> u8" where
  "button_event b (Mouse p dx dy) = p AND 3"
| "button_event b _ = b"

definition buttons_down :: "event list \<Rightarrow> u8" where
  "buttons_down tr = foldl button_event 0 tr"

fun table_event :: "string option \<Rightarrow> event \<Rightarrow> string option" where
  "table_event t (Table p) = Some p"
| "table_event t _ = t"

fun rate_event :: "(int \<times> int) option \<Rightarrow> event \<Rightarrow> (int \<times> int) option" where
  "rate_event t (Rate d r) = Some (d, r)"
| "rate_event t _ = t"

definition rate_set :: "event list \<Rightarrow> (int \<times> int) option" where
  "rate_set tr = foldl rate_event None tr"

definition table_in_force :: "event list \<Rightarrow> string option" where
  "table_in_force tr = foldl table_event None tr"

definition noted :: "kbd \<Rightarrow> u8 set" where
  "noted s = {c. held s ! unat c \<and> SC_MIN \<le> unat c \<and> unat c \<le> SC_MAX}"

definition kbd_ok :: "kbd \<Rightarrow> bool" where
  "kbd_ok s \<longleftrightarrow> length (held s) = SC_MAX + 1 \<and> pressed (trace s) = noted s \<and> mbuttons s = buttons_down (trace s)"

lemma pressed_append [simp]: "pressed (tr @ es) = foldl key_event (pressed tr) es"
  by (simp add: pressed_def)

lemma buttons_append [simp]: "buttons_down (tr @ es) = foldl button_event (buttons_down tr) es"
  by (simp add: buttons_down_def)

lemma rate_append [simp]: "rate_set (tr @ es) = foldl rate_event (rate_set tr) es"
  by (simp add: rate_set_def)

lemma table_append [simp]: "table_in_force (tr @ es) = foldl table_event (table_in_force tr) es"
  by (simp add: table_in_force_def)

lemma kbd0_ok: "kbd_ok kbd0"
  by (auto simp: kbd_ok_def kbd0_def pressed_def buttons_down_def noted_def SC_MAX_def nth_Cons')

section \<open>What each operation leaves alone\<close>

lemma syscall_simps [simp]:
  "held (syscall env s) = held s" "mbuttons (syscall env s) = mbuttons s" "trace (syscall env s) = trace s"
  "corner_armed (syscall env s) = corner_armed s" "saved_kbrate (syscall env s) = saved_kbrate s"
  "p_last (syscall env s) = p_last s" "p_min (syscall env s) = p_min s" "p_us (syscall env s) = p_us s"
  "n_makes (syscall env s) = n_makes s"
  by (simp_all add: syscall_def)

lemma emit_simps [simp]:
  "held (emit e s) = held s" "mbuttons (emit e s) = mbuttons s" "trace (emit e s) = trace s @ [e]"
  "corner_armed (emit e s) = corner_armed s" "saved_kbrate (emit e s) = saved_kbrate s"
  "p_last (emit e s) = p_last s" "p_min (emit e s) = p_min s" "p_us (emit e s) = p_us s"
  "n_makes (emit e s) = n_makes s" "now (emit e s) = now s" "calls (emit e s) = calls s"
  by (simp_all add: emit_def)

text \<open>The part of the state that is about keys: \<open>same_but_time\<close> are the operations that only take
  time and keep their own counters.\<close>

definition keys_of :: "kbd \<Rightarrow> bool list \<times> u8 \<times> bool \<times> int" where
  "keys_of s = (held s, mbuttons s, corner_armed s, saved_kbrate s)"

lemma keys_of_raw: "keys_of (raw env c s) = keys_of s"
  by (simp add: raw_def inject_one_def pace_init_def usleep_def keys_of_def Let_def split: prod.splits)

lemma raw_trace: "\<exists>t. trace (raw env c s) = trace s @ [Scan c t]"
  by (simp add: raw_def inject_one_def pace_init_def usleep_def Let_def split: prod.splits)

lemma raw_simps [simp]:
  "held (raw env c s) = held s" "mbuttons (raw env c s) = mbuttons s"
  "corner_armed (raw env c s) = corner_armed s" "saved_kbrate (raw env c s) = saved_kbrate s"
  "pressed (trace (raw env c s)) = key_event (pressed (trace s)) (Scan c 0)"
  "buttons_down (trace (raw env c s)) = buttons_down (trace s)"
  "table_in_force (trace (raw env c s)) = table_in_force (trace s)"
  "rate_set (trace (raw env c s)) = rate_set (trace s)"
  using keys_of_raw [of env c s] raw_trace [of env c s] by (auto simp: keys_of_def)

lemma bit7_u8: "unat (c :: u8) < 0x80 \<Longrightarrow> \<not> bit c 7"
proof -
  assume "unat c < 0x80"
  then have "unat (drop_bit 7 c) = 0" unfolding unat_drop_bit_eq by (simp add: drop_bit_nat_def)
  then have "drop_bit 7 c = 0" unfolding unat_eq_zero .
  moreover have "bit (drop_bit 7 c) 0 = bit c 7" by (simp only: bit_drop_bit_eq) simp
  ultimately show ?thesis by (simp only: bit_0_eq bot_apply bot_bool_def) simp
qed

lemma break_code:
  assumes "unat (sc :: u8) < 0x80"
  shows "0x80 \<le> unat (sc OR 0x80)" and "(sc OR 0x80) AND 0x7f = sc"
proof -
  have "bit (sc OR 0x80) 7" by (simp add: bit_simps)
  then show "0x80 \<le> unat (sc OR 0x80)" using bit7_u8 [of "sc OR 0x80"] by linarith
  have "bit ((sc OR 0x80) AND 0x7f) n = bit sc n" if "n < 8" for n
  proof -
    from that have "n \<in> {0, 1, 2, 3, 4, 5, 6, 7}" by auto
    then show ?thesis using bit7_u8 [OF assms] by (auto simp: bit_simps)
  qed
  then show "(sc OR 0x80) AND 0x7f = sc" by (auto intro: bit_word_eqI)
qed

section \<open>The invariant\<close>

lemma of_nat_u8: "k \<le> SC_MAX \<Longrightarrow> unat (of_nat k :: u8) = k"
  by (simp add: SC_MAX_def unat_of_nat)

lemma noted_update:
  assumes "length (held s) = SC_MAX + 1" and "SC_MIN \<le> unat sc" "unat sc \<le> SC_MAX"
  shows "noted (s\<lparr>held := (held s)[unat sc := b]\<rparr>) = (if b then insert sc (noted s) else noted s - {sc})"
  using assms by (auto simp: noted_def nth_list_update word_unat_eq_iff)

lemma key_ok:
  assumes "kbd_ok s"
  shows "kbd_ok (snd (key env sc fl s))"
proof (cases "fl AND F_HEARTBEAT \<noteq> 0 \<or> unat sc < SC_MIN \<or> SC_MAX < unat sc")
  case True
  with assms show ?thesis by (auto simp: key_def)
next
  case False
  then have r: "SC_MIN \<le> unat sc" "unat sc \<le> SC_MAX" "unat sc < 0x80" by (auto simp: SC_MAX_def)
  have n: "noted (r\<lparr>n_makes := m\<rparr>) = noted r" for r m
    by (simp add: noted_def)
  have h: "noted (raw env c s) = noted s" "length (held (raw env c s)) = SC_MAX + 1" for c
    using assms by (simp_all add: noted_def kbd_ok_def)
  note u = noted_update [OF h(2) r(1,2), unfolded h(1)]
  have p: "pressed (trace s) = noted s" "mbuttons s = buttons_down (trace s)" "length (held s) = SC_MAX + 1"
    using assms by (simp_all add: kbd_ok_def)
  show ?thesis
  proof (cases "fl AND F_BREAK \<noteq> 0")
    case True
    then have "snd (key env sc fl s) = (raw env (sc OR 0x80) s)\<lparr>held := (held (raw env (sc OR 0x80) s))[unat sc := False]\<rparr>"
      using False by (simp add: key_def Let_def)
    then show ?thesis using u [of "sc OR 0x80" False] p break_code [OF r(3)] by (simp add: kbd_ok_def)
  next
    case make: False
    then have "snd (key env sc fl s) =
        (raw env sc s)\<lparr>held := (held (raw env sc s))[unat sc := True], n_makes := n_makes (raw env sc s) + 1\<rparr>"
      using False by (simp add: key_def Let_def)
    then show ?thesis using u [of sc True] p r(3) by (simp add: kbd_ok_def n)
  qed
qed

lemma kbd_okI: "keys_of s' = keys_of s \<Longrightarrow> pressed (trace s') = pressed (trace s) \<Longrightarrow>
    buttons_down (trace s') = buttons_down (trace s) \<Longrightarrow> kbd_ok s \<Longrightarrow> kbd_ok s'"
  by (simp add: kbd_ok_def keys_of_def noted_def)

lemma kbd_ok_fields [simp]:
  "kbd_ok (s\<lparr>corner_armed := b\<rparr>) = kbd_ok s" "kbd_ok (s\<lparr>saved_kbrate := r\<rparr>) = kbd_ok s"
  "kbd_ok (s\<lparr>n_makes := m\<rparr>) = kbd_ok s" "kbd_ok (s\<lparr>io_peak := p\<rparr>) = kbd_ok s"
  "kbd_ok (syscall env s) = kbd_ok s" "kbd_ok (usleep env us s) = kbd_ok s"
  by (simp_all add: kbd_ok_def noted_def usleep_def)

lemma kbd_ok_emit [simp]:
  "kbd_ok (emit (Table p) s) = kbd_ok s" "kbd_ok (emit (Rate d r) s) = kbd_ok s" "kbd_ok (emit (Tx b) s) = kbd_ok s"
  by (simp_all add: kbd_ok_def noted_def)

lemma buttons_byte: "(0xf8 OR (b AND 3)) AND 3 = (b AND 3 :: u8)"
proof (rule bit_word_eqI)
  fix n assume "n < LENGTH(8)"
  then have "n \<in> {0, 1, 2, 3, 4, 5, 6, 7}" by auto
  then show "bit ((0xf8 OR (b AND 3)) AND 3) n = bit (b AND 3) n" by (auto simp: bit_simps)
qed

lemma mouse_ok: "kbd_ok s \<Longrightarrow> kbd_ok (mouse env b dx dy s)"
  by (simp add: mouse_def kbd_ok_def noted_def buttons_byte)

lemma kwrite_ok [simp]: "kbd_ok (snd (kwrite env bs s)) = kbd_ok s"
  by (simp add: kwrite_def Let_def)

lemma load_table_ok [simp]: "kbd_ok (snd (load_table env p s)) = kbd_ok s"
  by (simp add: load_table_def Let_def)

lemma frame_ok: "kbd_ok s \<Longrightarrow> kbd_ok (snd (frame env cfg f reply s))"
  using mouse_ok [of s env "f ! 1" "f ! 2" "f ! 3"] key_ok [of s env "f ! 1" "f ! 0 AND NOT F_ACK"]
  by (simp add: frame_def Let_def case_prod_beta)

lemma session_begin_ok: "kbd_ok s \<Longrightarrow> kbd_ok (snd (session_begin env cfg s))"
  by (auto simp: session_begin_def split: prod.splits) (metis load_table_ok snd_conv)+

section \<open>Releasing\<close>

lemma held_break [simp]:
  "SC_MIN \<le> k \<Longrightarrow> k \<le> SC_MAX \<Longrightarrow> held (snd (key env (of_nat k) F_BREAK s)) = (held s)[k := False]"
  by (auto simp: key_def Let_def F_BREAK_def F_HEARTBEAT_def of_nat_u8)

lemma release_step_held: "SC_MIN \<le> k \<Longrightarrow> k \<le> SC_MAX \<Longrightarrow> held (release_step env s k) = (held s)[k := False]"
  by (auto simp: release_step_def list_update_same_conv) (metis (full_types) list_update_id)

lemma release_step_ok: "kbd_ok s \<Longrightarrow> kbd_ok (release_step env s k)"
  by (simp add: release_step_def key_ok)

lemma release_fold:
  assumes "kbd_ok s" and "set ks \<subseteq> {SC_MIN..SC_MAX}"
  shows "kbd_ok (foldl (release_step env) s ks) \<and>
    (\<forall>k \<le> SC_MAX. held (foldl (release_step env) s ks) ! k \<longleftrightarrow> held s ! k \<and> k \<notin> set ks)"
  using assms
proof (induction ks arbitrary: s)
  case (Cons k ks)
  then have k: "SC_MIN \<le> k" "k \<le> SC_MAX" and l: "length (held s) = SC_MAX + 1" by (auto simp: kbd_ok_def)
  from Cons.IH [OF release_step_ok [OF Cons.prems(1), of env k]] Cons.prems(2) show ?case
    using l by (auto simp: release_step_held [OF k] nth_list_update)
qed simp

lemma set_scancodes: "set [SC_MIN..<Suc SC_MAX] = {SC_MIN..SC_MAX}"
  by (auto simp: SC_MIN_def SC_MAX_def)

lemmas release_held_fold = release_fold [of _ "[SC_MIN..<Suc SC_MAX]", unfolded set_scancodes, OF _ order_refl,
  folded release_held_def]

lemma release_held_ok: "kbd_ok s \<Longrightarrow> kbd_ok (release_held env s)"
  using release_held_fold by blast

lemma release_held_all: "kbd_ok s \<Longrightarrow> pressed (trace (release_held env s)) = {}"
proof -
  assume ok: "kbd_ok s"
  have "noted (release_held env s) = {}"
    using release_held_fold [OF ok, of env] by (auto simp: noted_def)
  then show ?thesis using release_held_ok [OF ok] by (simp add: kbd_ok_def)
qed

lemma key_other [simp]:
  "saved_kbrate (snd (key env sc fl s)) = saved_kbrate s" "mbuttons (snd (key env sc fl s)) = mbuttons s"
  "corner_armed (snd (key env sc fl s)) = corner_armed s"
  "table_in_force (trace (snd (key env sc fl s))) = table_in_force (trace s)"
  by (simp_all add: key_def Let_def)

lemma release_held_other [simp]:
  "saved_kbrate (release_held env s) = saved_kbrate s" "mbuttons (release_held env s) = mbuttons s"
proof -
  have "saved_kbrate (foldl (release_step env) s ks) = saved_kbrate s \<and> mbuttons (foldl (release_step env) s ks) = mbuttons s" for ks
    by (induction ks arbitrary: s) (simp_all add: release_step_def)
  then show "saved_kbrate (release_held env s) = saved_kbrate s" "mbuttons (release_held env s) = mbuttons s"
    by (simp_all add: release_held_def)
qed

lemma release_mouse_facts:
  assumes "kbd_ok s"
  shows "kbd_ok (release_mouse env s)" "pressed (trace (release_mouse env s)) = pressed (trace s)"
    "buttons_down (trace (release_mouse env s)) = 0" "saved_kbrate (release_mouse env s) = saved_kbrate s"
proof -
  show "kbd_ok (release_mouse env s)" using assms mouse_ok [OF assms] by (simp add: release_mouse_def)
  show "pressed (trace (release_mouse env s)) = pressed (trace s)" "saved_kbrate (release_mouse env s) = saved_kbrate s"
    by (simp_all add: release_mouse_def mouse_def)
  show "buttons_down (trace (release_mouse env s)) = 0"
    using assms by (simp add: release_mouse_def mouse_def kbd_ok_def)
qed

lemma restore_kbrate_facts [simp]:
  "kbd_ok (restore_kbrate env s) = kbd_ok s" "pressed (trace (restore_kbrate env s)) = pressed (trace s)"
  "buttons_down (trace (restore_kbrate env s)) = buttons_down (trace s)" "saved_kbrate (restore_kbrate env s) = -1"
  by (simp_all add: restore_kbrate_def kbd_ok_def noted_def)

text \<open>The TT as the daemon found it: nothing down, and the patched table if it could be loaded.\<close>

definition tt_released :: "kbd \<Rightarrow> bool" where
  "tt_released s \<longleftrightarrow> kbd_ok s \<and> pressed (trace s) = {} \<and> buttons_down (trace s) = 0 \<and> saved_kbrate s = -1"

lemma load_table_released [simp]: "tt_released (snd (load_table env p s)) = tt_released s"
  by (simp add: load_table_def Let_def tt_released_def)

lemma restore_all_released: "kbd_ok s \<Longrightarrow> tt_released (restore_all env cfg s)"
  unfolding restore_all_def load_table_released
  using release_mouse_facts [OF release_held_ok, of s env env] release_held_all [of s env]
  by (simp add: tt_released_def)

lemma session_end_released: "kbd_ok s \<Longrightarrow> tt_released (session_end env cfg s)"
  using restore_all_released [of "s\<lparr>corner_armed := False\<rparr>" env cfg] by (simp add: session_end_def tt_released_def)

text \<open>The settings: the repeat rate saved at the start of a session is the one set at its end.\<close>

lemma restore_all_settings:
  assumes "0 \<le> saved_kbrate s" and "\<And>t. k_loadkbd env t (tbl_patched cfg) = 0"
  shows "rate_set (trace (restore_all env cfg s)) = Some (saved_kbrate s div 256, saved_kbrate s mod 256)"
    and "table_in_force (trace (restore_all env cfg s)) = Some (tbl_patched cfg)"
proof -
  have m: "saved_kbrate (release_mouse env x) = saved_kbrate x" for x
    by (simp add: release_mouse_def mouse_def)
  show "rate_set (trace (restore_all env cfg s)) = Some (saved_kbrate s div 256, saved_kbrate s mod 256)"
    "table_in_force (trace (restore_all env cfg s)) = Some (tbl_patched cfg)"
    using assms by (simp_all add: restore_all_def load_table_def restore_kbrate_def Let_def m)
qed

lemma frame_saved [simp]: "saved_kbrate (snd (frame env cfg f reply s)) = saved_kbrate s"
  by (simp add: frame_def mouse_def kwrite_def Let_def case_prod_beta)

definition run_frames :: "kenv \<Rightarrow> kcfg \<Rightarrow> bool \<Rightarrow> bytes list \<Rightarrow> kbd \<Rightarrow> kbd" where
  "run_frames env cfg reply fs s = foldl (\<lambda>s f. snd (frame env cfg f reply s)) s fs"

lemma run_frames_simps [simp]:
  "run_frames env cfg reply [] s = s"
  "run_frames env cfg reply (f # fs) s = run_frames env cfg reply fs (snd (frame env cfg f reply s))"
  by (simp_all add: run_frames_def)

lemma run_frames_ok: "kbd_ok s \<Longrightarrow> kbd_ok (run_frames env cfg reply fs s)"
  by (induction fs arbitrary: s) (auto intro: frame_ok)

lemma run_frames_saved [simp]: "saved_kbrate (run_frames env cfg reply fs s) = saved_kbrate s"
  by (induction fs arbitrary: s) auto

lemma session_begin_saved:
  "session_begin env cfg s = (0, s') \<Longrightarrow> 0 \<le> saved_kbrate s' \<and>
     saved_kbrate s' = uint (k_kbrate env (Suc (calls s)) AND 0xffff)"
  by (auto simp: session_begin_def load_table_def syscall_def Let_def split: if_splits prod.splits)

section \<open>Pacing\<close>

fun scan_time :: "event \<Rightarrow> int list" where
  "scan_time (Scan c t) = [t]"
| "scan_time _ = []"

definition scan_times :: "event list \<Rightarrow> int list" where
  "scan_times tr = concat (map scan_time tr)"

lemma scan_times_append [simp]: "scan_times (tr @ es) = scan_times tr @ concat (map scan_time es)"
  by (simp add: scan_times_def)

definition us_per_tick :: "kenv \<Rightarrow> int" where
  "us_per_tick env = 1000000 div k_clk_tck env"

definition tick_ok :: "kenv \<Rightarrow> bool" where
  "tick_ok env \<longleftrightarrow> 0 < k_clk_tck env \<and> k_clk_tck env dvd 1000000 \<and> us_per_tick env \<le> 20000"

definition min_ticks :: "kenv \<Rightarrow> int" where
  "min_ticks env = 20000 div us_per_tick env"

definition spaced :: "kenv \<Rightarrow> int list \<Rightarrow> bool" where
  "spaced env = successively (\<lambda>a b. (min_ticks env - 1) * us_per_tick env < b - a)"

text \<open>The last inject happened before the end of the tick \<open>p_last\<close>.\<close>

definition paced :: "kenv \<Rightarrow> kbd \<Rightarrow> bool" where
  "paced env s \<longleftrightarrow> spaced env (scan_times (trace s))
    \<and> (scan_times (trace s) = [] \<or> last (scan_times (trace s)) < (p_last s + 1) * us_per_tick env)
    \<and> (p_min s = 0 \<and> scan_times (trace s) = [] \<or> p_min s = min_ticks env \<and> p_us s = us_per_tick env)"

lemma paced_cong:
  "scan_times (trace s') = scan_times (trace s) \<Longrightarrow> p_last s' = p_last s \<Longrightarrow> p_min s' = p_min s \<Longrightarrow> p_us s' = p_us s \<Longrightarrow>
     paced env s' = paced env s"
  by (simp add: paced_def)

lemma tick_facts:
  assumes "tick_ok env"
  shows "0 < us_per_tick env" and "0 < min_ticks env" and "times env s = now s div us_per_tick env"
proof -
  have d: "us_per_tick env * k_clk_tck env = 1000000" and c: "0 < k_clk_tck env"
    using assms by (auto simp: tick_ok_def us_per_tick_def)
  show u: "0 < us_per_tick env" using d c by (smt (verit) zero_less_mult_iff)
  then show "0 < min_ticks env" using assms by (simp add: min_ticks_def tick_ok_def pos_imp_zdiv_pos_iff)
  have "times env s = now s * k_clk_tck env div (us_per_tick env * k_clk_tck env)" by (simp add: times_def d)
  also have "\<dots> = now s div us_per_tick env" using c by (simp add: div_mult_mult2)
  finally show "times env s = now s div us_per_tick env" .
qed

lemma div_bounds: "0 < u \<Longrightarrow> (n div u) * u \<le> n \<and> n < (n div u + 1) * (u :: int)"
  unfolding distrib_right mult_1 using pos_mod_bound [of u n] pos_mod_sign [of u n] div_mult_mod_eq [of n u] by linarith

text \<open>When \<open>raw\<close> injects: the time of its event, and the tick it notes afterwards.\<close>

lemma raw_paced_form:
  assumes "tick_ok env" and "paced env s"
  obtains t where "trace (raw env c s) = trace s @ [Scan c t]" and "(p_last s + min_ticks env) * us_per_tick env \<le> t"
    and "t < (p_last (raw env c s) + 1) * us_per_tick env"
    and "p_min (raw env c s) = min_ticks env" and "p_us (raw env c s) = us_per_tick env"
proof -
  note u = tick_facts [OF assms(1)]
  define M U where "M = min_ticks env" and "U = us_per_tick env"
  define s1 where "s1 = pace_init env (syscall env s)"
  define k where "k = times env s - p_last s"
  define s2 where "s2 = (if k < M then usleep env ((M - k) * U) s1 else s1)"
  have s1: "p_min s1 = M" "p_us s1 = U" "now s \<le> now s1" "trace s1 = trace s" "p_last s1 = p_last s"
    using assms(2) u(2) by (auto simp: s1_def pace_init_def paced_def M_def U_def us_per_tick_def min_ticks_def syscall_def Let_def)
  have s2: "p_min s2 = M" "p_us s2 = U" "trace s2 = trace s" by (simp_all add: s2_def usleep_def s1)
  have r: "raw env c s = syscall env ((inject_one env c s2)\<lparr>p_last := times env (inject_one env c s2)\<rparr>)"
    by (simp add: raw_def Let_def s2_def s1 k_def flip: s1_def)
  have i: "trace (inject_one env c s2) = trace s @ [Scan c (now s2)]" "now s2 \<le> now (inject_one env c s2)"
      "p_min (inject_one env c s2) = M" "p_us (inject_one env c s2) = U"
    by (simp_all add: inject_one_def Let_def s2 syscall_def split: prod.splits)
  have b: "times env s * U \<le> now s" using div_bounds [OF u(1), of "now s"] by (simp add: u(3) U_def)
  have "(p_last s + M) * U \<le> now s2"
  proof (cases "k < M")
    case True
    then have "0 \<le> (M - k) * U" using u(1) by (simp add: U_def)
    then have "now s1 + (M - k) * U \<le> now s2" using True by (simp add: s2_def usleep_def syscall_def)
    moreover have "(p_last s + M) * U = times env s * U + (M - k) * U" by (simp add: k_def algebra_simps)
    ultimately show ?thesis using b s1(3) by linarith
  next
    case False
    then have "p_last s + M \<le> times env s" by (simp add: k_def)
    then have "(p_last s + M) * U \<le> times env s * U" using u(1) by (simp add: U_def)
    then show ?thesis using False b s1(3) by (simp add: s2_def)
  qed
  moreover have "now s2 < (times env (inject_one env c s2) + 1) * U"
    using div_bounds [OF u(1), of "now (inject_one env c s2)"] i(2) by (simp add: u(3) U_def)
  ultimately show thesis using i r by (intro that [of "now s2"]) (simp_all add: M_def U_def)
qed

lemma raw_paced:
  assumes "tick_ok env" and "paced env s"
  shows "paced env (raw env c s)"
proof -
  obtain t where t: "trace (raw env c s) = trace s @ [Scan c t]" "(p_last s + min_ticks env) * us_per_tick env \<le> t"
    "t < (p_last (raw env c s) + 1) * us_per_tick env" "p_min (raw env c s) = min_ticks env" "p_us (raw env c s) = us_per_tick env"
    using raw_paced_form [OF assms] .
  have "(min_ticks env - 1) * us_per_tick env < t - last (scan_times (trace s))" if "scan_times (trace s) \<noteq> []"
  proof -
    have "last (scan_times (trace s)) < (p_last s + 1) * us_per_tick env" using assms(2) that by (simp add: paced_def)
    with t(2) show ?thesis by (simp add: algebra_simps)
  qed
  then have "spaced env (scan_times (trace s) @ [t])"
    using assms(2) by (auto simp: spaced_def paced_def successively_append_iff)
  then show ?thesis using t by (simp add: paced_def)
qed

lemma key_paced: "tick_ok env \<Longrightarrow> paced env s \<Longrightarrow> paced env (snd (key env sc fl s))"
  using raw_paced [of env s] by (auto simp: key_def Let_def cong: paced_cong)

lemma untimed_paced [simp]:
  "paced env (syscall env s) = paced env s"
  "paced env (emit (Mouse p dx dy) s) = paced env s" "paced env (emit (Table q) s) = paced env s"
  "paced env (emit (Rate d r) s) = paced env s" "paced env (emit (Tx b) s) = paced env s"
  "paced env (s\<lparr>mbuttons := m\<rparr>) = paced env s" "paced env (s\<lparr>corner_armed := a\<rparr>) = paced env s"
  "paced env (s\<lparr>saved_kbrate := k\<rparr>) = paced env s" "paced env (s\<lparr>n_makes := n, io_peak := i\<rparr>) = paced env s"
  by (rule paced_cong; simp)+

lemma frame_paced: "tick_ok env \<Longrightarrow> paced env s \<Longrightarrow> paced env (snd (frame env cfg f reply s))"
  using key_paced [of env s "f ! 1" "f ! 0 AND NOT F_ACK"]
  by (simp add: frame_def mouse_def kwrite_def Let_def case_prod_beta)

lemma run_frames_paced: "tick_ok env \<Longrightarrow> paced env s \<Longrightarrow> paced env (run_frames env cfg reply fs s)"
  by (induction fs arbitrary: s) (auto intro: frame_paced)

lemma session_begin_paced: "paced env s \<Longrightarrow> paced env (snd (session_begin env cfg s))"
  by (simp add: session_begin_def load_table_def Let_def case_prod_beta)

lemma release_held_paced: "tick_ok env \<Longrightarrow> paced env s \<Longrightarrow> paced env (release_held env s)"
proof -
  have "paced env (foldl (release_step env) s ks)" if "tick_ok env" "paced env s" for ks
    using that by (induction ks arbitrary: s) (simp_all add: release_step_def key_paced)
  then show "tick_ok env \<Longrightarrow> paced env s \<Longrightarrow> paced env (release_held env s)" by (simp add: release_held_def)
qed

lemma session_end_paced: "tick_ok env \<Longrightarrow> paced env s \<Longrightarrow> paced env (session_end env cfg s)"
  using release_held_paced [of env "s\<lparr>corner_armed := False\<rparr>"]
  by (simp add: session_end_def restore_all_def restore_kbrate_def release_mouse_def mouse_def load_table_def Let_def)

definition demo_kenv :: kenv where
  "demo_kenv = \<lparr>k_clk_tck = 200, k_lag = (\<lambda>_. 1), k_iorec = (\<lambda>_. (256, 0, 4)), k_pointer = (\<lambda>_. (320, 0, 640, 480)),
     k_loadkbd = (\<lambda>_ _. 0), k_kbrate = (\<lambda>_. 0x0f02), k_write = (\<lambda>_ bs. int (length bs))\<rparr>"

definition demo_kcfg :: kcfg where
  "demo_kcfg = \<lparr>tbl_unpatched = ''en_uk.tbl'', tbl_patched = ''keyboard.tbl'', corner = 1, pace_ms = 0\<rparr>"

section \<open>The serial line\<close>

lemma recv_bytes: "length bs = n \<Longrightarrow> recv_exact n (map Byte bs @ rs) = (Some 0, bs, rs)"
  by (induction bs arbitrary: n) auto

lemma recv_4: "recv_exact 4 rs = recv_exact (Suc (Suc (Suc (Suc 0)))) rs"
  by (simp add: eval_nat_numeral)

lemma recv_1 [simp]: "recv_exact (Suc 0) (Byte b # rs) = (Some 0, [b], rs)"
  by simp

lemma serial_noise: "SYNC \<notin> set bs \<Longrightarrow> serial_loop env cfg (map Byte bs @ rs) i s = serial_loop env cfg rs i s"
  by (induction bs) (auto simp: serial_loop.simps [of env cfg "Byte _ # _"])

lemma serial_frame:
  assumes "length f = 4" and "f ! 0 AND F_QUIT = 0"
  shows "serial_loop env cfg (Byte SYNC # map Byte f @ rs) True s = serial_loop env cfg rs True (snd (frame env cfg f True s))"
  using assms by (simp add: serial_loop.simps [of env cfg "Byte SYNC # _"] recv_bytes)

lemma serial_first:
  assumes "length f = 4" and "f ! 0 AND F_QUIT = 0" and "f ! 0 AND F_HEARTBEAT = 0" and "session_begin env cfg s = (0, s1)"
  shows "serial_loop env cfg (Byte SYNC # map Byte f @ rs) False s = serial_loop env cfg rs True (snd (frame env cfg f True s1))"
  using assms by (simp add: serial_loop.simps [of env cfg "Byte SYNC # _"] recv_bytes)

text \<open>The line as the sender writes it: each frame behind \<open>SYNC\<close>, with line noise before it.\<close>

definition serial_wire :: "(bytes \<times> bytes) list \<Rightarrow> rx list" where
  "serial_wire nfs = concat (map (\<lambda>(noise, f). map Byte (noise @ SYNC # f)) nfs)"

definition serial_item_ok :: "bytes \<times> bytes \<Rightarrow> bool" where
  "serial_item_ok nf \<longleftrightarrow> SYNC \<notin> set (fst nf) \<and> length (snd nf) = 4 \<and> snd nf ! 0 AND F_QUIT = 0"

lemma serial_item:
  assumes "serial_item_ok nf"
  shows "serial_loop env cfg (serial_wire (nf # nfs) @ rs) True s =
    serial_loop env cfg (serial_wire nfs @ rs) True (snd (frame env cfg (snd nf) True s))"
  using assms serial_noise [of "fst nf" env cfg] serial_frame [of "snd nf" env cfg]
  by (simp add: serial_wire_def serial_item_ok_def case_prod_beta)

lemma serial_items:
  "list_all serial_item_ok nfs \<Longrightarrow> serial_loop env cfg (serial_wire nfs @ rs) True s =
     serial_loop env cfg rs True (run_frames env cfg True (map snd nfs) s)"
proof (induction nfs arbitrary: s)
  case Nil
  then show ?case by (simp add: serial_wire_def)
next
  case (Cons nf nfs)
  then show ?case using serial_item [of nf env cfg nfs rs s] by simp
qed

text \<open>Whatever arrives, the loop keeps its tables right and is released outside a session.\<close>

definition serial_ok :: "bool \<Rightarrow> kbd \<Rightarrow> bool" where
  "serial_ok i s \<longleftrightarrow> kbd_ok s \<and> (\<not> i \<longrightarrow> tt_released s)"

lemma serial_ok_frame: "serial_ok True s \<Longrightarrow> serial_ok True (snd (frame env cfg f reply s))"
  by (simp add: serial_ok_def frame_ok)

lemma serial_ok_heartbeat: "f ! 0 AND F_HEARTBEAT \<noteq> 0 \<Longrightarrow> snd (frame env cfg f reply s) = s"
  by (simp add: frame_def)

lemma serial_ok_end: "serial_ok i s \<Longrightarrow> serial_ok False (if i then session_end env cfg s else s)"
  using session_end_released [of s env cfg] by (auto simp: serial_ok_def tt_released_def)

lemma serial_ok_begin:
  "serial_ok False s \<Longrightarrow> session_begin env cfg s = (r, s') \<Longrightarrow> serial_ok (r = 0) s'"
  using session_begin_ok [of s env cfg]
  by (auto simp: serial_ok_def session_begin_def split: prod.splits if_splits) (metis load_table_released snd_conv)

lemma serial_loop_ok:
  assumes "serial_ok i s" and "serial_loop env cfg rs i s = (r, i', s')"
  shows "serial_ok i' s' \<and> (r = Some 0 \<longrightarrow> \<not> i')"
  using assms
proof (induction rs arbitrary: i s rule: length_induct)
  case (1 rs)
  obtain r1 b rs1 where r1: "recv_exact (Suc 0) rs = (r1, b, rs1)" by (metis prod_cases3)
  obtain r2 f rs2 where r2: "recv_exact 4 rs1 = (r2, f, rs2)" by (metis prod_cases3)
  obtain rb sb where sb: "session_begin env cfg s = (rb, sb)" by fastforce
  have IH1: "serial_ok j t \<Longrightarrow> r1 = Some x \<Longrightarrow> serial_loop env cfg rs1 j t = (r, i', s') \<Longrightarrow> ?case" for j t x
    using "1.IH" recv_1_less r1 by metis
  have IH2: "serial_ok j t \<Longrightarrow> r1 = Some x \<Longrightarrow> r2 = Some y \<Longrightarrow> serial_loop env cfg rs2 j t = (r, i', s') \<Longrightarrow> ?case" for j t x y
    using "1.IH" recv_1_less [of x b rs1 rs] recv_4_less [of y f rs2 rs1] r1 r2 less_trans by metis
  note simps = serial_loop.simps [of env cfg rs] r1 r2 sb
  show ?case
  proof (cases r1)
    case None
    then show ?thesis using "1.prems" by (auto simp: simps)
  next
    case (Some x)
    consider "x = -2" | "x \<noteq> -2" "x \<noteq> 0" | "x = 0" "hd b \<noteq> SYNC" | "x = 0" "hd b = SYNC" "r2 = None"
      | y where "x = 0" "hd b = SYNC" "r2 = Some y" "y \<noteq> 0"
      | "x = 0" "hd b = SYNC" "r2 = Some 0" "f ! 0 AND F_QUIT \<noteq> 0"
      | "x = 0" "hd b = SYNC" "r2 = Some 0" "f ! 0 AND F_QUIT = 0" "\<not> i" "f ! 0 AND F_HEARTBEAT = 0"
      | "x = 0" "hd b = SYNC" "r2 = Some 0" "f ! 0 AND F_QUIT = 0" "i \<or> f ! 0 AND F_HEARTBEAT \<noteq> 0"
      by fastforce
    then show ?thesis
    proof cases
      case 1
      show ?thesis by (rule IH1 [OF serial_ok_end [OF "1.prems"(1)] Some]) (use 1 Some "1.prems"(2) in \<open>simp add: simps\<close>)
    next
      case 2
      then show ?thesis using Some "1.prems" by (auto simp: simps)
    next
      case 3
      show ?thesis by (rule IH1 [OF "1.prems"(1) Some]) (use 3 Some "1.prems"(2) in \<open>simp add: simps\<close>)
    next
      case 4
      then show ?thesis using Some "1.prems" by (auto simp: simps)
    next
      case 5
      show ?thesis by (rule IH2 [OF "1.prems"(1) Some 5(3)]) (use 5 Some "1.prems"(2) in \<open>simp add: simps\<close>)
    next
      case 6
      then show ?thesis using Some "1.prems" serial_ok_end [OF "1.prems"(1), of env cfg] by (auto simp: simps)
    next
      case 7
      have ok: "serial_ok (rb = 0) sb" using serial_ok_begin [OF _ sb] "1.prems"(1) 7(5) by simp
      show ?thesis
      proof (cases "rb = 0")
        case True
        with ok have "serial_ok True (snd (frame env cfg f True sb))" by (simp add: serial_ok_frame)
        then show ?thesis by (rule IH2 [OF _ Some 7(3)]) (use 7 True Some "1.prems"(2) in \<open>simp add: simps\<close>)
      next
        case False
        then show ?thesis using ok 7 Some "1.prems"(2) by (auto simp: simps)
      qed
    next
      case 8
      then have "serial_ok i (snd (frame env cfg f True s))"
        using "1.prems"(1) serial_ok_frame serial_ok_heartbeat by (cases i) auto
      then show ?thesis by (rule IH2 [OF _ Some 8(3)]) (use 8 Some "1.prems"(2) in \<open>auto simp: simps\<close>)
    qed
  qed
qed

section \<open>Properties\<close>

text \<open>C8. No session leaves a key or a mouse button down. From any consistent state, after a session that was begun and any
  sequence of frames, whether it ends normally or by a signal between frames: no key that the TT
  saw go down is still down, no mouse button either, the patched key table is in force and the key
  repeat rate is the one found at the start. (Hypothesis: the patched table can be loaded.)\<close>

theorem ttkbdd_session_releases:
  assumes "kbd_ok s" and "session_begin env cfg s = (0, s1)" and "\<And>t. k_loadkbd env t (tbl_patched cfg) = 0"
    and "s2 \<in> {session_end env cfg (run_frames env cfg reply fs s1), on_signal env cfg (run_frames env cfg reply fs s1)}"
  shows "pressed (trace s2) = {} \<and> buttons_down (trace s2) = 0 \<and> kbd_ok s2
    \<and> table_in_force (trace s2) = Some (tbl_patched cfg)
    \<and> rate_set (trace s2) = Some (let r = uint (k_kbrate env (Suc (calls s)) AND 0xffff) in (r div 256, r mod 256))"
proof -
  let ?r = "run_frames env cfg reply fs s1"
  have ok: "kbd_ok ?r" "0 \<le> saved_kbrate ?r" "saved_kbrate ?r = uint (k_kbrate env (Suc (calls s)) AND 0xffff)"
    using run_frames_ok session_begin_ok [OF assms(1), of env cfg] session_begin_saved [OF assms(2)] assms(2) by auto
  have "tt_released s2" using assms(4) session_end_released [OF ok(1), of env cfg] restore_all_released [OF ok(1), of env cfg]
    by (auto simp: on_signal_def)
  moreover have "rate_set (trace s2) = Some (saved_kbrate ?r div 256, saved_kbrate ?r mod 256)
      \<and> table_in_force (trace s2) = Some (tbl_patched cfg)"
    using assms(3,4) ok(2) restore_all_settings [of ?r env cfg] restore_all_settings [of "?r\<lparr>corner_armed := False\<rparr>" env cfg]
    by (auto simp: on_signal_def session_end_def)
  ultimately show ?thesis using ok(3) by (simp add: tt_released_def Let_def)
qed

theorem ttkbdd_session_releases_witness:
  "pressed (trace (session_end demo_kenv demo_kcfg (run_frames demo_kenv demo_kcfg True [[0, 0x2a, 0, 0], [0x10, 2, 5, 5]]
     (snd (session_begin demo_kenv demo_kcfg kbd0))))) = {}"
proof -
  have b: "session_begin demo_kenv demo_kcfg kbd0 = (0, snd (session_begin demo_kenv demo_kcfg kbd0))"
    by (simp add: session_begin_def load_table_def demo_kenv_def Let_def)
  have l: "k_loadkbd demo_kenv t (tbl_patched demo_kcfg) = 0" for t by (simp add: demo_kenv_def)
  from ttkbdd_session_releases [OF kbd0_ok b l insertI1] show ?thesis by blast
qed

text \<open>C33. Injected scancodes are spaced. In a whole session, releases at its end included, two scancodes in a row are
  injected more than \<open>min - 1\<close> ticks apart, where \<open>min\<close> is the number of whole clock ticks in 20 ms:
  on the TT's 200 Hz clock more than 15 ms, however long the calls take. The bound cannot be
  raised to the 20 ms of the comment: the two scancodes of the example are 15001 microseconds apart.\<close>

theorem ttkbdd_pacing:
  assumes "tick_ok env" and "scan_times (trace s) = []" and "p_min s = 0"
    and "s' = session_end env cfg (run_frames env cfg reply fs (snd (session_begin env cfg s)))"
  shows "successively (\<lambda>a b. (20000 div us_per_tick env - 1) * us_per_tick env < b - a) (scan_times (trace s'))"
proof -
  have "paced env s" using assms(2,3) by (simp add: paced_def spaced_def)
  then have "paced env s'" unfolding assms(4)
    by (intro session_end_paced run_frames_paced session_begin_paced assms(1))
  then show ?thesis by (simp add: paced_def spaced_def min_ticks_def)
qed

definition slow_kenv :: kenv where
  "slow_kenv = demo_kenv\<lparr>k_lag := (\<lambda>n. if n = 3 then 4999 else if n = 5 then 1 else 0)\<rparr>"

theorem ttkbdd_pacing_witness:
  "successively (\<lambda>a b. 15000 < b - a) [24999, 40000 :: int]
     \<and> scan_times (trace (session_end slow_kenv demo_kcfg (run_frames slow_kenv demo_kcfg True [[0, 0x2a, 0, 0]]
          (snd (session_begin slow_kenv demo_kcfg kbd0))))) = [24999, 40000]"
proof -
  have "scan_times (trace (session_end slow_kenv demo_kcfg (run_frames slow_kenv demo_kcfg True [[0, 0x2a, 0, 0]]
          (snd (session_begin slow_kenv demo_kcfg kbd0))))) = [24999, 40000]"
    by code_simp
  moreover have "tick_ok slow_kenv" "us_per_tick slow_kenv = 5000"
    by (simp_all add: tick_ok_def us_per_tick_def slow_kenv_def demo_kenv_def)
  moreover have "scan_times (trace kbd0) = []" "p_min kbd0 = 0" by (simp_all add: kbd0_def scan_times_def)
  ultimately show ?thesis
    using ttkbdd_pacing [of slow_kenv kbd0 _ demo_kcfg True "[[0, 0x2a, 0, 0]]"] by auto
qed

text \<open>C28. Serial framing. Frames sent behind \<open>SYNC\<close> with any line noise (without \<open>SYNC\<close>) between them are applied exactly,
  in order, in one session that begins at the first frame that is not a heartbeat; three seconds of
  silence then end that session.\<close>

theorem ttkbdd_serial_frames:
  assumes "session_begin env cfg s = (0, s1)" and "list_all serial_item_ok ((n, f) # nfs)" and "f ! 0 AND F_HEARTBEAT = 0"
  shows "serial_loop env cfg (serial_wire ((n, f) # nfs)) False s = (None, True, run_frames env cfg True (f # map snd nfs) s1)
    \<and> serial_loop env cfg (serial_wire ((n, f) # nfs) @ [Quiet]) False s =
      (None, False, session_end env cfg (run_frames env cfg True (f # map snd nfs) s1))"
proof -
  have one: "serial_loop env cfg (serial_wire ((n, f) # nfs) @ rs) False s =
      serial_loop env cfg rs True (run_frames env cfg True (f # map snd nfs) s1)" for rs
  proof -
    have "serial_loop env cfg (serial_wire ((n, f) # nfs) @ rs) False s =
        serial_loop env cfg (map Byte n @ Byte SYNC # map Byte f @ serial_wire nfs @ rs) False s"
      by (simp add: serial_wire_def)
    also have "\<dots> = serial_loop env cfg (serial_wire nfs @ rs) True (snd (frame env cfg f True s1))"
      using assms serial_noise [of n env cfg] serial_first [OF _ _ assms(3,1)] by (simp add: serial_item_ok_def)
    finally show ?thesis using serial_items assms(2) by simp
  qed
  show ?thesis using one [of "[]"] one [of "[Quiet]"]
    by (simp add: serial_loop.simps [of env cfg "[]"]) (simp add: serial_loop.simps [of env cfg "[Quiet]"] serial_loop.simps [of env cfg "[]"])
qed

theorem ttkbdd_serial_frames_witness:
  "serial_loop demo_kenv demo_kcfg (serial_wire [([0x00, 0x7f], [0, 0x2a, 0, 0])]) False kbd0 =
     (None, True, run_frames demo_kenv demo_kcfg True [[0, 0x2a, 0, 0]] (snd (session_begin demo_kenv demo_kcfg kbd0)))"
proof -
  have b: "session_begin demo_kenv demo_kcfg kbd0 = (0, snd (session_begin demo_kenv demo_kcfg kbd0))"
    by (simp add: session_begin_def load_table_def demo_kenv_def Let_def)
  have "list_all serial_item_ok [([0x00, 0x7f], [0, 0x2a, 0, 0])]" by (simp add: serial_item_ok_def SYNC_def)
  from ttkbdd_serial_frames [OF b this] show ?thesis by simp
qed

text \<open>Whatever the serial line brings, noise, cut frames, silence or failures: the tables stay right, and
  whenever the loop is outside a session, or has ended by a quit frame, nothing is held on the TT.\<close>

lemma ttkbdd_serial_safe:
  assumes "tt_released s" and "serial_loop env cfg rs False s = (r, in_session, s')"
  shows "kbd_ok s' \<and> (r = Some 0 \<longrightarrow> \<not> in_session) \<and> (in_session \<or> tt_released s')"
  using serial_loop_ok [OF _ assms(2)] assms(1) by (auto simp: serial_ok_def tt_released_def)

text \<open>A read that fails inside a session ends the program without the release: here key 0x1e stays down.\<close>

lemma serial_failure_leaks:
  defines "s' \<equiv> snd (frame demo_kenv demo_kcfg [0, 0x1e, 0, 0] True (snd (session_begin demo_kenv demo_kcfg kbd0)))"
  shows "serial_loop demo_kenv demo_kcfg (Byte SYNC # map Byte [0, 0x1e, 0, 0] @ [Gone]) False kbd0 = (Some 1, True, s')"
    and "pressed (trace s') = {0x1e}" and "table_in_force (trace s') = Some ''en_uk.tbl''"
proof -
  have b: "session_begin demo_kenv demo_kcfg kbd0 = (0, snd (session_begin demo_kenv demo_kcfg kbd0))"
    by (simp add: session_begin_def load_table_def demo_kenv_def Let_def)
  show "serial_loop demo_kenv demo_kcfg (Byte SYNC # map Byte [0, 0x1e, 0, 0] @ [Gone]) False kbd0 = (Some 1, True, s')"
    unfolding s'_def by (subst serial_first [OF _ _ _ b]) (simp_all add: serial_loop.simps [of _ _ "[Gone]"])
  show "pressed (trace s') = {0x1e}" "table_in_force (trace s') = Some ''en_uk.tbl''"
    unfolding s'_def by code_simp+
qed

text \<open>A signal between the inject and the note in \<open>held\<close> leaves the key down as well.\<close>

lemma signal_window_leaks: "pressed (trace (on_signal demo_kenv demo_kcfg (raw demo_kenv 0x1e kbd0))) = {0x1e}"
  by code_simp

end
