(* ===== verification/TtkbddNet.thy ===== *)
theory TtkbddNet
  imports TtkbddProps Chacha20
begin

text \<open>
  The network side of \<open>src/ttkbdd.c\<close>: the handshake, the sealed records, one connection and the
  command line. The primitives are Monocypher's (\<open>tools/monocypher-4.0.3\<close>), a record of functions here.
\<close>

section \<open>The code\<close>

record crypto =
  x25519_public_key :: "bytes \<Rightarrow> bytes"
  x25519_shared :: "bytes \<Rightarrow> bytes \<Rightarrow> bytes"
  ed25519_check :: "bytes \<Rightarrow> bytes \<Rightarrow> bytes \<Rightarrow> int"
  blake2b :: "nat \<Rightarrow> bytes \<Rightarrow> bytes"
  chacha20_h :: "bytes \<Rightarrow> bytes \<Rightarrow> bytes"
  chacha20_ietf :: "bytes \<Rightarrow> bytes \<Rightarrow> bytes \<Rightarrow> u32 \<Rightarrow> bytes"
  poly1305 :: "bytes \<Rightarrow> bytes \<Rightarrow> bytes"
  verify16 :: "bytes \<Rightarrow> bytes \<Rightarrow> int"

definition nonce12 :: "u64 \<Rightarrow> bytes" where
  "nonce12 ctr = [0, 0, 0, 0] @ map (\<lambda>i. ucast (drop_bit (8 * i) ctr)) [0..<8]"

definition mac_input :: "bytes \<Rightarrow> bytes" where
  "mac_input ct = ct @ replicate 20 0 @ [4] @ replicate 7 0"

definition v3_unlock :: "crypto \<Rightarrow> bytes \<Rightarrow> bytes \<Rightarrow> u64 \<Rightarrow> bytes option" where
  "v3_unlock cr rec subkey ctr =
     (let n12 = nonce12 ctr;
          pk = chacha20_ietf cr (replicate 32 0) subkey n12 0;
          ct = take 4 (drop 16 rec);
          mac = poly1305 cr (mac_input ct) pk
      in if verify16 cr mac (take 16 rec) \<noteq> 0 then None else Some (chacha20_ietf cr ct subkey n12 1))"

datatype outcome = NoRandom | HelloFailed | NoAuth | BadSignature | NoTable | AckFailed | Ended string | Waiting

function record_loop :: "kenv \<Rightarrow> kcfg \<Rightarrow> crypto \<Rightarrow> bytes \<Rightarrow> u64 \<Rightarrow> rx list \<Rightarrow> kbd \<Rightarrow> string option \<times> kbd" where
  "record_loop env cfg cr subkey ctr rs s =
     (case recv_exact 20 rs of
        (None, _, _) \<Rightarrow> (None, s)
      | (Some r, rec, rs') \<Rightarrow>
          if r \<noteq> 0 then (Some (if r = -2 then ''silence'' else ''closed''), s)
          else
            (case v3_unlock cr rec subkey ctr of
               None \<Rightarrow> (Some ''bad record'', s)
             | Some fr \<Rightarrow> record_loop env cfg cr subkey (ctr + 1) rs' (snd (frame env cfg fr True s))))"
  by pat_completeness auto
termination
  by (relation "measure (\<lambda>(env, cfg, cr, k, c, rs, s). length rs)") (auto dest: recv_exact_less [rotated])

declare record_loop.simps [simp del]

definition hello_msg :: "crypto \<Rightarrow> bytes \<Rightarrow> bytes \<Rightarrow> bytes" where
  "hello_msg cr chal sk = [3] @ chal @ x25519_public_key cr sk"

definition signed_msg :: "bytes \<Rightarrow> bytes \<Rightarrow> bytes" where
  "signed_msg hello auth = take 48 (drop 1 hello) @ take 32 auth @ map of_char ''ttkbd1''"

definition session_key :: "crypto \<Rightarrow> bytes \<Rightarrow> bytes \<Rightarrow> bytes \<Rightarrow> bytes" where
  "session_key cr sk hello auth =
     (let kdf = x25519_shared cr sk (take 32 auth) @ take 48 (drop 1 hello) @ take 32 auth
      in chacha20_h cr (blake2b cr 32 kdf) (replicate 16 0))"

text \<open>One connection. The challenge and the secret key come from \<open>/dev/urandom\<close>.\<close>

definition serve ::
    "kenv \<Rightarrow> kcfg \<Rightarrow> crypto \<Rightarrow> bytes \<Rightarrow> bytes option \<Rightarrow> bytes option \<Rightarrow> rx list \<Rightarrow> kbd \<Rightarrow> outcome \<times> kbd" where
  "serve env cfg cr pub chal tt_sk rs s =
     (case (chal, tt_sk) of
        (Some ch, Some sk) \<Rightarrow>
          (let hello = hello_msg cr ch sk; (w, s) = kwrite env hello s in
           if w \<noteq> int (length hello) then (HelloFailed, s)
           else
             (case recv_exact 96 rs of
                (None, _, _) \<Rightarrow> (Waiting, s)
              | (Some r, auth, rs') \<Rightarrow>
                  if r \<noteq> 0 then (NoAuth, s)
                  else if ed25519_check cr (drop 32 auth) pub (signed_msg hello auth) \<noteq> 0 then (BadSignature, s)
                  else
                    (let subkey = session_key cr sk hello auth; (b, s) = session_begin env cfg s in
                     if b \<noteq> 0 then (NoTable, s)
                     else
                       (let (w, s) = kwrite env [MSG_ACK] s in
                        if w \<noteq> 1 then (AckFailed, s)
                        else
                          (case record_loop env cfg cr subkey 0 rs' s of
                             (None, s) \<Rightarrow> (Waiting, s)
                           | (Some why, s) \<Rightarrow> (Ended why, session_end env cfg s))))))
      | _ \<Rightarrow> (NoRandom, s))"

text \<open>Connections are served one after the other; one that still waits is the last.\<close>

fun listen_loop :: "kenv \<Rightarrow> kcfg \<Rightarrow> crypto \<Rightarrow> bytes \<Rightarrow> (bytes option \<times> bytes option \<times> rx list) list \<Rightarrow> kbd \<Rightarrow> outcome list \<times> kbd" where
  "listen_loop env cfg cr pub [] s = ([], s)"
| "listen_loop env cfg cr pub ((chal, sk, rs) # cs) s =
     (let (out, s) = serve env cfg cr pub chal sk rs s in
      if out = Waiting then ([out], s)
      else (let (outs, s) = listen_loop env cfg cr pub cs s in (out # outs, s)))"

text \<open>The command line: \<open>None\<close> is the usage error, exit status 2.\<close>

record kopts =
  o_rel :: bool
  o_test :: bool
  o_verbose :: nat
  o_file :: "string option"
  o_addr :: string
  o_pub :: string
  o_ser :: "string option"
  o_bench :: int
  o_cfg :: kcfg

fun parse_args :: "string list \<Rightarrow> kopts \<Rightarrow> kopts option" where
  "parse_args [] o' = Some o'"
| "parse_args (a # as) o' =
     (if a = ''--release'' then parse_args as (o'\<lparr>o_rel := True\<rparr>)
      else if a = ''-t'' then parse_args as (o'\<lparr>o_test := True\<rparr>)
      else if a = ''-v'' then parse_args as (o'\<lparr>o_verbose := Suc (o_verbose o')\<rparr>)
      else if a = ''-S'' then parse_args as (o'\<lparr>o_ser := Some ''-''\<rparr>)
      else
        (case as of
           [] \<Rightarrow> None
         | v # rest \<Rightarrow>
             if a = ''-f'' then parse_args rest (o'\<lparr>o_file := Some v\<rparr>)
             else if a = ''-u'' then parse_args rest (o'\<lparr>o_cfg := (o_cfg o')\<lparr>tbl_unpatched := v\<rparr>\<rparr>)
             else if a = ''-p'' then parse_args rest (o'\<lparr>o_cfg := (o_cfg o')\<lparr>tbl_patched := v\<rparr>\<rparr>)
             else if a = ''-l'' then parse_args rest (o'\<lparr>o_addr := v\<rparr>)
             else if a = ''-k'' then parse_args rest (o'\<lparr>o_pub := v\<rparr>)
             else if a = ''-s'' then parse_args rest (o'\<lparr>o_ser := Some v\<rparr>)
             else if a = ''-c'' then parse_args rest (o'\<lparr>o_cfg := (o_cfg o')\<lparr>corner := atoi v\<rparr>\<rparr>)
             else if a = ''-d'' then parse_args rest (o'\<lparr>o_cfg := (o_cfg o')\<lparr>pace_ms := atoi v\<rparr>\<rparr>)
             else if a = ''--bench'' then parse_args rest (o'\<lparr>o_bench := atoi v\<rparr>)
             else None))"

fun dos_path :: "string list \<Rightarrow> string" where
  "dos_path [] = []"
| "dos_path [p] = p"
| "dos_path (p # ps) = p @ [CHR 0x5C] @ dos_path ps"

definition default_opts :: kopts where
  "default_opts = \<lparr>o_rel = False, o_test = False, o_verbose = 0, o_file = None, o_addr = ''192.168.0.30'',
     o_pub = ''/etc/ttkbd.pub'', o_ser = None, o_bench = 0,
     o_cfg = \<lparr>tbl_unpatched = dos_path [''c:'', ''mint'', ''1-19-4eb'', ''keyboard'', ''en_uk.tbl''],
       tbl_patched = dos_path [''c:'', ''mint'', ''1-19-4eb'', ''keyboard.tbl''], corner = 1, pace_ms = 0\<rparr>\<rparr>"

datatype kmode = Release | Bench int | FileMode string bool | SerialMode string | ListenMode string nat string

definition main_mode :: "string list \<Rightarrow> (kcfg \<times> kmode) option" where
  "main_mode args = map_option (\<lambda>o'. (o_cfg o',
     if o_rel o' then Release
     else if o_bench o' \<noteq> 0 then Bench (o_bench o')
     else case o_file o' of
       Some f \<Rightarrow> FileMode f (o_test o')
     | None \<Rightarrow> (case o_ser o' of Some d \<Rightarrow> SerialMode d | None \<Rightarrow> ListenMode (o_addr o') 7590 (o_pub o'))))
     (parse_args args default_opts)"

section \<open>Records\<close>

text \<open>How the sender (\<open>scripts/ttkbd_send.py\<close>) seals a frame.\<close>

definition v3_lock :: "crypto \<Rightarrow> bytes \<Rightarrow> bytes \<Rightarrow> u64 \<Rightarrow> bytes" where
  "v3_lock cr pt subkey ctr =
     (let ct = chacha20_ietf cr pt subkey (nonce12 ctr) 1
      in poly1305 cr (mac_input ct) (chacha20_ietf cr (replicate 32 0) subkey (nonce12 ctr) 0) @ ct)"

text \<open>What is used of Monocypher: \<open>crypto_verify16\<close> answers 0 exactly on equal tags, tags have 16
  bytes, and the stream cipher keeps the length and undoes itself.\<close>

definition crypto_laws :: "crypto \<Rightarrow> bool" where
  "crypto_laws cr \<longleftrightarrow> (\<forall>a b. verify16 cr a b = 0 \<longleftrightarrow> a = b) \<and> (\<forall>m k. length (poly1305 cr m k) = 16)
    \<and> (\<forall>x k n c. length (chacha20_ietf cr x k n c) = length x)
    \<and> (\<forall>x k n c. chacha20_ietf cr (chacha20_ietf cr x k n c) k n c = x)"

definition seal_all :: "crypto \<Rightarrow> bytes \<Rightarrow> u64 \<Rightarrow> bytes list \<Rightarrow> bytes list" where
  "seal_all cr subkey ctr fs = map (\<lambda>(i, f). v3_lock cr f subkey (ctr + of_nat i)) (enumerate 0 fs)"

lemma unlock_lock:
  assumes "crypto_laws cr" and "length pt = 4"
  shows "length (v3_lock cr pt k c) = 20" and "v3_unlock cr (v3_lock cr pt k c) k c = Some pt"
  using assms by (simp_all add: crypto_laws_def v3_lock_def v3_unlock_def Let_def)

lemma seal_all_Nil [simp]: "seal_all cr k c [] = []"
  by (simp add: seal_all_def)

lemma seal_all_Cons [simp]: "seal_all cr k c (f # fs) = v3_lock cr f k c # seal_all cr k (c + 1) fs"
  by (simp add: seal_all_def enumerate_Suc_eq [of 0 fs] case_prod_beta o_def algebra_simps)

lemma record_step:
  "length rec = 20 \<Longrightarrow> record_loop env cfg cr k c (map Byte rec @ rs) s =
     (case v3_unlock cr rec k c of None \<Rightarrow> (Some ''bad record'', s)
      | Some fr \<Rightarrow> record_loop env cfg cr k (c + 1) rs (snd (frame env cfg fr True s)))"
  by (subst record_loop.simps) (simp add: recv_bytes)

lemma sealed_run:
  "crypto_laws cr \<Longrightarrow> list_all (\<lambda>f. length f = 4) fs \<Longrightarrow>
   record_loop env cfg cr k c (map Byte (concat (seal_all cr k c fs)) @ rs) s =
     record_loop env cfg cr k (c + of_nat (length fs)) rs (run_frames env cfg True fs s)"
  by (induction fs arbitrary: c s) (simp_all add: record_step unlock_lock algebra_simps)

text \<open>Any stream: the frames applied are the openings of the records at its start, each under its own counter.\<close>

definition authentic :: "crypto \<Rightarrow> bytes \<Rightarrow> u64 \<Rightarrow> bytes list \<Rightarrow> bytes list \<Rightarrow> bool" where
  "authentic cr k c recs fs \<longleftrightarrow> length recs = length fs \<and> list_all (\<lambda>r. length r = 20) recs
    \<and> (\<forall>i < length fs. v3_unlock cr (recs ! i) k (c + of_nat i) = Some (fs ! i))"

lemma authentic_Cons:
  "length r = 20 \<Longrightarrow> v3_unlock cr r k c = Some f \<Longrightarrow> authentic cr k (c + 1) recs fs \<Longrightarrow> authentic cr k c (r # recs) (f # fs)"
  by (auto simp: authentic_def nth_Cons algebra_simps split: nat.splits)

lemma recv_exact_ok: "recv_exact n rs = (Some 0, bs, rs') \<Longrightarrow> rs = map Byte bs @ rs' \<and> length bs = n"
  by (induction n rs arbitrary: bs rs' rule: recv_exact.induct) (auto split: prod.splits)

lemma record_loop_authentic:
  "\<exists>recs fs rest. rs = map Byte (concat recs) @ rest \<and> authentic cr k c recs fs
     \<and> snd (record_loop env cfg cr k c rs s) = run_frames env cfg True fs s"
proof (induction rs arbitrary: c s rule: length_induct)
  case (1 rs)
  have nil: ?case if "snd (record_loop env cfg cr k c rs s) = s"
    using that by (intro exI [of _ "[]"] exI [of _ rs]) (simp add: authentic_def)
  obtain r rec rs' where r: "recv_exact 20 rs = (r, rec, rs')" by (metis prod_cases3)
  show ?case
  proof (cases "r = Some 0 \<and> (\<exists>f. v3_unlock cr rec k c = Some f)")
    case False
    then show ?thesis by (intro nil, subst record_loop.simps) (auto simp: r split: option.splits)
  next
    case True
    then obtain f where f: "v3_unlock cr rec k c = Some f" and r0: "r = Some 0" by blast
    have rs: "rs = map Byte rec @ rs'" "length rec = 20" using recv_exact_ok r r0 by auto
    then have "length rs' < length rs" by simp
    then obtain recs fs rest where ih: "rs' = map Byte (concat recs) @ rest" "authentic cr k (c + 1) recs fs"
      "snd (record_loop env cfg cr k (c + 1) rs' (snd (frame env cfg f True s))) = run_frames env cfg True fs (snd (frame env cfg f True s))"
      using 1 by blast
    have "snd (record_loop env cfg cr k c rs s) = run_frames env cfg True (f # fs) s"
      using rs(2) ih(3) by (simp add: rs(1) record_step f)
    then show ?thesis using ih rs authentic_Cons [OF rs(2) f ih(2)]
      by (intro exI [of _ "rec # recs"] exI [of _ "f # fs"] exI [of _ rest]) simp
  qed
qed

section \<open>Properties\<close>

text \<open>What reaches the keyboard and the mouse.\<close>

fun is_input :: "event \<Rightarrow> bool" where
  "is_input (Scan c t) = True"
| "is_input (Mouse b x y) = True"
| "is_input _ = False"

definition inputs :: "event list \<Rightarrow> event list" where
  "inputs tr = filter is_input tr"

lemma inputs_quiet [simp]:
  "inputs (trace (snd (kwrite env bs s))) = inputs (trace s)"
  "inputs (trace (snd (load_table env p s))) = inputs (trace s)"
  "inputs (trace (snd (session_begin env cfg s))) = inputs (trace s)"
  by (simp_all add: kwrite_def load_table_def session_begin_def inputs_def Let_def case_prod_beta)

lemma kwrite_released [simp]: "tt_released (snd (kwrite env bs s)) = tt_released s"
  by (simp add: kwrite_def tt_released_def Let_def)

lemma session_begin_refused: "fst (session_begin env cfg s) \<noteq> 0 \<Longrightarrow> tt_released (snd (session_begin env cfg s)) = tt_released s"
  by (simp add: session_begin_def Let_def case_prod_beta split: if_splits)

lemma released_ok: "tt_released s \<Longrightarrow> kbd_ok s"
  by (simp add: tt_released_def)

definition connected :: "kenv \<Rightarrow> kcfg \<Rightarrow> crypto \<Rightarrow> bytes \<Rightarrow> bytes \<Rightarrow> kbd \<Rightarrow> kbd" where
  "connected env cfg cr ch sk s =
     snd (kwrite env [MSG_ACK] (snd (session_begin env cfg (snd (kwrite env (hello_msg cr ch sk) s)))))"

text \<open>How a connection can go: refused before anything is typed, or a signed one whose records are
  handed to the record loop.\<close>

lemma serve_cases:
  assumes "serve env cfg cr pub chal tt_sk rs s = (out, s')"
  obtains (refused) "inputs (trace s') = inputs (trace s)" "out \<notin> range Ended"
      "out \<noteq> AckFailed \<Longrightarrow> out \<noteq> Waiting \<Longrightarrow> tt_released s' = tt_released s"
  | (signed) ch sk auth rs' w s2 where "chal = Some ch" "tt_sk = Some sk" "rs = map Byte auth @ rs'" "length auth = 96"
      "ed25519_check cr (drop 32 auth) pub (signed_msg (hello_msg cr ch sk) auth) = 0"
      "record_loop env cfg cr (session_key cr sk (hello_msg cr ch sk) auth) 0 rs' (connected env cfg cr ch sk s) = (w, s2)"
      "(out, s') = (case w of None \<Rightarrow> (Waiting, s2) | Some why \<Rightarrow> (Ended why, session_end env cfg s2))"
proof (cases "chal = None \<or> tt_sk = None")
  case True
  then show thesis using assms by (intro refused) (auto simp: serve_def split: option.splits)
next
  case False
  then obtain ch sk where ck: "chal = Some ch" "tt_sk = Some sk" by auto
  let ?h = "hello_msg cr ch sk"
  obtain w1 s1 where w1: "kwrite env ?h s = (w1, s1)" by fastforce
  obtain r auth rs' where r: "recv_exact 96 rs = (r, auth, rs')" by (metis prod_cases3)
  obtain b s2 where b: "session_begin env cfg s1 = (b, s2)" by fastforce
  obtain w2 s3 where w2: "kwrite env [MSG_ACK] s2 = (w2, s3)" by fastforce
  have s1: "inputs (trace s1) = inputs (trace s)" "tt_released s1 = tt_released s" "s1 = snd (kwrite env ?h s)"
    using inputs_quiet(1) [of env ?h s] kwrite_released [of env ?h s] by (simp_all add: w1)
  have s2: "inputs (trace s2) = inputs (trace s)" "b \<noteq> 0 \<Longrightarrow> tt_released s2 = tt_released s"
    using inputs_quiet(3) [of env cfg s1] session_begin_refused [of env cfg s1] s1(1,2) by (simp_all add: b)
  have s3: "inputs (trace s3) = inputs (trace s)" "s3 = connected env cfg cr ch sk s"
    using inputs_quiet(1) [of env "[MSG_ACK]" s2] s2 s1(3) by (simp_all add: w2 connected_def b flip: s1(3))
  note d = assms [unfolded serve_def ck prod.case option.case Let_def w1 r b w2]
  show thesis
  proof (cases "w1 = int (length ?h) \<and> r = Some 0 \<and> ed25519_check cr (drop 32 auth) pub (signed_msg ?h auth) = 0 \<and> b = 0 \<and> w2 = 1")
    case True
    obtain w s4 where l: "record_loop env cfg cr (session_key cr sk ?h auth) 0 rs' s3 = (w, s4)" by fastforce
    show thesis
      using True d recv_exact_ok [of 96 rs auth rs'] r
      by (intro signed [OF ck _ _ _ l [unfolded s3(2)]]) (auto simp: l split: option.splits)
  next
    case False
    then show thesis using d s1 s2 s3 by (intro refused) (auto split: if_splits option.splits)
  qed
qed

text \<open>C11. Only authentic frames reach the keyboard. Whatever a peer sends, either nothing is typed
  and no mouse moves, or the peer signed this connection's challenge with the
  configured key and the frames applied are, in order, the openings of the records at the start of
  its stream, record \<open>i\<close> under counter \<open>i\<close>: nothing replayed, reordered or forged past the first
  record that does not verify. A connection that is over (other than by a failed acknowledgement) has
  left nothing held.\<close>

theorem ttkbdd_only_authentic:
  assumes "tt_released s" and "serve env cfg cr pub chal tt_sk rs s = (out, s')"
  shows "(inputs (trace s') = inputs (trace s)
      \<or> (\<exists>ch sk auth recs fs rest.
            rs = map Byte (auth @ concat recs) @ rest \<and> length auth = 96 \<and> chal = Some ch \<and> tt_sk = Some sk
          \<and> ed25519_check cr (drop 32 auth) pub (signed_msg (hello_msg cr ch sk) auth) = 0
          \<and> authentic cr (session_key cr sk (hello_msg cr ch sk) auth) 0 recs fs
          \<and> s' \<in> (\<lambda>g. g (run_frames env cfg True fs (connected env cfg cr ch sk s))) ` {id, session_end env cfg}))
    \<and> (out \<in> {Waiting, AckFailed} \<or> tt_released s')"
  using assms(2)
proof (cases rule: serve_cases)
  case refused
  then show ?thesis using assms(1) by blast
next
  case (signed ch sk auth rs' w s2)
  let ?k = "session_key cr sk (hello_msg cr ch sk) auth"
  let ?c = "connected env cfg cr ch sk s"
  obtain recs fs rest where a: "rs' = map Byte (concat recs) @ rest" "authentic cr ?k 0 recs fs"
      "s2 = run_frames env cfg True fs ?c"
    using record_loop_authentic [of rs' cr ?k 0 env cfg ?c] signed(6) by auto
  have ok: "kbd_ok s2"
    using released_ok [OF assms(1)] by (simp add: a(3) run_frames_ok connected_def session_begin_ok)
  have "s' = s2 \<and> out = Waiting \<or> s' = session_end env cfg s2" using signed(7) by (cases w) auto
  then have m: "s' \<in> (\<lambda>g. g (run_frames env cfg True fs ?c)) ` {id, session_end env cfg}"
    and rel: "out \<in> {Waiting, AckFailed} \<or> tt_released s'"
    using session_end_released [OF ok] a(3) by auto
  have rs: "rs = map Byte (auth @ concat recs) @ rest" by (simp add: signed(3) a(1))
  show ?thesis using rs signed(1,2,4,5) a(2) m rel by blast
qed

definition demo_crypto :: crypto where
  "demo_crypto = \<lparr>x25519_public_key = (\<lambda>sk. sk), x25519_shared = (\<lambda>sk p. take 32 p), ed25519_check = (\<lambda>s p m. if s = p @ p then 0 else -1),
     blake2b = (\<lambda>n m. take n m), chacha20_h = (\<lambda>k n. k), chacha20_ietf = chacha20_xor, poly1305 = (\<lambda>m k. map (\<lambda>i. (m @ k @ replicate 16 0) ! i) [0..<16]),
     verify16 = (\<lambda>a b. if a = b then 0 else -1)\<rparr>"

lemma demo_crypto_laws: "crypto_laws demo_crypto"
proof -
  have "chacha20_xor (chacha20_xor x k n c) k n c = x" for x k n c
    by (rule nth_equalityI) (simp_all add: chacha20_xor_nth xor.assoc)
  then show ?thesis by (simp add: crypto_laws_def demo_crypto_def)
qed

lemma demo_released: "tt_released kbd0"
  using kbd0_ok by (simp add: tt_released_def kbd0_def pressed_def buttons_down_def)

theorem ttkbdd_only_authentic_witness:
  "tt_released (snd (serve demo_kenv demo_kcfg demo_crypto [] (Some (replicate 16 1)) (Some (replicate 32 2)) [Gone] kbd0))"
proof -
  obtain s' where r: "serve demo_kenv demo_kcfg demo_crypto [] (Some (replicate 16 1)) (Some (replicate 32 2)) [Gone] kbd0 = (NoAuth, s')"
    by (simp add: serve_def kwrite_def demo_kenv_def Let_def numeral_eq_Suc)
  from ttkbdd_only_authentic [OF demo_released r] show ?thesis by (simp add: r)
qed

text \<open>C29. A sender that follows the protocol is obeyed exactly: after a valid handshake, the frames it
  seals with counters 0, 1, 2, \<open>\<dots>\<close> are the frames applied, all of them and in order, and when it closes the
  connection the session ends. (Hypotheses: the documented laws of the primitives; the TT's own calls succeed.)\<close>

theorem ttkbdd_records_delivered:
  assumes "crypto_laws cr" and "length auth = 96"
    and "ed25519_check cr (drop 32 auth) pub (signed_msg (hello_msg cr ch sk) auth) = 0"
    and "list_all (\<lambda>f. length f = 4) fs"
    and "\<And>t bs. k_write env t bs = int (length bs)" and "\<And>t p. k_loadkbd env t p = 0"
  shows "serve env cfg cr pub (Some ch) (Some sk)
      (map Byte (auth @ concat (seal_all cr (session_key cr sk (hello_msg cr ch sk) auth) 0 fs)) @ [Gone]) s =
    (Ended ''closed'', session_end env cfg (run_frames env cfg True fs (connected env cfg cr ch sk s)))"
proof -
  let ?k = "session_key cr sk (hello_msg cr ch sk) auth"
  let ?sealed = "map Byte (concat (seal_all cr ?k 0 fs)) @ [Gone]"
  have b: "fst (session_begin env cfg x) = 0" for x
    by (simp add: session_begin_def load_table_def assms(6) Let_def)
  have w: "fst (kwrite env bs x) = int (length bs)" for bs x by (simp add: kwrite_def assms(5) Let_def)
  have g: "record_loop env cfg cr ?k c [Gone] x = (Some ''closed'', x)" for c x
    by (subst record_loop.simps) (simp add: numeral_eq_Suc)
  have "recv_exact 96 (map Byte auth @ ?sealed) = (Some 0, auth, ?sealed)" by (rule recv_bytes [OF assms(2)])
  then show ?thesis
    by (simp add: serve_def Let_def case_prod_beta b w assms(3) sealed_run [OF assms(1,4)] g connected_def)
qed

theorem ttkbdd_records_delivered_witness:
  "serve demo_kenv demo_kcfg demo_crypto (replicate 32 5) (Some (replicate 16 1)) (Some (replicate 32 2))
     (map Byte (replicate 96 5 @ concat (seal_all demo_crypto
        (session_key demo_crypto (replicate 32 2) (hello_msg demo_crypto (replicate 16 1) (replicate 32 2)) (replicate 96 5))
        0 [[0, 0x2a, 0, 0]])) @ [Gone]) kbd0 =
   (Ended ''closed'', session_end demo_kenv demo_kcfg (run_frames demo_kenv demo_kcfg True [[0, 0x2a, 0, 0]]
      (connected demo_kenv demo_kcfg demo_crypto (replicate 16 1) (replicate 32 2) kbd0)))"
  by (rule ttkbdd_records_delivered)
    (simp_all add: demo_crypto_laws demo_kenv_def, simp add: demo_crypto_def replicate_add [symmetric] del: replicate.simps)

text \<open>A session whose acknowledgement cannot be written is not ended: the unpatched table stays.\<close>

lemma ack_failure_leaks:
  assumes "env = demo_kenv\<lparr>k_write := (\<lambda>t bs. if length bs = 1 then -1 else int (length bs))\<rparr>"
  shows "\<exists>s'. serve env demo_kcfg demo_crypto (replicate 32 5) (Some (replicate 16 1)) (Some (replicate 32 2))
      (map Byte (replicate 96 5)) kbd0 = (AckFailed, s') \<and> table_in_force (trace s') = Some ''en_uk.tbl''"
proof -
  have "recv_exact 96 (map Byte (replicate 96 5) @ []) = (Some 0, replicate 96 5, [])" by (rule recv_bytes) simp
  then show ?thesis
    by (simp add: serve_def Let_def case_prod_beta kwrite_def session_begin_def load_table_def assms demo_kenv_def
        demo_kcfg_def demo_crypto_def hello_msg_def del: replicate.simps)
      (simp add: replicate_add [symmetric] table_in_force_def kbd0_def del: replicate.simps)
qed

end
