(* ===== verification/Pkgmodel.thy ===== *)
theory Pkgmodel
  imports Prelude "HOL-Library.Char_ord" "HOL-Library.List_Lexorder"
begin

text \<open>
  The package model of the GEM package manager, \<open>src/ttpkg/pkgmodel.c\<close>: comparing versions, loading
  the repository index, marking what is installed, and the search. C strings are lists of characters
  other than NUL; a file is its contents, or nothing when it cannot be opened. Allocations
  succeed.
\<close>

section \<open>The code\<close>

definition MAX_SEGS :: nat where "MAX_SEGS = 128"
definition SEG_STR_MAX :: nat where "SEG_STR_MAX = 128"

definition is_ascii_digit :: "char \<Rightarrow> bool" where
  "is_ascii_digit c \<longleftrightarrow> CHR ''0'' \<le> c \<and> c \<le> CHR ''9''"

definition is_ascii_alpha :: "char \<Rightarrow> bool" where
  "is_ascii_alpha c \<longleftrightarrow> (CHR ''a'' \<le> c \<and> c \<le> CHR ''z'') \<or> (CHR ''A'' \<le> c \<and> c \<le> CHR ''Z'')"

definition seg_start :: "string \<Rightarrow> string" where
  "seg_start s = dropWhile (\<lambda>c. \<not> is_ascii_digit c \<and> \<not> is_ascii_alpha c) s"

text \<open>\<open>seg\<close> with \<open>n\<close> entries of the array left.\<close>

fun seg :: "string \<Rightarrow> nat \<Rightarrow> (string \<times> bool) list" where
  "seg s 0 = []"
| "seg s (Suc n) =
     (case seg_start s of
        [] \<Rightarrow> []
      | c # cs \<Rightarrow>
          (let is_num = is_ascii_digit c; cls = (if is_num then is_ascii_digit else is_ascii_alpha) in
           (take (SEG_STR_MAX - 1) (takeWhile cls (c # cs)), is_num) # seg (dropWhile cls (c # cs)) n))"

text \<open>\<open>strcmp\<close> as the sign of its result.\<close>

definition strcmp :: "string \<Rightarrow> string \<Rightarrow> int" where
  "strcmp a b = (if a = b then 0 else if a < b then -1 else 1)"

definition strip_zeros :: "string \<Rightarrow> string" where
  "strip_zeros s = dropWhile (\<lambda>c. c = CHR ''0'') s"

definition num_cmp :: "string \<Rightarrow> string \<Rightarrow> int" where
  "num_cmp a b =
     (let pa = strip_zeros a; pb = strip_zeros b in
      if length pa \<noteq> length pb then (if length pb < length pa then 1 else -1) else strcmp pa pb)"

fun seg_cmp :: "(string \<times> bool) list \<Rightarrow> (string \<times> bool) list \<Rightarrow> int" where
  "seg_cmp ((a, dx) # as) ((b, dy) # bs) =
     (if dx \<noteq> dy then (if dx then 1 else -1)
      else (let c = (if dx then num_cmp a b else strcmp a b) in if c \<noteq> 0 then c else seg_cmp as bs))"
| "seg_cmp as bs = of_bool (length bs < length as) - of_bool (length as < length bs)"

fun pkg_vercmp :: "string option \<Rightarrow> string option \<Rightarrow> int" where
  "pkg_vercmp None None = 0"
| "pkg_vercmp None (Some b) = -1"
| "pkg_vercmp (Some a) None = 1"
| "pkg_vercmp (Some a) (Some b) = (if strcmp a b = 0 then 0 else seg_cmp (seg a MAX_SEGS) (seg b MAX_SEGS))"

datatype pkg_state = PKG_NOT_INSTALLED | PKG_INSTALLED | PKG_NEWER | PKG_LOCAL_ONLY

record pkg =
  p_name :: string
  p_ver :: string
  p_rel :: string
  p_provides :: string
  p_cmds :: string
  p_size :: int
  p_state :: pkg_state
  p_inst :: string

definition safe_copy :: "string \<Rightarrow> nat \<Rightarrow> string" where
  "safe_copy src dst_size = take (dst_size - 1) src"

definition TAB :: char where "TAB = CHR 0x09"
definition NL :: char where "NL = CHR 0x0A"
definition CR :: char where "CR = CHR 0x0D"

text \<open>The first \<open>k\<close> columns; the last keeps whatever follows.\<close>

fun split_cols :: "string \<Rightarrow> nat \<Rightarrow> string list" where
  "split_cols s 0 = []"
| "split_cols s (Suc 0) = [s]"
| "split_cols s (Suc (Suc k)) =
     (case dropWhile (\<lambda>c. c \<noteq> TAB) s of
        [] \<Rightarrow> s # replicate (Suc k) []
      | _ # r \<Rightarrow> takeWhile (\<lambda>c. c \<noteq> TAB) s # split_cols r (Suc k))"

definition split_tsv_line :: "string \<Rightarrow> nat \<Rightarrow> string list" where
  "split_tsv_line line max_cols = split_cols line max_cols"

text \<open>\<open>fgets\<close> with a buffer of \<open>n + 2\<close> bytes: up to \<open>n + 1\<close> characters, the newline included.\<close>

definition fgets :: "nat \<Rightarrow> string \<Rightarrow> string \<times> string" where
  "fgets n s = (let l = takeWhile (\<lambda>c. c \<noteq> NL) s in
     if n < length l then (take (Suc n) s, drop (Suc n) s)
     else (take (Suc (length l)) s, drop (Suc (length l)) s))"

function fgets_all :: "nat \<Rightarrow> string \<Rightarrow> string list" where
  "fgets_all n s = (if s = [] then [] else fst (fgets n s) # fgets_all n (snd (fgets n s)))"
  by pat_completeness auto
termination
  by (relation "measure (\<lambda>(n, s). length s)") (auto simp: fgets_def Let_def)

declare fgets_all.simps [simp del]

text \<open>The line with its end cut off.\<close>

definition chomp :: "string \<Rightarrow> string" where
  "chomp l = takeWhile (\<lambda>c. c \<noteq> CR) (takeWhile (\<lambda>c. c \<noteq> NL) l)"

definition skip_line :: "string \<Rightarrow> bool" where
  "skip_line l \<longleftrightarrow> l = [] \<or> hd l = CHR ''#''"

definition index_pkg :: "string \<Rightarrow> pkg" where
  "index_pkg line =
     (let cols = split_tsv_line line 10 in
      \<lparr>p_name = safe_copy (cols ! 0) 64, p_ver = safe_copy (cols ! 1) 64, p_rel = safe_copy (cols ! 2) 32,
       p_provides = cols ! 8, p_cmds = cols ! 9, p_size = (if cols ! 5 \<noteq> [] then atoi (cols ! 5) else 0),
       p_state = PKG_NOT_INSTALLED, p_inst = []\<rparr>)"

fun index_lines :: "string list \<Rightarrow> nat \<Rightarrow> pkg list" where
  "index_lines [] k = []"
| "index_lines (l # ls) 0 = []"
| "index_lines (l # ls) (Suc k) =
     (if skip_line (chomp l) then index_lines ls (Suc k) else index_pkg (chomp l) # index_lines ls k)"

definition pkg_load_index :: "string option \<Rightarrow> int \<Rightarrow> int \<times> pkg list" where
  "pkg_load_index file mx =
     (if mx \<le> 0 then (-1, [])
      else case file of
        None \<Rightarrow> (-1, [])
      | Some s \<Rightarrow> (let ps = index_lines (fgets_all 4094 s) (nat mx) in (int (length ps), ps)))"

fun find_pkg :: "string \<Rightarrow> pkg list \<Rightarrow> nat option" where
  "find_pkg nm [] = None"
| "find_pkg nm (p # ps) = (if p_name p = nm then Some 0 else map_option Suc (find_pkg nm ps))"

definition index_vr :: "pkg \<Rightarrow> string" where
  "index_vr p = take 127 (if p_rel p \<noteq> [] then p_ver p @ ''-'' @ p_rel p else p_ver p)"

definition mark_installed :: "string \<Rightarrow> pkg \<Rightarrow> pkg" where
  "mark_installed vr p =
     p\<lparr>p_state := (if 0 < pkg_vercmp (Some (index_vr p)) (Some vr) then PKG_NEWER else PKG_INSTALLED),
       p_inst := safe_copy vr 96\<rparr>"

text \<open>The parts of \<open>vr\<close> before and after its last dash.\<close>

definition split_dash :: "string \<Rightarrow> (string \<times> string) option" where
  "split_dash vr =
     (case dropWhile (\<lambda>c. c \<noteq> CHR ''-'') (rev vr) of
        [] \<Rightarrow> None
      | _ # r \<Rightarrow> Some (rev r, rev (takeWhile (\<lambda>c. c \<noteq> CHR ''-'') (rev vr))))"

definition local_pkg :: "string \<Rightarrow> string \<Rightarrow> pkg" where
  "local_pkg nm vr =
     (let (v, r) = (case split_dash vr of Some (v, r) \<Rightarrow> (take 63 v, safe_copy r 32) | None \<Rightarrow> (safe_copy vr 64, []))
      in \<lparr>p_name = safe_copy nm 64, p_ver = v, p_rel = r, p_provides = [], p_cmds = [], p_size = 0,
          p_state = PKG_LOCAL_ONLY, p_inst = safe_copy vr 96\<rparr>)"

definition apply_line :: "nat \<Rightarrow> pkg list \<Rightarrow> string \<Rightarrow> pkg list" where
  "apply_line mx ps l =
     (let line = chomp l in
      if skip_line line then ps
      else case dropWhile (\<lambda>c. c \<noteq> TAB) line of
        [] \<Rightarrow> ps
      | _ # vr \<Rightarrow>
          (let nm = takeWhile (\<lambda>c. c \<noteq> TAB) line in
           case find_pkg nm ps of
             Some i \<Rightarrow> ps[i := mark_installed vr (ps ! i)]
           | None \<Rightarrow> if length ps < mx then ps @ [local_pkg nm vr] else ps))"

definition pkg_apply_installed :: "string option \<Rightarrow> pkg list \<Rightarrow> nat \<Rightarrow> int \<times> pkg list" where
  "pkg_apply_installed file ps mx =
     (case file of
        None \<Rightarrow> (-1, ps)
      | Some s \<Rightarrow> (let ps' = foldl (apply_line mx) ps (fgets_all 1022 s) in (int (length ps'), ps')))"

text \<open>\<open>strstr\<close>: does \<open>pat\<close> occur in \<open>s\<close>?\<close>

fun strstr :: "string \<Rightarrow> string \<Rightarrow> bool" where
  "strstr s pat = (take (length pat) s = pat \<or> (case s of [] \<Rightarrow> False | _ # r \<Rightarrow> strstr r pat))"

declare strstr.simps [simp del]

definition pkg_match :: "pkg option \<Rightarrow> string option \<Rightarrow> bool" where
  "pkg_match p pat =
     (case pat of
        None \<Rightarrow> True
      | Some s \<Rightarrow> s = [] \<or> (case p of None \<Rightarrow> False
          | Some q \<Rightarrow> strstr (p_name q) s \<or> strstr (p_provides q) s \<or> strstr (p_cmds q) s))"

section \<open>Versions as keys\<close>

text \<open>A version is a list of keys: words and numbers, every number above every word.\<close>

datatype vkey = Word string | Num nat

instantiation vkey :: linorder
begin

fun less_eq_vkey :: "vkey \<Rightarrow> vkey \<Rightarrow> bool" where
  "less_eq_vkey (Word a) (Word b) = (a \<le> b)"
| "less_eq_vkey (Num a) (Num b) = (a \<le> b)"
| "less_eq_vkey (Word a) (Num b) = True"
| "less_eq_vkey (Num a) (Word b) = False"

definition less_vkey :: "vkey \<Rightarrow> vkey \<Rightarrow> bool" where
  "less_vkey x y \<longleftrightarrow> x \<le> y \<and> \<not> y \<le> (x :: vkey)"

instance
proof
  fix x y z :: vkey
  show "x < y \<longleftrightarrow> x \<le> y \<and> \<not> y \<le> x" by (rule less_vkey_def)
  show "x \<le> x" by (cases x) auto
  show "x \<le> y \<Longrightarrow> y \<le> z \<Longrightarrow> x \<le> z" by (cases x; cases y; cases z) auto
  show "x \<le> y \<Longrightarrow> y \<le> x \<Longrightarrow> x = y" by (cases x; cases y) auto
  show "x \<le> y \<or> y \<le> x" by (cases x; cases y) auto
qed

end

lemma vkey_less [simp]:
  "Word a < Word b \<longleftrightarrow> a < b" "Num m < Num n \<longleftrightarrow> m < n" "Word a < Num n" "\<not> Num n < Word a"
  by (auto simp: less_vkey_def less_le_not_le)

definition num_val :: "string \<Rightarrow> nat" where
  "num_val s = foldl (\<lambda>a c. 10 * a + (of_char c - 48)) 0 s"

definition seg_key :: "string \<times> bool \<Rightarrow> vkey" where
  "seg_key x = (if snd x then Num (num_val (fst x)) else Word (fst x))"

text \<open>The keys of the segments as the code holds them, each cut to its 127 characters, at most 128 of them.\<close>

definition cut_key :: "string \<Rightarrow> vkey list" where
  "cut_key s = map seg_key (seg s MAX_SEGS)"

definition cmp :: "'a :: linorder \<Rightarrow> 'a \<Rightarrow> int" where
  "cmp x y = (if x < y then -1 else if x = y then 0 else 1)"

lemma strcmp_cmp: "strcmp a b = cmp a b"
  by (auto simp: strcmp_def cmp_def)

lemma cmp_key [simp]: "cmp (Word a) (Word b) = cmp a b" "cmp (Num m) (Num n) = cmp m n"
  "cmp (Word a) (Num n) = -1" "cmp (Num n) (Word a) = 1"
  by (auto simp: cmp_def)

lemma cmp_list [simp]:
  "cmp [] [] = 0" "cmp [] (y # ys) = -1" "cmp (x # xs) [] = 1"
  "cmp (x # xs) (y # ys) = (if cmp x y \<noteq> 0 then cmp x y else cmp xs ys)"
  by (auto simp: cmp_def)

lemma digit_range: "is_ascii_digit c \<longleftrightarrow> 48 \<le> (of_char c :: nat) \<and> (of_char c :: nat) \<le> 57"
  by (simp add: is_ascii_digit_def less_eq_char_def)

definition dig :: "char \<Rightarrow> nat" where
  "dig c = of_char c - 48"

lemma dig_order:
  assumes "is_ascii_digit x" "is_ascii_digit y"
  shows "dig x = dig y \<longleftrightarrow> x = y" and "dig x < dig y \<longleftrightarrow> x < y"
proof -
  have e: "x = y \<longleftrightarrow> (of_char x :: nat) = of_char y" by simp
  show "dig x = dig y \<longleftrightarrow> x = y" "dig x < dig y \<longleftrightarrow> x < y"
    using assms unfolding e less_char_def dig_def digit_range by arith+
qed

lemma num_val_foldl: "foldl (\<lambda>a c. 10 * a + dig c) a s = a * 10 ^ length s + num_val s"
proof (induction s arbitrary: a)
  case (Cons c s)
  show ?case using Cons.IH [of "10 * a + dig c"] Cons.IH [of "dig c"]
    by (simp add: num_val_def dig_def algebra_simps)
qed (simp add: num_val_def)

lemma num_val_Nil [simp]: "num_val [] = 0" by (simp add: num_val_def)

lemma num_val_Cons [simp]: "num_val (c # s) = dig c * 10 ^ length s + num_val s"
  using num_val_foldl [of "dig c" s] by (simp add: num_val_def dig_def)

lemma num_val_less: "list_all is_ascii_digit s \<Longrightarrow> num_val s < 10 ^ length s"
proof (induction s)
  case (Cons c s)
  then have "num_val s < 10 ^ length s" "dig c \<le> 9" by (auto simp: digit_range dig_def)
  moreover have "dig c * 10 ^ length s \<le> 9 * 10 ^ length s" by (rule mult_right_mono [OF calculation(2)]) simp
  ultimately show ?case unfolding num_val_Cons length_Cons power_Suc by linarith
qed simp

lemma num_val_strip: "num_val (strip_zeros s) = num_val s"
  by (induction s) (auto simp: strip_zeros_def dig_def)

lemma strip_digits: "list_all is_ascii_digit s \<Longrightarrow> list_all is_ascii_digit (strip_zeros s)"
  by (auto simp: strip_zeros_def list_all_iff dest: set_dropWhileD)

lemma strip_lower: "list_all is_ascii_digit s \<Longrightarrow> strip_zeros s = c # r \<Longrightarrow> 10 ^ length r \<le> num_val (c # r)"
proof -
  assume d: "list_all is_ascii_digit s" and s: "strip_zeros s = c # r"
  have "dropWhile (\<lambda>c. c = CHR ''0'') s \<noteq> []" using s unfolding strip_zeros_def by (simp only: list.simps) simp
  from hd_dropWhile [OF this] have "c \<noteq> CHR ''0''" using s unfolding strip_zeros_def by (simp only: list.sel) blast
  moreover have "is_ascii_digit c" using strip_digits [OF d] s by simp
  moreover have "is_ascii_digit CHR ''0''" by (simp add: digit_range)
  ultimately have "dig c \<noteq> dig CHR ''0''" using dig_order(1) by blast
  then have "1 \<le> dig c" by (simp add: dig_def)
  then have "1 * 10 ^ length r \<le> dig c * 10 ^ length r" by (rule mult_right_mono) simp
  then show ?thesis unfolding num_val_Cons by linarith
qed

lemma shorter_less:
  assumes "list_all is_ascii_digit a" "list_all is_ascii_digit b" "length (strip_zeros a) < length (strip_zeros b)"
  shows "num_val a < num_val b"
proof -
  obtain c r where b: "strip_zeros b = c # r" using assms(3) by (cases "strip_zeros b") auto
  have "num_val (strip_zeros a) < 10 ^ length (strip_zeros a)" using num_val_less [OF strip_digits [OF assms(1)]] .
  also have "\<dots> \<le> 10 ^ length r" using assms(3) b by (intro power_increasing) auto
  also have "\<dots> \<le> num_val (strip_zeros b)" using strip_lower [OF assms(2) b] b by simp
  finally show ?thesis by (simp add: num_val_strip)
qed

lemma same_length_cmp:
  assumes "list_all is_ascii_digit a" "list_all is_ascii_digit b" "length a = length b"
  shows "cmp a b = cmp (num_val a) (num_val b)"
  using assms(3,1,2)
proof (induction a b rule: list_induct2)
  case (Cons x xs y ys)
  have less: "num_val xs < 10 ^ length ys" "num_val ys < 10 ^ length ys"
    using num_val_less [of xs] num_val_less [of ys] Cons by auto
  have c: "cmp x y = cmp (dig x) (dig y)"
    using Cons.prems by (simp add: cmp_def dig_order)
  have step: "dig u * 10 ^ length ys + p < dig v * 10 ^ length ys + q"
    if "dig u < dig v" "p < 10 ^ length ys" for u v p q
  proof -
    have "(dig u + 1) * 10 ^ length ys \<le> dig v * 10 ^ length ys" using that(1) by (intro mult_right_mono) auto
    then show ?thesis using that(2) by simp
  qed
  have l: "length xs = length ys" by fact
  consider "dig x < dig y" | "dig x = dig y" | "dig y < dig x" by linarith
  then show ?case
  proof cases
    case 2
    then have "x = y" using Cons.prems dig_order(1) by simp
    then have "cmp (x # xs) (y # ys) = cmp xs ys" by (simp add: cmp_def)
    also have "\<dots> = cmp (num_val xs) (num_val ys)" using Cons by simp
    also have "\<dots> = cmp (num_val (x # xs)) (num_val (y # ys))" by (simp add: 2 l cmp_def)
    finally show ?thesis .
  next
    case 1
    then have "x \<noteq> y" "x < y" using dig_order Cons.prems by auto
    moreover have "num_val (x # xs) < num_val (y # ys)" using step [OF 1] less l by simp
    ultimately show ?thesis by (simp add: cmp_def)
  next
    case 3
    then have "x \<noteq> y" "\<not> x < y" using dig_order Cons.prems by auto
    moreover have "num_val (y # ys) < num_val (x # xs)" using step [OF 3] less l by simp
    ultimately show ?thesis by (simp add: cmp_def)
  qed
qed (simp add: cmp_def)

lemma num_cmp_val:
  assumes "list_all is_ascii_digit a" "list_all is_ascii_digit b"
  shows "num_cmp a b = cmp (num_val a) (num_val b)"
proof (cases "length (strip_zeros a) = length (strip_zeros b)")
  case True
  then show ?thesis using same_length_cmp [OF strip_digits [OF assms(1)] strip_digits [OF assms(2)] True]
    by (simp add: num_cmp_def strcmp_cmp num_val_strip)
next
  case False
  then show ?thesis using shorter_less [OF assms] shorter_less [OF assms(2,1)]
    by (fastforce simp: num_cmp_def cmp_def neq_iff)
qed

definition segs_ok :: "(string \<times> bool) list \<Rightarrow> bool" where
  "segs_ok xs \<longleftrightarrow> list_all (\<lambda>(s, b). b \<longrightarrow> list_all is_ascii_digit s) xs"

lemma segs_ok_Cons [simp]: "segs_ok (x # xs) \<longleftrightarrow> (snd x \<longrightarrow> list_all is_ascii_digit (fst x)) \<and> segs_ok xs"
  by (simp add: segs_ok_def case_prod_beta)

lemma list_all_take_while: "list_all P (take k (takeWhile P s))"
  by (auto simp: list_all_iff dest!: in_set_takeD set_takeWhileD)

lemma segs_ok_seg: "segs_ok (seg s n)"
proof (induction n arbitrary: s)
  case (Suc n)
  show ?case
  proof (cases "seg_start s")
    case (Cons c cs)
    then show ?thesis using Suc.IH list_all_take_while [of is_ascii_digit _ "c # cs"]
      by (simp add: Let_def del: takeWhile.simps dropWhile.simps)
  qed (simp add: segs_ok_def)
qed (simp add: segs_ok_def)

lemma seg_cmp_keys: "segs_ok as \<Longrightarrow> segs_ok bs \<Longrightarrow> seg_cmp as bs = cmp (map seg_key as) (map seg_key bs)"
proof (induction as arbitrary: bs)
  case Nil
  then show ?case by (cases bs) auto
next
  case (Cons x as)
  then show ?case by (cases x; cases bs) (auto simp: seg_key_def num_cmp_val strcmp_cmp Let_def)
qed

lemma vercmp_keys: "pkg_vercmp (Some a) (Some b) = cmp (cut_key a) (cut_key b)"
  using seg_cmp_keys [OF segs_ok_seg segs_ok_seg]
  by (auto simp: cut_key_def strcmp_def cmp_def)

section \<open>The index file\<close>

definition join_tabs :: "string list \<Rightarrow> string" where
  "join_tabs cs = concat (map (\<lambda>c. c @ [TAB]) (butlast cs)) @ last cs"

lemma join_tabs_Cons [simp]: "cs \<noteq> [] \<Longrightarrow> join_tabs (c # cs) = c @ TAB # join_tabs cs"
  by (simp add: join_tabs_def)

lemma join_tabs_one [simp]: "join_tabs [c] = c"
  by (simp add: join_tabs_def)

lemma while_until: "TAB \<notin> set c \<Longrightarrow> takeWhile (\<lambda>x. x \<noteq> TAB) (c @ TAB # r) = c \<and> dropWhile (\<lambda>x. x \<noteq> TAB) (c @ TAB # r) = TAB # r"
  by (induction c) auto

lemma split_join: "length cs = Suc k \<Longrightarrow> list_all (\<lambda>c. TAB \<notin> set c) (butlast cs) \<Longrightarrow> split_cols (join_tabs cs) (Suc k) = cs"
proof (induction k arbitrary: cs)
  case 0
  then show ?case by (cases cs) auto
next
  case (Suc k)
  then obtain c r where c: "cs = c # r" "length r = Suc k" by (cases cs) auto
  then have "r \<noteq> []" by auto
  then show ?case using Suc.IH [of r] Suc.prems c while_until [of c "join_tabs r"] by (simp add: join_tabs_def)
qed

text \<open>A row of the repository's index as it is meant to be read.\<close>

definition row_pkg :: "string list \<Rightarrow> pkg" where
  "row_pkg r =
     \<lparr>p_name = take 63 (r ! 0), p_ver = take 63 (r ! 1), p_rel = take 31 (r ! 2), p_provides = r ! 8, p_cmds = r ! 9,
      p_size = atoi (r ! 5), p_state = PKG_NOT_INSTALLED, p_inst = []\<rparr>"

definition row_ok :: "string list \<Rightarrow> bool" where
  "row_ok r \<longleftrightarrow> length r = 10 \<and> list_all (\<lambda>c. TAB \<notin> set c \<and> NL \<notin> set c \<and> CR \<notin> set c) r
    \<and> r ! 0 \<noteq> [] \<and> hd (r ! 0) \<noteq> CHR ''#'' \<and> length (join_tabs r) \<le> 4094"

lemma index_pkg_row:
  assumes "row_ok r"
  shows "index_pkg (join_tabs r) = row_pkg r"
proof -
  have "list_all (\<lambda>c. TAB \<notin> set c) (butlast r)" using assms by (auto simp: row_ok_def list_all_iff dest: in_set_butlastD)
  then have "split_cols (join_tabs r) 10 = r" using split_join [of r 9] assms by (simp add: row_ok_def)
  moreover have "atoi [] = 0" by (simp add: atoi_def)
  ultimately show ?thesis by (auto simp: index_pkg_def split_tsv_line_def row_pkg_def safe_copy_def)
qed

lemma set_join_tabs: "cs \<noteq> [] \<Longrightarrow> set (join_tabs cs) \<subseteq> insert TAB (\<Union>c \<in> set cs. set c)"
  by (auto simp: join_tabs_def dest: in_set_butlastD)

lemma row_line:
  assumes "row_ok r"
  shows "NL \<notin> set (join_tabs r)" "CR \<notin> set (join_tabs r)" "\<not> skip_line (join_tabs r)"
proof -
  have ne: "r \<noteq> []" using assms by (auto simp: row_ok_def)
  show "NL \<notin> set (join_tabs r)" "CR \<notin> set (join_tabs r)"
    using set_join_tabs [OF ne] assms by (auto simp: row_ok_def list_all_iff TAB_def NL_def CR_def)
  obtain c cs where r: "r = c # cs" using ne by (cases r) auto
  moreover have "cs \<noteq> []" using assms r by (auto simp: row_ok_def)
  ultimately show "\<not> skip_line (join_tabs r)" using assms by (cases c) (auto simp: skip_line_def row_ok_def)
qed

lemma takeWhile_full: "x \<notin> set s \<Longrightarrow> takeWhile (\<lambda>c. c \<noteq> x) (s @ x # r) = s" "x \<notin> set s \<Longrightarrow> takeWhile (\<lambda>c. c \<noteq> x) s = s"
  by (induction s) auto

lemma fgets_line: "NL \<notin> set l \<Longrightarrow> length l \<le> n \<Longrightarrow> fgets n (l @ NL # r) = (l @ [NL], r)"
  by (simp add: fgets_def takeWhile_full)

lemma fgets_lines:
  "list_all (\<lambda>l. NL \<notin> set l \<and> length l \<le> n) ls \<Longrightarrow> fgets_all n (concat (map (\<lambda>l. l @ [NL]) ls)) = map (\<lambda>l. l @ [NL]) ls"
proof (induction ls)
  case (Cons l ls)
  then show ?case by (subst fgets_all.simps) (simp add: fgets_line)
qed (simp add: fgets_all.simps)

lemma chomp_line: "NL \<notin> set l \<Longrightarrow> CR \<notin> set l \<Longrightarrow> chomp (l @ [NL]) = l"
  by (simp add: chomp_def takeWhile_full)

lemma index_rows:
  "list_all row_ok rs \<Longrightarrow> index_lines (map (\<lambda>r. join_tabs r @ [NL]) rs) k = take k (map row_pkg rs)"
proof (induction rs arbitrary: k)
  case (Cons r rs)
  then show ?case by (cases k) (simp_all add: chomp_line row_line index_pkg_row)
qed simp

section \<open>Installed packages\<close>

definition parse_line :: "string \<Rightarrow> (string \<times> string) option" where
  "parse_line l =
     (let line = chomp l in
      if skip_line line then None
      else case dropWhile (\<lambda>c. c \<noteq> TAB) line of [] \<Rightarrow> None | _ # vr \<Rightarrow> Some (takeWhile (\<lambda>c. c \<noteq> TAB) line, vr))"

lemma apply_line_parse:
  "apply_line mx ps l =
     (case parse_line l of
        None \<Rightarrow> ps
      | Some (nm, vr) \<Rightarrow> (case find_pkg nm ps of
            Some i \<Rightarrow> ps[i := mark_installed vr (ps ! i)]
          | None \<Rightarrow> if length ps < mx then ps @ [local_pkg nm vr] else ps))"
  by (cases "dropWhile (\<lambda>c. c \<noteq> TAB) (chomp l)") (simp_all add: apply_line_def parse_line_def Let_def del: dropWhile_eq_Nil_conv)

text \<open>The version the file gives a package: its last line.\<close>

definition installed_vr :: "string \<Rightarrow> string list \<Rightarrow> string option" where
  "installed_vr nm ls =
     foldl (\<lambda>v l. case parse_line l of Some (nm', vr) \<Rightarrow> if nm' = nm then Some vr else v | None \<Rightarrow> v) None ls"

lemma find_pkg_SomeD: "find_pkg nm ps = Some i \<Longrightarrow> i < length ps \<and> p_name (ps ! i) = nm"
  by (induction ps arbitrary: i) (auto split: if_splits)

lemma find_pkg_append: "find_pkg nm ps = Some i \<Longrightarrow> find_pkg nm (ps @ qs) = Some i"
  by (induction ps arbitrary: i) (auto split: if_splits)

lemma find_pkg_cong: "map p_name ps = map p_name qs \<Longrightarrow> find_pkg nm ps = find_pkg nm qs"
proof (induction ps arbitrary: qs)
  case (Cons p ps)
  then show ?case by (cases qs) auto
qed simp

lemma mark_name [simp]: "p_name (mark_installed vr p) = p_name p"
  by (simp add: mark_installed_def)

lemma mark_mark [simp]: "mark_installed vr (mark_installed vr' p) = mark_installed vr p"
  by (simp add: mark_installed_def index_vr_def)

lemma map_name_update: "i < length ps \<Longrightarrow> map p_name (ps[i := mark_installed vr (ps ! i)]) = map p_name ps"
  by (rule nth_equalityI) (auto simp: nth_list_update)

text \<open>One line seen from one package of the index.\<close>

lemma apply_line_entry:
  assumes "find_pkg nm ps = Some i"
  shows "find_pkg nm (apply_line mx ps l) = Some i"
    and "apply_line mx ps l ! i = (case parse_line l of
        Some (nm', vr) \<Rightarrow> if nm' = nm then mark_installed vr (ps ! i) else ps ! i | None \<Rightarrow> ps ! i)"
proof -
  note i = find_pkg_SomeD [OF assms]
  show "find_pkg nm (apply_line mx ps l) = Some i"
    using assms find_pkg_cong [OF map_name_update] find_pkg_append
    by (auto simp: apply_line_parse split: option.splits dest: find_pkg_SomeD)
  show "apply_line mx ps l ! i = (case parse_line l of
        Some (nm', vr) \<Rightarrow> if nm' = nm then mark_installed vr (ps ! i) else ps ! i | None \<Rightarrow> ps ! i)"
    using assms i by (auto simp: apply_line_parse nth_append nth_list_update split: option.splits dest: find_pkg_SomeD)
qed

lemma apply_lines_entry:
  assumes "find_pkg nm ps = Some i"
  shows "foldl (apply_line mx) ps ls ! i = (case installed_vr nm ls of None \<Rightarrow> ps ! i | Some vr \<Rightarrow> mark_installed vr (ps ! i))
    \<and> find_pkg nm (foldl (apply_line mx) ps ls) = Some i"
proof (induction ls rule: rev_induct)
  case (snoc l ls)
  let ?q = "foldl (apply_line mx) ps ls"
  from snoc have "find_pkg nm ?q = Some i" by blast
  from apply_line_entry [OF this] snoc show ?case by (auto simp: installed_vr_def split: option.splits)
qed (simp add: installed_vr_def assms)

lemma apply_line_length: "length ps \<le> length (apply_line mx ps l) \<and> length (apply_line mx ps l) \<le> max (length ps) mx"
  by (auto simp: apply_line_parse split: option.splits)

lemma apply_lines_length:
  "length ps \<le> length (foldl (apply_line mx) ps ls) \<and> length (foldl (apply_line mx) ps ls) \<le> max (length ps) mx"
proof (induction ls rule: rev_induct)
  case (snoc l ls)
  then show ?case using apply_line_length [of "foldl (apply_line mx) ps ls" mx l] by (simp add: max_def split: if_splits)
qed simp

section \<open>Versions without limits\<close>

text \<open>
  The order versions are meant to have, apart from the code: a version is cut where its characters change between digits,
  letters and the rest, the rest is left out, a run of digits is the number it writes and a run of letters
  the word. Neither the runs nor their number are bounded.
\<close>

definition char_kind :: "char \<Rightarrow> nat" where
  "char_kind c =
     (if (of_char c :: nat) \<in> {48..57} then 1 else if (of_char c :: nat) \<in> {65..90} \<union> {97..122} then 2 else 0)"

fun runs :: "string \<Rightarrow> string list" where
  "runs [] = []"
| "runs (c # cs) =
     (case runs cs of
        [] \<Rightarrow> [[c]]
      | r # rs \<Rightarrow> if char_kind (hd r) = char_kind c then (c # r) # rs else [c] # r # rs)"

definition version_runs :: "string \<Rightarrow> string list" where
  "version_runs s = filter (\<lambda>r. char_kind (hd r) \<noteq> 0) (runs s)"

definition version_key :: "string \<Rightarrow> vkey list" where
  "version_key s = map (\<lambda>r. if char_kind (hd r) = 1 then Num (num_val r) else Word r) (version_runs s)"

text \<open>A version the code holds whole.\<close>

definition version_fits :: "string \<Rightarrow> bool" where
  "version_fits s \<longleftrightarrow> length (version_runs s) \<le> 128 \<and> list_all (\<lambda>r. length r \<le> 127) (version_runs s)"

lemma kind_digit: "char_kind c = 1 \<longleftrightarrow> is_ascii_digit c"
  by (simp add: char_kind_def digit_range)

lemma kind_alpha: "char_kind c = 2 \<longleftrightarrow> is_ascii_alpha c"
  by (auto simp: char_kind_def is_ascii_alpha_def less_eq_char_def)

lemma kind_rest: "char_kind c = 0 \<longleftrightarrow> \<not> is_ascii_digit c \<and> \<not> is_ascii_alpha c"
  by (simp add: char_kind_def flip: kind_digit kind_alpha)

lemma runs_Cons: "runs (c # cs) =
    (c # takeWhile (\<lambda>d. char_kind d = char_kind c) cs) # runs (dropWhile (\<lambda>d. char_kind d = char_kind c) cs)"
proof (induction cs arbitrary: c)
  case (Cons d ds)
  show ?case
    using Cons.IH [of d] by (cases "char_kind d = char_kind c") (simp_all del: runs.simps(2) add: runs.simps(2) [of c "d # ds"])
qed simp

lemma version_runs_Cons:
  "version_runs (c # cs) =
     (if char_kind c = 0 then [] else [c # takeWhile (\<lambda>d. char_kind d = char_kind c) cs]) @
     version_runs (dropWhile (\<lambda>d. char_kind d = char_kind c) cs)"
  by (simp add: version_runs_def runs_Cons del: runs.simps(2))

lemma version_runs_start: "version_runs (seg_start s) = version_runs s"
proof -
  have skip: "seg_start t = dropWhile (\<lambda>d. char_kind d = 0) t" for t by (simp add: seg_start_def kind_rest)
  show ?thesis
  proof (cases s)
    case (Cons c cs)
    then show ?thesis
      using version_runs_Cons [of c cs] unfolding skip by (cases "char_kind c = 0") simp_all
  qed (simp add: seg_start_def)
qed

lemma seg_runs: "seg s n = map (\<lambda>r. (take 127 r, char_kind (hd r) = 1)) (take n (version_runs s))"
proof (induction n arbitrary: s)
  case (Suc n)
  show ?case
  proof (cases "seg_start s")
    case Nil
    then have "version_runs s = []" using version_runs_start [of s] by (simp add: version_runs_def)
    then show ?thesis using Nil by simp
  next
    case (Cons c cs)
    define cls where "cls = (if is_ascii_digit c then is_ascii_digit else is_ascii_alpha)"
    have "dropWhile (\<lambda>c. \<not> is_ascii_digit c \<and> \<not> is_ascii_alpha c) s \<noteq> []" using Cons by (simp add: seg_start_def)
    from hd_dropWhile [OF this] have c: "is_ascii_digit c \<or> is_ascii_alpha c" using Cons by (simp add: seg_start_def)
    then have k: "char_kind c \<noteq> 0" by (simp add: kind_rest)
    have cls: "cls = (\<lambda>d. char_kind d = char_kind c)"
      using c kind_digit kind_alpha unfolding cls_def by (intro ext) (metis (full_types))
    have "version_runs s = takeWhile cls (c # cs) # version_runs (dropWhile cls (c # cs))"
      using version_runs_start [of s] k unfolding Cons version_runs_Cons cls by simp
    moreover have "seg s (Suc n) = (take 127 (takeWhile cls (c # cs)), is_ascii_digit c) # seg (dropWhile cls (c # cs)) n"
      by (simp only: seg.simps Cons list.case Let_def cls_def [symmetric] SEG_STR_MAX_def) simp
    moreover have "hd (takeWhile cls (c # cs)) = c" by (simp add: cls)
    ultimately show ?thesis using Suc.IH by (simp add: kind_digit [of c, unfolded One_nat_def] del: takeWhile.simps dropWhile.simps)
  qed
qed simp

lemma cut_key_fits: "version_fits s \<Longrightarrow> cut_key s = version_key s"
  by (auto simp: cut_key_def version_key_def seg_runs version_fits_def MAX_SEGS_def seg_key_def list_all_iff)

section \<open>Properties\<close>

text \<open>C24. \<open>pkg_vercmp\<close> compares two versions of at most 128 segments of at most 127 characters as the lists of their
  segments: words as strings, runs of digits as numbers, every number above every word, a prefix below its extensions.
  For versions of any size, and for no version at all, which is below every version, it is a total order: 0 on equal
  versions, antisymmetric and transitive.\<close>

theorem pkg_vercmp_order:
  "(version_fits a \<and> version_fits b \<longrightarrow> pkg_vercmp (Some a) (Some b) = cmp (version_key a) (version_key b))
   \<and> pkg_vercmp None (Some a) = - 1
   \<and> pkg_vercmp x x = 0 \<and> pkg_vercmp y x = - pkg_vercmp x y
   \<and> (pkg_vercmp x y \<le> 0 \<and> pkg_vercmp y z \<le> 0 \<longrightarrow> pkg_vercmp x z \<le> 0)"
proof -
  have le: "cmp u v \<le> 0 \<longleftrightarrow> u \<le> v" for u v :: "vkey list" by (auto simp: cmp_def)
  show ?thesis
    by (cases x; cases y; cases z)
      (auto simp: vercmp_keys cut_key_fits le cmp_def simp del: pkg_vercmp.simps(4))
qed

theorem pkg_vercmp_order_witness:
  "pkg_vercmp (Some ''1.10'') (Some ''1.9'') = 1 \<and> pkg_vercmp (Some ''1.9'') (Some ''1.10'') = -1"
proof -
  have "version_fits ''1.10'' \<and> version_fits ''1.9''" by code_simp
  moreover have "cmp (version_key ''1.10'') (version_key ''1.9'') = 1" by code_simp
  ultimately show ?thesis
    using pkg_vercmp_order [of "''1.10''" "''1.9''" "Some ''1.10''" "Some ''1.9''" None] by (simp only: simp_thms)
qed

text \<open>Beyond 127 characters digits are lost: one followed by 127 zeros and by 128 zeros compare as equal.\<close>

lemma long_runs_cut:
  "pkg_vercmp (Some (CHR ''1'' # replicate 127 CHR ''0'')) (Some (CHR ''1'' # replicate 128 CHR ''0'')) = 0"
  by code_simp


definition demo_row :: "string list" where
  "demo_row = [''bash'', ''5.2'', ''1'', [], [], ''900'', [], [], ''libc'', ''sh'']"


text \<open>C36. Marking installed packages: a package of the index that the file of installed packages does not name is
  left alone; one that it names is marked with the version of its last line, as newer in the index
  exactly when the index version is greater (as the code compares, by the cut segments), else as installed. The table never outgrows its size.\<close>

theorem pkg_installed_marks:
  assumes "find_pkg nm ps = Some i" and "pkg_apply_installed (Some file) ps mx = (k, ps')"
  shows "k = int (length ps') \<and> length ps \<le> length ps' \<and> length ps' \<le> max (length ps) mx
    \<and> ps' ! i = (case installed_vr nm (fgets_all 1022 file) of
          None \<Rightarrow> ps ! i
        | Some vr \<Rightarrow> (ps ! i)\<lparr>p_inst := take 95 vr,
            p_state := if cut_key vr < cut_key (index_vr (ps ! i)) then PKG_NEWER else PKG_INSTALLED\<rparr>)"
proof -
  have m: "mark_installed vr p = p\<lparr>p_inst := take 95 vr,
      p_state := if cut_key vr < cut_key (index_vr p) then PKG_NEWER else PKG_INSTALLED\<rparr>" for vr p
    by (auto simp: mark_installed_def vercmp_keys safe_copy_def cmp_def simp del: pkg_vercmp.simps(4))
  show ?thesis
    using assms(2) apply_lines_entry [OF assms(1), of mx "fgets_all 1022 file"] apply_lines_length [of ps mx "fgets_all 1022 file"]
    by (auto simp: pkg_apply_installed_def m Let_def split: option.splits)
qed

definition demo_pkg :: pkg where
  "demo_pkg = row_pkg [''bash'', ''5.2'', ''1'', [], [], ''900'', [], [], [], []]"

theorem pkg_installed_marks_witness:
  "\<exists>ps'. pkg_apply_installed (Some (''bash'' @ [TAB] @ ''5.1-9'' @ [NL])) [demo_pkg] 10 = (1, ps') \<and> p_state (ps' ! 0) = PKG_NEWER"
proof -
  define f where "f = ''bash'' @ [TAB] @ ''5.1-9'' @ [NL]"
  obtain k ps' where r: "pkg_apply_installed (Some f) [demo_pkg] 10 = (k, ps')" by fastforce
  have "fst (pkg_apply_installed (Some f) [demo_pkg] 10) = 1" unfolding f_def by code_simp
  then have k: "k = 1" unfolding r by (simp only: fst_conv)
  have p: "find_pkg ''bash'' [demo_pkg] = Some 0" by code_simp
  have v: "installed_vr ''bash'' (fgets_all 1022 f) = Some ''5.1-9''" unfolding f_def by code_simp
  have n: "cut_key ''5.1-9'' < cut_key (index_vr demo_pkg)" by code_simp
  have "p_state (ps' ! 0) = PKG_NEWER" using pkg_installed_marks [OF p r] by (simp add: v n)
  then show ?thesis using r k unfolding f_def by blast
qed

text \<open>A package outside the index that the file names twice is marked as installed from the index.\<close>

lemma local_only_twice:
  "map p_state (snd (pkg_apply_installed (Some (''gpg-pubkey'' @ [TAB] @ ''1-1'' @ [NL] @ ''gpg-pubkey'' @ [TAB] @ ''2-1'' @ [NL])) [] 10))
     = [PKG_INSTALLED]"
  by code_simp

end
