(* ===== verification/Runner.thy ===== *)
theory Runner
  imports Prelude
begin

text \<open>
  The command runner of the GEM package manager, \<open>src/ttpkg/runner.c\<close>: the list of commands it may run
  and the life of its one child process. The system (\<open>pipe\<close>, \<open>fork\<close>, \<open>read\<close>, \<open>waitpid\<close>) answers through
  the arguments of each operation; the file descriptors the parent has open and the children it has not
  waited for are tracked beside the program's own variables, so that leaks can be stated.
\<close>

section \<open>The code\<close>

definition in_range :: "char \<Rightarrow> char \<Rightarrow> char \<Rightarrow> bool" where
  "in_range lo hi c \<longleftrightarrow> (of_char lo :: nat) \<le> of_char c \<and> (of_char c :: nat) \<le> of_char hi"

definition is_alnum :: "char \<Rightarrow> bool" where
  "is_alnum c \<longleftrightarrow> in_range CHR ''a'' CHR ''z'' c \<or> in_range CHR ''A'' CHR ''Z'' c \<or> in_range CHR ''0'' CHR ''9'' c"

definition is_valid_pkg_name :: "string \<Rightarrow> bool" where
  "is_valid_pkg_name name \<longleftrightarrow> name \<noteq> [] \<and> is_alnum (hd name)
    \<and> list_all (\<lambda>c. is_alnum c \<or> c = CHR ''.'' \<or> c = CHR ''_'' \<or> c = CHR ''+'' \<or> c = CHR ''-'') name"

definition rpm_format :: string where
  "rpm_format = ''%{NAME}'' @ [CHR 0x09] @ ''%{VERSION}-%{RELEASE}'' @ [CHR 0x0A]"

definition runner_allowed :: "string list \<Rightarrow> bool" where
  "runner_allowed argv =
     (case argv of
        [] \<Rightarrow> False
      | cmd # args \<Rightarrow>
          if cmd = ''/usr/bin/yum'' then
            (case args of
               [] \<Rightarrow> False
             | verb # names \<Rightarrow>
                 if verb = ''makecache'' then names = []
                 else if verb = ''install'' \<or> verb = ''remove'' then names \<noteq> [] \<and> list_all is_valid_pkg_name names
                 else if verb = ''update'' then list_all is_valid_pkg_name names
                 else False)
          else if cmd = ''/bin/rpm'' then args = [''-qa'', ''--queryformat'', rpm_format]
          else False)"

record runner =
  child_pid :: int
  pipe_fd :: int
  child_running :: bool
  open_fds :: "int set"
  unreaped :: "int set"
  ran :: "string list list"
  killed :: "int list"

definition runner0 :: runner where
  "runner0 = \<lparr>child_pid = -1, pipe_fd = -1, child_running = False, open_fds = {}, unreaped = {}, ran = [], killed = []\<rparr>"

text \<open>What the system answers to \<open>pipe\<close> (the two descriptors) and \<open>fork\<close> (in the parent).\<close>

definition runner_start :: "string list \<Rightarrow> (int \<times> int) option \<Rightarrow> int \<Rightarrow> runner \<Rightarrow> int \<times> runner" where
  "runner_start argv pipes pid s =
     (if child_running s then (-1, s)
      else if \<not> runner_allowed argv then (-1, s)
      else case pipes of
        None \<Rightarrow> (-1, s)
      | Some (r, w) \<Rightarrow>
          (let s = s\<lparr>open_fds := open_fds s \<union> {r, w}\<rparr> in
           if pid < 0 then (-1, s\<lparr>open_fds := open_fds s - {r, w}\<rparr>)
           else (0, s\<lparr>open_fds := open_fds s - {w}, unreaped := insert pid (unreaped s), ran := ran s @ [argv],
                      pipe_fd := r, child_pid := pid, child_running := True\<rparr>)))"

datatype read_result = Data nat | Eof | Again | Failed

definition close_pipe :: "runner \<Rightarrow> runner" where
  "close_pipe s = s\<lparr>open_fds := open_fds s - {pipe_fd s}, pipe_fd := -1\<rparr>"

definition runner_poll :: "int \<Rightarrow> read_result \<Rightarrow> runner \<Rightarrow> int \<times> runner" where
  "runner_poll cap r s =
     (if \<not> child_running s \<or> pipe_fd s < 0 \<or> cap \<le> 0 then (-1, s)
      else case r of
        Data n \<Rightarrow> (int n, s)
      | Eof \<Rightarrow> (-1, close_pipe s)
      | Again \<Rightarrow> (0, s)
      | Failed \<Rightarrow> (-1, close_pipe s))"

text \<open>The wait status as the C library's macros read it.\<close>

definition wait_result :: "u16 \<Rightarrow> int" where
  "wait_result st =
     (if st AND 0x7f \<noteq> 0 \<and> st AND 0x7f \<noteq> 0x7f then 1000 + uint (st AND 0x7f)
      else if st AND 0x7f = 0 then uint (drop_bit 8 st)
      else uint st)"

text \<open>\<open>w\<close> is the status \<open>waitpid\<close> reports, or nothing when it fails or is interrupted: the code does not look, takes the child
  for gone and its status for 0, and the child stays unreaped.\<close>

definition runner_finish :: "u16 option \<Rightarrow> runner \<Rightarrow> int \<times> runner" where
  "runner_finish w s =
     (if \<not> child_running s \<and> child_pid s < 0 then (-1, s)
      else
        (let s = (if 0 \<le> pipe_fd s then close_pipe s else s);
             (st, s) = (case w of
                 Some st \<Rightarrow> if 0 < child_pid s then (st, s\<lparr>unreaped := unreaped s - {child_pid s}\<rparr>) else (0, s)
               | None \<Rightarrow> (0, s))
         in (wait_result st, s\<lparr>child_running := False, child_pid := -1\<rparr>)))"

definition runner_cancel :: "runner \<Rightarrow> runner" where
  "runner_cancel s =
     (if child_running s \<and> 0 < child_pid s then s\<lparr>killed := killed s @ [child_pid s]\<rparr> else s)"

section \<open>Runs of the program\<close>

text \<open>The system gives descriptors that are free and a pid that is no child's; \<open>read\<close> gives at most the
  room asked for; \<open>waitpid\<close> waits out the child and reaps it (the program installs no handler that would interrupt it).\<close>

inductive runner_step :: "runner \<Rightarrow> runner \<Rightarrow> bool" where
  start: "(case pipes of Some (r, w) \<Rightarrow> 0 \<le> r \<and> 0 \<le> w \<and> r \<noteq> w \<and> r \<notin> open_fds s \<and> w \<notin> open_fds s | None \<Rightarrow> True) \<Longrightarrow>
      pid \<noteq> 0 \<Longrightarrow> pid \<notin> unreaped s \<Longrightarrow> runner_step s (snd (runner_start argv pipes pid s))"
| poll: "runner_step s (snd (runner_poll cap r s))"
| finish: "runner_step s (snd (runner_finish (Some st) s))"
| cancel: "runner_step s (runner_cancel s)"

inductive runner_reach :: "runner \<Rightarrow> bool" where
  init: "runner_reach runner0"
| step: "runner_reach s \<Longrightarrow> runner_step s s' \<Longrightarrow> runner_reach s'"

definition runner_ok :: "runner \<Rightarrow> bool" where
  "runner_ok s \<longleftrightarrow>
     unreaped s = (if child_running s then {child_pid s} else {})
   \<and> (if child_running s then 0 < child_pid s else child_pid s = -1 \<and> pipe_fd s < 0)
   \<and> (if 0 \<le> pipe_fd s then open_fds s = {pipe_fd s} else open_fds s = {})
   \<and> list_all runner_allowed (ran s) \<and> list_all (\<lambda>p. 0 < p) (killed s)"

inductive_cases runner_stepE: "runner_step s s'"

lemma start_ok:
  assumes "runner_ok s" and "pid \<noteq> 0"
    and "case pipes of Some (r, w) \<Rightarrow> 0 \<le> r \<and> 0 \<le> w \<and> r \<noteq> w \<and> r \<notin> open_fds s \<and> w \<notin> open_fds s | None \<Rightarrow> True"
  shows "runner_ok (snd (runner_start argv pipes pid s))"
proof (cases "child_running s \<or> \<not> runner_allowed argv \<or> pipes = None")
  case True
  then show ?thesis using assms(1) by (auto simp only: runner_start_def if_True if_False snd_conv option.case split: if_split)
next
  case False
  then obtain r w where p: "pipes = Some (r, w)" and n: "\<not> child_running s" and a: "runner_allowed argv" by auto
  have o: "open_fds s = {}" "unreaped s = {}" "0 \<le> r" "r \<noteq> w" using assms(1,3) n by (simp_all add: runner_ok_def p)
  show ?thesis using assms(1,2) n a o by (simp add: runner_start_def runner_ok_def p Let_def insert_Diff_if)
qed

lemma close_pipe_ok: "runner_ok s \<Longrightarrow> child_running s \<Longrightarrow> runner_ok (close_pipe s)"
  by (cases "0 \<le> pipe_fd s") (simp_all add: runner_ok_def close_pipe_def)

lemma poll_ok: "runner_ok s \<Longrightarrow> runner_ok (snd (runner_poll cap r s))"
  by (cases r) (simp_all add: runner_poll_def close_pipe_ok)

lemma finish_ok: "runner_ok s \<Longrightarrow> runner_ok (snd (runner_finish (Some st) s))"
  by (cases "child_running s"; cases "0 \<le> pipe_fd s")
    (simp_all add: runner_finish_def runner_ok_def close_pipe_def Let_def)

lemma cancel_ok: "runner_ok s \<Longrightarrow> runner_ok (runner_cancel s)"
  by (cases "child_running s") (simp_all add: runner_cancel_def runner_ok_def)

lemma reach_ok: "runner_reach s \<Longrightarrow> runner_ok s"
proof (induction rule: runner_reach.induct)
  case init
  then show ?case by (simp add: runner_ok_def runner0_def)
next
  case (step s s')
  from step(2) show ?case
    by cases (auto simp only: intro: step.IH start_ok poll_ok finish_ok cancel_ok)
qed

section \<open>Properties\<close>

text \<open>C34. In every run: at most one child at a time, and only a command of the list was ever started; the only
  descriptor kept open is the pipe of the running child, and when none runs no descriptor is open and no
  child is left unwaited; a signal goes only to a positive process group, so never to the program's own.\<close>

theorem runner_safe:
  assumes "runner_reach s"
  shows "unreaped s = (if child_running s then {child_pid s} else {})
    \<and> open_fds s \<subseteq> (if child_running s then {pipe_fd s} else {})
    \<and> list_all runner_allowed (ran s) \<and> list_all (\<lambda>p. 0 < p) (killed s)"
  using reach_ok [OF assms] by (cases "child_running s"; cases "0 \<le> pipe_fd s") (simp_all add: runner_ok_def)

theorem runner_safe_witness:
  "unreaped (snd (runner_start [''/usr/bin/yum'', ''update''] (Some (4, 5)) 77 runner0)) = {77}"
proof -
  have "runner_reach (snd (runner_start [''/usr/bin/yum'', ''update''] (Some (4, 5)) 77 runner0))"
    by (rule runner_reach.step [OF runner_reach.init runner_step.start]) (simp_all add: runner0_def)
  from runner_safe [OF this] show ?thesis by (simp add: runner_start_def runner_allowed_def runner0_def)
qed

text \<open>An interrupted \<open>waitpid\<close> would be taken for the end of the child, which is then never reaped.\<close>

lemma interrupted_wait:
  assumes "runner_ok s" and "child_running s"
  shows "fst (runner_finish None s) = 0 \<and> unreaped (snd (runner_finish None s)) = {child_pid s} \<and>
    child_pid (snd (runner_finish None s)) = - 1"
  using assms by (auto simp: runner_finish_def runner_ok_def close_pipe_def wait_result_def Let_def)

text \<open>What may be run: yum with a fixed verb and package names, or the one rpm query. Every argument of yum after the verb is a
  name of letters, digits and \<open>. _ + -\<close> that starts with a letter or digit, so none is an option, a path or anything a
  shell would interpret.\<close>

lemma runner_allowed_shape:
  assumes "runner_allowed argv"
  shows "argv = [''/bin/rpm'', ''-qa'', ''--queryformat'', rpm_format]
    \<or> (\<exists>verb names. argv = ''/usr/bin/yum'' # verb # names \<and> verb \<in> {''makecache'', ''install'', ''remove'', ''update''}
        \<and> list_all (\<lambda>n. n \<noteq> [] \<and> hd n \<noteq> CHR ''-'' \<and> set n \<inter> set '' /;&|$<>*?'' = {}) names)"
proof -
  have name: "n \<noteq> [] \<and> hd n \<noteq> CHR ''-'' \<and> set n \<inter> set '' /;&|$<>*?'' = {}" if "is_valid_pkg_name n" for n
    using that by (auto simp: is_valid_pkg_name_def is_alnum_def in_range_def list_all_iff)
  show ?thesis
  proof (cases argv)
    case Nil
    then show ?thesis using assms by (simp add: runner_allowed_def)
  next
    case (Cons cmd args)
    then show ?thesis using assms name
      by (cases args) (auto simp: runner_allowed_def list_all_iff split: if_splits)
  qed
qed

end
