(* ===== verification/Ttmqtt.thy ===== *)
theory Ttmqtt
  imports Prelude
begin

text \<open>
  The MQTT client \<open>src/ttmqtt.c\<close>: packet framing, the CONNECT, PUBLISH and SUBSCRIBE packets, reading
  packets, the subscribe loop with its exit codes, and the command line. What the broker sends is a list
  that ends when it closes the connection; a \<open>Hush\<close> entry is a silence at least as long as \<open>-W\<close>.
  \<open>read\<close> waits through a silence, \<open>select\<close> reports it.
\<close>

section \<open>The code\<close>

definition put_str :: "bytes \<Rightarrow> bytes" where
  "put_str s = [of_nat (length s div 256), of_nat (length s mod 256)] @ s"

function rem_len :: "nat \<Rightarrow> bytes" where
  "rem_len n =
     (if n div 128 = 0 then [of_nat (n mod 128)] else (of_nat (n mod 128) OR 0x80) # rem_len (n div 128))"
  by pat_completeness auto
termination by (relation "measure id") auto

declare rem_len.simps [simp del]

definition put_hdr :: "u8 \<Rightarrow> nat \<Rightarrow> bytes" where
  "put_hdr ty n = ty # rem_len n"

datatype inb = Got u8 | Hush

fun read_all :: "nat \<Rightarrow> inb list \<Rightarrow> (bytes \<times> inb list) option" where
  "read_all 0 is = Some ([], is)"
| "read_all (Suc n) [] = None"
| "read_all (Suc n) (Hush # is) = read_all (Suc n) is"
| "read_all (Suc n) (Got b # is) = map_option (\<lambda>(bs, r). (b # bs, r)) (read_all n is)"

fun read_len :: "nat \<Rightarrow> nat \<Rightarrow> nat \<Rightarrow> inb list \<Rightarrow> (nat \<times> inb list) option" where
  "read_len 0 mult n is = Some (n, is)"
| "read_len (Suc i) mult n is =
     (case read_all 1 is of
        None \<Rightarrow> None
      | Some (c, is) \<Rightarrow>
          (let n = n + unat (hd c AND 0x7f) * mult in
           if hd c AND 0x80 = 0 then Some (n, is) else read_len i (mult * 128) n is))"

definition read_packet :: "nat \<Rightarrow> inb list \<Rightarrow> (u8 \<times> bytes \<times> inb list) option" where
  "read_packet cap is =
     (case read_all 1 is of
        None \<Rightarrow> None
      | Some (c, is) \<Rightarrow>
          (case read_len 4 1 0 is of
             None \<Rightarrow> None
           | Some (n, is) \<Rightarrow>
               if cap \<le> n then None
               else (case read_all n is of None \<Rightarrow> None | Some (b, is) \<Rightarrow> Some (hd c, b, is))))"

definition ascii :: "string \<Rightarrow> bytes" where
  "ascii s = map of_char s"

text \<open>The CONNECT packet; the client id carries the process id in decimal.\<close>

definition connect_body :: "bytes \<Rightarrow> bytes option \<Rightarrow> bytes option \<Rightarrow> bytes" where
  "connect_body pid user pass =
     put_str (ascii ''MQTT'') @ [4, 0x02 OR (if user \<noteq> None then 0x80 else 0) OR (if pass \<noteq> None then 0x40 else 0), 0, 0]
     @ put_str (ascii ''ttmqtt-'' @ pid) @ (case user of None \<Rightarrow> [] | Some u \<Rightarrow> put_str u)
     @ (case pass of None \<Rightarrow> [] | Some p \<Rightarrow> put_str p)"

definition connect_pkt :: "bytes \<Rightarrow> bytes option \<Rightarrow> bytes option \<Rightarrow> bytes" where
  "connect_pkt pid user pass = (let b = connect_body pid user pass in put_hdr 0x10 (length b) @ b)"

text \<open>The answer to CONNECT: what is left of the input, if the broker accepted.\<close>

definition connack :: "inb list \<Rightarrow> inb list option" where
  "connack is =
     (case read_packet 512 is of
        None \<Rightarrow> None
      | Some (ty, b, is) \<Rightarrow> if ty = 0x20 \<and> length b = 2 \<and> b ! 1 = 0 then Some is else None)"

definition publish_pkt :: "bool \<Rightarrow> bytes \<Rightarrow> bytes \<Rightarrow> bytes" where
  "publish_pkt retain topic msg =
     put_hdr (0x30 OR (if retain then 1 else 0)) (2 + length topic + length msg) @ put_str topic @ msg"

definition subscribe_body :: "bytes \<Rightarrow> bytes" where
  "subscribe_body flt = [0, 1] @ put_str flt @ [0]"

definition subscribe_pkt :: "bytes \<Rightarrow> bytes" where
  "subscribe_pkt flt = put_hdr 0x82 (length (subscribe_body flt)) @ subscribe_body flt"

definition suback :: "inb list \<Rightarrow> inb list option" where
  "suback is =
     (case read_packet 8192 is of
        None \<Rightarrow> None
      | Some (ty, b, is) \<Rightarrow> if ty = 0x90 \<and> length b = 3 \<and> b ! 2 \<noteq> 0x80 then Some is else None)"

definition c_string :: "bytes \<Rightarrow> bytes" where
  "c_string b = takeWhile (\<lambda>x. x \<noteq> 0) b"

fun occurs :: "bytes \<Rightarrow> bytes \<Rightarrow> bool" where
  "occurs pat s = (take (length pat) s = pat \<or> (case s of [] \<Rightarrow> False | _ # r \<Rightarrow> occurs pat r))"

declare occurs.simps [simp del]

definition terminal :: "bool \<Rightarrow> bytes list \<Rightarrow> bytes \<Rightarrow> bool" where
  "terminal keep stops topic \<longleftrightarrow> (\<not> keep \<and> stops = []) \<or> list_ex (\<lambda>st. occurs st (c_string topic)) stops"

definition topic_len :: "bytes \<Rightarrow> nat" where
  "topic_len b = 256 * unat (b ! 0) + unat (b ! 1)"

definition show_msg :: "bytes \<Rightarrow> bytes \<Rightarrow> bytes" where
  "show_msg topic payload = topic @ [0x20] @ payload @ [0x0A]"

lemma read_all_length: "read_all n is = Some (b, r) \<Longrightarrow> length r + n \<le> length is"
  by (induction n "is" arbitrary: b r rule: read_all.induct) auto

lemma read_len_length: "read_len i m n is = Some (k, r) \<Longrightarrow> length r \<le> length is"
proof (induction i arbitrary: m n "is")
  case (Suc i)
  then show ?case
    by (auto simp: Let_def split: option.splits if_splits dest!: read_all_length Suc.IH)
qed simp

lemma read_packet_length: "read_packet cap is = Some (ty, b, r) \<Longrightarrow> length r < length is"
  by (auto simp: read_packet_def split: option.splits if_splits dest!: read_all_length read_len_length)

text \<open>The subscribe loop: the exit status and what was printed. A PUBLISH shorter than its topic length, like a closed
  connection, is a failure; the two bytes of the length are read from the packet buffer, so a body of less than two
  bytes is one as well.\<close>

function listen_msgs :: "bool \<Rightarrow> bytes list \<Rightarrow> inb list \<Rightarrow> nat \<times> bytes" where
  "listen_msgs keep stops is =
     (if is \<noteq> [] \<and> hd is = Hush then (1, [])
      else case read_packet 8192 is of
        None \<Rightarrow> (2, [])
      | Some (ty, b, is') \<Rightarrow>
          if ty AND 0xf0 = 0x30 then
            (if length b < topic_len b + 2 then (2, [])
             else
               (let topic = take (topic_len b) (drop 2 b); payload = drop (2 + topic_len b) b in
                if terminal keep stops topic then (0, show_msg topic payload)
                else (let (st, out) = listen_msgs keep stops is' in (st, show_msg topic payload @ out))))
          else listen_msgs keep stops is')"
  by pat_completeness auto
termination
  by (relation "measure (\<lambda>(k, s, is). length is)") (auto dest: read_packet_length)

declare listen_msgs.simps [simp del]

record mq_opts =
  m_host :: bytes
  m_user :: "bytes option"
  m_pass :: "bytes option"
  m_wait :: int
  m_retain :: bool
  m_keep :: bool
  m_announce :: bool
  m_stop :: "bytes list"

definition mq_default :: mq_opts where
  "mq_default = \<lparr>m_host = ascii ''mqtt.sam.int'', m_user = None, m_pass = None, m_wait = 900, m_retain = False,
     m_keep = False, m_announce = False, m_stop = []\<rparr>"

text \<open>Options, up to the first argument that does not start with a dash.\<close>

fun mq_parse :: "bytes list \<Rightarrow> mq_opts \<Rightarrow> (mq_opts \<times> bytes list) option" where
  "mq_parse [] o' = Some (o', [])"
| "mq_parse (a # as) o' =
     (if a = [] \<or> hd a \<noteq> 0x2D then Some (o', a # as)
      else if a = ascii ''-r'' then mq_parse as (o'\<lparr>m_retain := True\<rparr>)
      else if a = ascii ''-k'' then mq_parse as (o'\<lparr>m_keep := True\<rparr>)
      else if a = ascii ''-S'' then mq_parse as (o'\<lparr>m_announce := True\<rparr>)
      else
        (case as of
           [] \<Rightarrow> None
         | v # rest \<Rightarrow>
             if a = ascii ''-h'' then mq_parse rest (o'\<lparr>m_host := v\<rparr>)
             else if a = ascii ''-W'' then mq_parse rest (o'\<lparr>m_wait := atoi (map (\<lambda>b. char_of (unat b)) v)\<rparr>)
             else if a = ascii ''-u'' then mq_parse rest (o'\<lparr>m_user := Some v\<rparr>)
             else if a = ascii ''-P'' then mq_parse rest (o'\<lparr>m_pass := Some v\<rparr>)
             else if a = ascii ''-E'' \<and> length (m_stop o') < 8 then mq_parse rest (o'\<lparr>m_stop := m_stop o' @ [v]\<rparr>)
             else None))"

datatype command = Publish bool bytes bytes | Subscribe bytes

definition mq_args :: "bytes list \<Rightarrow> (mq_opts \<times> command) option" where
  "mq_args args =
     (case args of
        [] \<Rightarrow> None
      | c # rest \<Rightarrow>
          if c \<noteq> ascii ''sub'' \<and> c \<noteq> ascii ''pub'' then None
          else case mq_parse rest mq_default of
            None \<Rightarrow> None
          | Some (o', ps) \<Rightarrow>
              if c = ascii ''sub'' then
                (case ps of [t] \<Rightarrow> if 1000 < length t then None else Some (o', Subscribe t) | _ \<Rightarrow> None)
              else
                (case ps of
                   [t, m] \<Rightarrow> if 1000 < length t \<or> 6000 < length m then None else Some (o', Publish (m_retain o') t m)
                 | _ \<Rightarrow> None))"

text \<open>The program once connected at the TCP level: its exit status, what it sent and what it printed.\<close>

definition mq_main :: "bytes list \<Rightarrow> bytes \<Rightarrow> inb list \<Rightarrow> nat \<times> bytes \<times> bytes" where
  "mq_main args pid is =
     (case mq_args args of
        None \<Rightarrow> (2, [], [])
      | Some (o', cmd) \<Rightarrow>
          (let hello = connect_pkt pid (m_user o') (m_pass o') in
           case connack is of
             None \<Rightarrow> (2, hello, [])
           | Some is \<Rightarrow>
               (case cmd of
                  Publish r t m \<Rightarrow> (0, hello @ publish_pkt r t m @ [0xe0, 0], [])
                | Subscribe t \<Rightarrow>
                    (case suback is of
                       None \<Rightarrow> (2, hello @ subscribe_pkt t, [])
                     | Some is \<Rightarrow>
                         (let (st, out) = listen_msgs (m_keep o') (m_stop o') is in
                          (st, hello @ subscribe_pkt t @ (if st = 0 then [0xe0, 0] else []),
                           (if m_announce o' then ascii ''SUBSCRIBED'' @ [0x0A] else []) @ out))))))"

section \<open>Framing\<close>

lemma read_all_got [simp]: "read_all (length bs) (map Got bs @ is) = Some (bs, is)"
  by (induction bs) auto

lemma read_one [simp]: "read_all (Suc 0) (Got b # is) = Some ([b], is)"
  using read_all_got [of "[b]" "is"] by simp

lemma low7:
  assumes "k < 128"
  shows "(of_nat k :: u8) AND 0x80 = 0" "unat ((of_nat k :: u8) AND 0x7f) = k"
    "(of_nat k OR 0x80 :: u8) AND 0x80 \<noteq> 0" "unat ((of_nat k OR 0x80 :: u8) AND 0x7f) = k"
proof -
  have b: "\<not> bit k n" if "7 \<le> n" for n
  proof -
    have "(2 :: nat) ^ 7 \<le> 2 ^ n" using that by (rule power_increasing) simp
    then have "k < 2 ^ n" using assms by simp
    then show ?thesis by (simp add: bit_iff_odd)
  qed
  have m: "bit (0x7f :: u8) n \<longleftrightarrow> n < 7" "bit (0x80 :: u8) n \<longleftrightarrow> n = 7" if "n < 8" for n
  proof -
    from that have "n \<in> {0, 1, 2, 3, 4, 5, 6, 7}" by auto
    then show "bit (0x7f :: u8) n \<longleftrightarrow> n < 7" "bit (0x80 :: u8) n \<longleftrightarrow> n = 7" by auto
  qed
  have k: "unat (of_nat k :: u8) = k" using assms by (simp add: unat_of_nat)
  have kb: "bit (of_nat k :: u8) n \<longleftrightarrow> n < 7 \<and> bit k n" if "n < 8" for n
    using that b [of n] by (cases "n < 7") (auto simp: bit_of_nat_iff)
  show "(of_nat k :: u8) AND 0x80 = 0"
  proof (rule bit_word_eqI)
    fix n assume "n < LENGTH(8)"
    then have "n < 8" by simp
    from m(2) [OF this] kb [OF this] show "bit ((of_nat k :: u8) AND 0x80) n = bit (0 :: u8) n"
      by (auto simp only: bit_and_iff bit_0_eq bot_apply bot_bool_def)
  qed
  show "(of_nat k OR 0x80 :: u8) AND 0x80 \<noteq> 0"
  proof
    assume "(of_nat k OR 0x80 :: u8) AND 0x80 = 0"
    then have "\<not> bit ((of_nat k OR 0x80 :: u8) AND 0x80) 7" by simp
    then show False by (simp add: bit_and_iff bit_or_iff m)
  qed
  have "(of_nat k :: u8) AND 0x7f = of_nat k \<and> (of_nat k OR 0x80 :: u8) AND 0x7f = of_nat k"
  proof (intro conjI bit_word_eqI)
    fix n assume "n < LENGTH(8)"
    then have "n < 8" by simp
    from m [OF this] kb [OF this] show "bit ((of_nat k :: u8) AND 0x7f) n = bit (of_nat k :: u8) n"
      "bit ((of_nat k OR 0x80 :: u8) AND 0x7f) n = bit (of_nat k :: u8) n"
      by (auto simp only: bit_and_iff bit_or_iff)
  qed
  then show "unat ((of_nat k :: u8) AND 0x7f) = k" "unat ((of_nat k OR 0x80 :: u8) AND 0x7f) = k" by (simp_all add: k)
qed

lemma read_rem_len:
  "n < 128 ^ Suc i \<Longrightarrow> read_len (Suc i) m a (map Got (rem_len n) @ is) = Some (a + n * m, is)"
proof (induction i arbitrary: n m a)
  case 0
  then show ?case using low7 [of "n mod 128"] by (subst rem_len.simps) simp
next
  case (Suc i)
  note l = low7 [of "n mod 128"]
  show ?case
  proof (cases "n div 128 = 0")
    case True
    then show ?thesis using l by (subst rem_len.simps) (simp add: div_eq_0_iff)
  next
    case False
    have "n div 128 < 128 ^ Suc i" using Suc.prems by (simp add: less_mult_imp_div_less)
    from Suc.IH [OF this, of "m * 128" "a + n mod 128 * m"]
    have "read_len (Suc i) (m * 128) (a + n mod 128 * m) (map Got (rem_len (n div 128)) @ is) =
        Some (a + n mod 128 * m + n div 128 * (m * 128), is)" .
    moreover have "n mod 128 * m + n div 128 * (m * 128) = n * m"
      by (metis (no_types, lifting) add.commute distrib_right div_mult_mod_eq mult.assoc mult.commute)
    ultimately show ?thesis using False l by (subst rem_len.simps) (simp del: read_len.simps add: read_len.simps(2) [of "Suc i"] add.assoc)
  qed
qed

lemma read_sent:
  assumes "length b < cap" and "cap \<le> 128 ^ 4"
  shows "read_packet cap (map Got (put_hdr ty (length b) @ b) @ is) = Some (ty, b, is)"
proof -
  have "length b < 128 ^ Suc 3" using assms by simp
  from read_rem_len [OF this, of 1 0] show ?thesis
    using assms(1) by (simp add: read_packet_def put_hdr_def numeral_eq_Suc del: read_len.simps)
qed

section \<open>Properties\<close>

text \<open>How the receiver of a PUBLISH (the broker, and this program's own \<open>sub\<close>) takes its body apart.\<close>

definition open_publish :: "bytes \<Rightarrow> bytes \<times> bytes" where
  "open_publish b = (take (topic_len b) (drop 2 b), drop (2 + topic_len b) b)"

lemma topic_len_put: "length t < 65536 \<Longrightarrow> topic_len (put_str t @ m) = length t"
proof -
  assume l: "length t < 65536"
  have "unat (of_nat (length t div 256) :: u8) = length t div 256" "unat (of_nat (length t mod 256) :: u8) = length t mod 256"
    using l by (simp_all add: unat_of_nat)
  then show ?thesis by (simp add: topic_len_def put_str_def)
qed

lemma open_publish_put: "length t < 65536 \<Longrightarrow> open_publish (put_str t @ m) = (t, m)"
  using topic_len_put [of t m] by (simp add: open_publish_def) (simp add: put_str_def)

lemma rem_len_size: "n < 128 ^ Suc i \<Longrightarrow> length (rem_len n) \<le> Suc i"
proof (induction i arbitrary: n)
  case 0
  then show ?case by (subst rem_len.simps) (simp add: div_eq_0_iff)
next
  case (Suc i)
  then have "n div 128 < 128 ^ Suc i" by (simp add: less_mult_imp_div_less)
  from Suc.IH [OF this] show ?case by (subst rem_len.simps) simp
qed

text \<open>C40. PUBLISH round trip: for every topic and message the command line accepts, the packet fits the 8192-byte buffer and the receiver
  reads back exactly one packet with the type and retain flag, the topic and the message, leaving the rest of
  the stream.\<close>

theorem mqtt_publish_roundtrip:
  assumes "mq_args args = Some (o', Publish r t m)"
  shows "length (publish_pkt r t m) \<le> 8192 \<and>
    (\<exists>b. read_packet 8192 (map Got (publish_pkt r t m) @ is) = Some (if r then 0x31 else 0x30, b, is) \<and> open_publish b = (t, m))"
proof -
  have l: "length t \<le> 1000" "length m \<le> 6000"
    using assms by (auto simp: mq_args_def split: list.splits option.splits if_splits prod.splits)
  let ?b = "put_str t @ m"
  have n: "length ?b = 2 + length t + length m" by (simp add: put_str_def)
  have "length (rem_len (length ?b)) \<le> Suc 1" using l n by (intro rem_len_size) simp
  then have fit: "length (publish_pkt r t m) \<le> 8192" using l n by (simp add: publish_pkt_def put_hdr_def put_str_def)
  have "read_packet 8192 (map Got (publish_pkt r t m) @ is) = Some (0x30 OR (if r then 1 else 0), ?b, is)"
    using read_sent [of ?b 8192] l n by (simp add: publish_pkt_def)
  moreover have "(0x30 OR (if r then 1 else 0) :: u8) = (if r then 0x31 else 0x30)" by simp
  ultimately show ?thesis using fit open_publish_put [of t m] l by auto
qed

theorem mqtt_publish_roundtrip_witness:
  "length (publish_pkt True (ascii ''a/b'') (ascii ''hi'')) \<le> 8192"
proof -
  have "mq_args (map ascii [''pub'', ''-r'', ''a/b'', ''hi'']) = Some (mq_default\<lparr>m_retain := True\<rparr>, Publish True (ascii ''a/b'') (ascii ''hi''))"
    by code_simp
  from mqtt_publish_roundtrip [OF this] show ?thesis by blast
qed

text \<open>A message as a broker delivers it at QoS 0.\<close>

definition delivery :: "bytes \<times> bytes \<Rightarrow> inb list" where
  "delivery tm = map Got (publish_pkt False (fst tm) (snd tm))"

definition deliverable :: "bytes \<times> bytes \<Rightarrow> bool" where
  "deliverable tm \<longleftrightarrow> length (fst tm) + length (snd tm) < 8190"

definition shown :: "(bytes \<times> bytes) list \<Rightarrow> bytes" where
  "shown tms = concat (map (\<lambda>tm. show_msg (fst tm) (snd tm)) tms)"

lemma delivery_starts: "\<exists>r. delivery tm = Got 0x30 # r"
  by (simp add: delivery_def publish_pkt_def put_hdr_def)

lemma sub_delivery:
  assumes "deliverable tm"
  shows "listen_msgs keep stops (delivery tm @ is) =
    (if terminal keep stops (fst tm) then (0, show_msg (fst tm) (snd tm))
     else (let (st, out) = listen_msgs keep stops is in (st, show_msg (fst tm) (snd tm) @ out)))"
proof -
  let ?b = "put_str (fst tm) @ snd tm"
  have b: "length ?b = 2 + length (fst tm) + length (snd tm)" by (simp add: put_str_def)
  have r: "read_packet 8192 (delivery tm @ is) = Some (0x30, ?b, is)"
    using read_sent [of ?b 8192 "0x30" "is"] assms b by (simp add: delivery_def publish_pkt_def deliverable_def)
  have o: "topic_len ?b = length (fst tm)" "take (topic_len ?b) (drop 2 ?b) = fst tm" "drop (2 + topic_len ?b) ?b = snd tm"
    using open_publish_put [of "fst tm" "snd tm"] topic_len_put [of "fst tm" "snd tm"] assms
    by (simp_all add: open_publish_def deliverable_def prod_eq_iff del: take_append drop_append)
  have h: "delivery tm @ is \<noteq> []" "hd (delivery tm @ is) \<noteq> Hush" using delivery_starts [of tm] by auto
  show ?thesis using o b
    by (subst listen_msgs.simps) (simp add: r h Let_def del: append_is_Nil_conv take_append drop_append)
qed

lemma sub_deliveries:
  "list_all (\<lambda>tm. deliverable tm \<and> \<not> terminal keep stops (fst tm)) tms \<Longrightarrow>
   listen_msgs keep stops (concat (map delivery tms) @ is) = (let (st, out) = listen_msgs keep stops is in (st, shown tms @ out))"
  by (induction tms) (simp_all add: sub_delivery shown_def case_prod_beta Let_def)

text \<open>The exit status of \<open>sub\<close> is what its caller relies on. Messages that end nothing are printed in
  order; then the first message with a stopping topic is printed and gives 0, a silence of \<open>-W\<close> seconds gives 1,
  and the end of the connection gives 2.\<close>

lemma mqtt_sub_exit:
  assumes "list_all (\<lambda>tm. deliverable tm \<and> \<not> terminal keep stops (fst tm)) tms" and "deliverable tm" and "terminal keep stops (fst tm)"
  shows "listen_msgs keep stops (concat (map delivery tms) @ delivery tm @ is) = (0, shown (tms @ [tm]))
    \<and> listen_msgs keep stops (concat (map delivery tms) @ Hush # is) = (1, shown tms)
    \<and> listen_msgs keep stops (concat (map delivery tms)) = (2, shown tms)"
proof -
  have "listen_msgs keep stops (Hush # is) = (1, [])" by (subst listen_msgs.simps) simp
  moreover have "listen_msgs keep stops [] = (2, [])" by (subst listen_msgs.simps) (simp add: read_packet_def)
  ultimately show ?thesis
    using sub_deliveries [OF assms(1)] sub_deliveries [OF assms(1), of "[]"] sub_delivery [OF assms(2)] assms(3)
    by (simp add: shown_def)
qed

text \<open>The CONNECT body is built in 512 bytes without a check of the user name and the password.\<close>

lemma connect_overflow: "512 < length (connect_body (ascii ''42'') (Some (replicate 300 0x61)) (Some (replicate 300 0x61)))"
  by (simp add: connect_body_def put_str_def ascii_def)

end
