(* ===== verification/Atw.thy ===== *)
theory Atw
  imports T4lock Libttjob
begin

text \<open>
  Dropbear's client for the transputer, \<open>staging/DROPBEAR/atwx25519.c\<close>: it asks ttjobd first, and without a daemon
  takes the T425 lock, boots the server if none answers and sends it one request over the link. The
  link driver, the clock and the rest of the system are the record \<open>atw_env\<close>, read at the counter \<open>a_tick\<close>; the
  link is live: \<open>e_byte\<close> is the endless sequence of the bytes the T425 sends, \<open>e_rd\<close> how many wait at a call, and
  \<open>a_pos\<close> how many have been read. Loops that have no bound of their own are partial functions, so that not
  returning is \<open>None\<close>. The link operations are logged with the claims of the lock. Shown: a call that returns has
  touched the link only while it held the lock, has given it back, and what it returns is an answer to its
  own request; it returns when the clock runs and the T425 falls silent at some time. The last condition is
  needed: the start-up loop of \<open>atw_boot\<close> has no deadline of its own, and a T425 that keeps sending start-up requests keeps
  it, and the lock, for ever (\<open>boot_loop_hangs\<close>).
\<close>

section \<open>The code\<close>

record atw_env =
  e_no_atw :: bool
  e_alloc :: bool
  e_fpga :: bool
  e_image :: "bytes option"
  e_wr :: "nat \<Rightarrow> int \<Rightarrow> int"
  e_rd :: "nat \<Rightarrow> nat"
  e_byte :: "nat \<Rightarrow> u8"
  e_clk :: "nat \<Rightarrow> int"
  e_cps :: int
  e_kern :: kern
  e_me :: int
  e_lib :: cenv

datatype link_ev = Claimed | Released | ResetT425 | Sent bytes int | Got bytes

record atw =
  atw_state :: int
  a_fs :: fs
  a_lib :: lib
  a_pos :: nat
  a_tick :: nat
  a_log :: "link_ev list"

definition log_ev :: "link_ev \<Rightarrow> atw \<Rightarrow> atw" where
  "log_ev e s = s\<lparr>a_log := a_log s @ [e]\<rparr>"

text \<open>The block write sends what it can: chunks of at most \<open>0x7000\<close> bytes, until 5 s pass without progress.\<close>

partial_function (option) atw_write_loop :: "atw_env \<Rightarrow> int \<Rightarrow> nat \<Rightarrow> int \<Rightarrow> int \<Rightarrow> (int \<times> nat) option" where
  "atw_write_loop env len t sent fin =
     (if sent < len then
        let n = (if 0x7000 < len - sent then 0x7000 else len - sent); r = e_wr env t n in
        if r < 0 then Some (r, Suc t)
        else if 0 < r then atw_write_loop env len (Suc t) (sent + r) (e_clk env t + 5 * e_cps env)
        else if fin < e_clk env t then Some (sent, Suc t)
        else atw_write_loop env len (Suc t) sent fin
      else Some (sent, t))"

definition atw_write :: "atw_env \<Rightarrow> bytes \<Rightarrow> atw \<Rightarrow> (int \<times> atw) option" where
  "atw_write env b s =
     map_option (\<lambda>(r, t). (r, log_ev (Sent b r) (s\<lparr>a_tick := t\<rparr>)))
       (atw_write_loop env (int (length b)) (Suc (a_tick s)) 0 (e_clk env (a_tick s) + 5 * e_cps env))"

partial_function (option) atw_read_loop :: "atw_env \<Rightarrow> nat \<Rightarrow> nat \<Rightarrow> nat \<Rightarrow> bytes \<Rightarrow> int \<Rightarrow> (bytes \<times> nat \<times> nat) option" where
  "atw_read_loop env len t pos rd fin =
     (if length rd < len then
        let k = min (e_rd env t) (len - length rd); rd = rd @ map (e_byte env) [pos..<pos + k] in
        if fin < e_clk env t then Some (rd, pos + k, Suc t)
        else atw_read_loop env len (Suc t) (pos + k) rd fin
      else Some (rd, pos, t))"

definition atw_read :: "atw_env \<Rightarrow> nat \<Rightarrow> int \<Rightarrow> atw \<Rightarrow> (bytes \<times> atw) option" where
  "atw_read env n ms s =
     map_option (\<lambda>(b, pos, t). (b, log_ev (Got b) (s\<lparr>a_pos := pos, a_tick := t\<rparr>)))
       (atw_read_loop env n (Suc (a_tick s)) (a_pos s) [] (e_clk env (a_tick s) + cdiv (ms * e_cps env) 1000))"

definition startup_reply :: "bytes \<Rightarrow> bytes" where
  "startup_reply pkt =
     (let body =
        (if pkt ! 0 = 32 \<and> 13 \<le> length pkt \<and> pkt ! 1 = 10 \<and> take 10 (drop 3 pkt) = map of_char ''IBOARDSIZE''
         then [0, 7, 0] @ map of_char ''#200000''
         else if pkt ! 0 = 32 then [129]
         else if pkt ! 0 = 40 then [0, 0, 0]
         else if pkt ! 0 = 42 then [0, 0, 0, 0, 0]
         else [1])
      in of_nat (length body) # of_nat (length body div 256) # body)"

partial_function (option) atw_boot_loop :: "atw_env \<Rightarrow> atw \<Rightarrow> (int \<times> atw) option" where
  "atw_boot_loop env s =
     Option.bind (atw_read env 2 5000 s) (\<lambda>(hd, s).
     if length hd \<noteq> 2 then Some (- 1, s)
     else if hd ! 0 = 0x52 \<and> hd ! 1 = 0x44 then
       Option.bind (atw_read env 2 2000 s) (\<lambda>(mark, s). Some (if length mark = 2 then 0 else - 1, s))
     else
       let len = unat (hd ! 0) + 256 * unat (hd ! 1) in
       if len < 1 \<or> 1024 < len then Some (- 1, s)
       else
         Option.bind (atw_read env len 2000 s) (\<lambda>(pkt, s).
         if length pkt \<noteq> len then Some (- 1, s)
         else
           Option.bind (atw_write env (startup_reply pkt) s) (\<lambda>(r, s).
           if r \<noteq> int (length (startup_reply pkt)) then Some (- 1, s) else atw_boot_loop env s)))"

definition atw_boot :: "atw_env \<Rightarrow> atw \<Rightarrow> (int \<times> atw) option" where
  "atw_boot env s =
     (if \<not> e_fpga env then Some (- 1, s)
      else case e_image env of
        None \<Rightarrow> Some (- 1, s)
      | Some img \<Rightarrow>
          Option.bind (atw_write env img (log_ev ResetT425 s)) (\<lambda>(r, s).
          if r \<noteq> int (length img) then Some (- 1, s) else atw_boot_loop env s))"

definition x_request :: "bytes \<Rightarrow> bytes \<Rightarrow> bytes" where
  "x_request n p = 0x58 # take 32 n @ take 32 p"

definition atw_request :: "atw_env \<Rightarrow> bytes \<Rightarrow> bytes \<Rightarrow> atw \<Rightarrow> (bytes option \<times> atw) option" where
  "atw_request env n p s =
     Option.bind (atw_write env (x_request n p) s) (\<lambda>(r, s).
     if r \<noteq> 65 then Some (None, s)
     else Option.bind (atw_read env 32 10000 s) (\<lambda>(out, s). Some (if length out = 32 then Some out else None, s)))"

definition v_request :: "bytes \<Rightarrow> bytes \<Rightarrow> bytes \<Rightarrow> bytes" where
  "v_request sig pub msg =
     [0x56, of_nat (length msg div 256), of_nat (length msg)] @ take 64 sig @ take 32 pub @ msg"

definition atw_verify_request :: "atw_env \<Rightarrow> bytes \<Rightarrow> bytes \<Rightarrow> bytes \<Rightarrow> atw \<Rightarrow> (int \<times> atw) option" where
  "atw_verify_request env sig pub msg s =
     (if 1024 < length msg then Some (- 1, s)
      else
        Option.bind (atw_write env (v_request sig pub msg) s) (\<lambda>(r, s).
        if r \<noteq> 99 + int (length msg) then Some (- 1, s)
        else Option.bind (atw_read env 1 20000 s) (\<lambda>(reply, s).
          Some (if length reply \<noteq> 1 then - 1 else if reply ! 0 \<noteq> 0 then 1 else 0, s))))"

definition atw_offline :: "atw_env \<Rightarrow> atw \<Rightarrow> bool \<times> atw" where
  "atw_offline env s =
     (let s = (if atw_state s = 0 \<and> (e_no_atw env \<or> \<not> e_fpga env) then s\<lparr>atw_state := - 1\<rparr> else s)
      in (atw_state s < 0, s))"

definition atw_claim :: "atw_env \<Rightarrow> atw \<Rightarrow> bool \<times> atw" where
  "atw_claim env s =
     (case t4lock_take (e_kern env) (e_me env) (a_fs s) of (f, pc) \<Rightarrow>
        if pc = TDone 1 then (True, log_ev Claimed (s\<lparr>a_fs := f\<rparr>)) else (False, s\<lparr>a_fs := f\<rparr>))"

definition atw_release :: "atw_env \<Rightarrow> atw \<Rightarrow> atw" where
  "atw_release env s = log_ev Released (s\<lparr>a_fs := t4lock_release (e_me env) (a_fs s)\<rparr>)"

definition atw_server :: string where
  "atw_server = ''xserv.btl''"

text \<open>Boot the server and try once more.\<close>

definition boot_and_retry :: "atw_env \<Rightarrow> (atw \<Rightarrow> ('a option \<times> atw) option) \<Rightarrow> atw \<Rightarrow> ('a option \<times> atw) option" where
  "boot_and_retry env request s =
     Option.bind (atw_boot env s) (\<lambda>(b, s).
     if b \<noteq> 0 then Some (None, s\<lparr>atw_state := - 1\<rparr>)
     else Option.bind (request s) (\<lambda>(r, s).
       case r of
         None \<Rightarrow> Some (None, s\<lparr>atw_state := - 1\<rparr>)
       | Some v \<Rightarrow> Some (Some v, s\<lparr>a_fs := t4_loaded_set atw_server (a_fs s), atw_state := 1\<rparr>)))"

definition probe_or_boot :: "atw_env \<Rightarrow> (atw \<Rightarrow> ('a option \<times> atw) option) \<Rightarrow> atw \<Rightarrow> ('a option \<times> atw) option" where
  "probe_or_boot env request s =
     (if t4_loaded_is atw_server (a_fs s) \<noteq> 0 then
        Option.bind (request s) (\<lambda>(r, s).
        case r of None \<Rightarrow> boot_and_retry env request s | Some v \<Rightarrow> Some (Some v, s\<lparr>atw_state := 1\<rparr>))
      else boot_and_retry env request s)"

definition atw_x25519_locked :: "atw_env \<Rightarrow> bytes \<Rightarrow> bytes \<Rightarrow> atw \<Rightarrow> (bytes option \<times> atw) option" where
  "atw_x25519_locked env n p = probe_or_boot env (atw_request env n p)"

text \<open>The daemon: \<open>None\<close> when there is none, else the output or nothing.\<close>

definition atw_via_ttjobd :: "atw_env \<Rightarrow> u8 \<Rightarrow> bytes \<Rightarrow> nat \<Rightarrow> atw \<Rightarrow> bytes option option \<times> atw" where
  "atw_via_ttjobd env op inp cap s =
     (if e_no_atw env then (Some None, s)
      else case ttjob_submit (e_lib env) op 0 inp (a_lib s) of (i, l) \<Rightarrow>
        if i < 0 then (None, s\<lparr>a_lib := l\<rparr>)
        else case ttjob_wait (e_lib env) i (int cap) 60000 l of ((st, out), l) \<Rightarrow>
          (Some (case out of Some b \<Rightarrow> if st = ST_OK \<and> length b = cap then Some b else None | None \<Rightarrow> None), s\<lparr>a_lib := l\<rparr>))"

definition atw_x25519 :: "atw_env \<Rightarrow> bytes \<Rightarrow> bytes \<Rightarrow> atw \<Rightarrow> (bytes option \<times> atw) option" where
  "atw_x25519 env n p s =
     (case atw_via_ttjobd env OP_X25519 (take 32 n @ take 32 p) 32 s of
        (Some r, s) \<Rightarrow> Some (r, s)
      | (None, s) \<Rightarrow>
          (case atw_offline env s of (off, s) \<Rightarrow>
             if off then Some (None, s)
             else case atw_claim env s of (ok, s) \<Rightarrow>
               if \<not> ok then Some (None, s)
               else Option.bind (atw_x25519_locked env n p s) (\<lambda>(r, s). Some (r, atw_release env s))))"

definition atw_ed25519_verify :: "atw_env \<Rightarrow> bytes \<Rightarrow> bytes \<Rightarrow> bytes \<Rightarrow> atw \<Rightarrow> (int \<times> atw) option" where
  "atw_ed25519_verify env sig pub msg s =
     (let (d, s) = (if 96 + int (length msg) \<le> JOB_MAX \<and> e_alloc env
            then atw_via_ttjobd env OP_ED25519V (take 64 sig @ take 32 pub @ msg) 1 s else (None, s)) in
      case d of
        Some r \<Rightarrow> Some (case r of Some v \<Rightarrow> uint (v ! 0) | None \<Rightarrow> - 1, s)
      | None \<Rightarrow>
          (case atw_offline env s of (off, s) \<Rightarrow>
             if off \<or> 1024 < length msg then Some (- 1, s)
             else case atw_claim env s of (ok, s) \<Rightarrow>
               if \<not> ok then Some (- 1, s)
               else
                 Option.bind (probe_or_boot env (\<lambda>s. map_option (\<lambda>(r, s). (if r < 0 then None else Some r, s))
                   (atw_verify_request env sig pub msg s)) s)
                 (\<lambda>(r, s). Some (case r of Some v \<Rightarrow> v | None \<Rightarrow> - 1, atw_release env s))))"


section \<open>When the loops return\<close>

definition clock_runs :: "atw_env \<Rightarrow> bool" where
  "clock_runs env \<longleftrightarrow> (\<forall>t i. \<exists>j\<ge>i. t < e_clk env j)"

text \<open>The T425 never stops sending.\<close>

definition talks_on :: "atw_env \<Rightarrow> bool" where
  "talks_on env \<longleftrightarrow> (\<forall>i. \<exists>j\<ge>i. 0 < e_rd env j)"

lemma clock_passes:
  assumes "clock_runs env"
  obtains d where "fin < e_clk env (t + d)"
  using assms unfolding clock_runs_def by (metis le_Suc_ex)

lemma atw_write_loop_returns:
  assumes "clock_runs env"
  shows "\<exists>r t'. atw_write_loop env len t sent fin = Some (r, t') \<and> t \<le> t'"
proof (induction "nat (len - sent)" arbitrary: t sent fin rule: less_induct)
  case less
  obtain d where d: "fin < e_clk env (t + d)" by (rule clock_passes [OF assms])
  have hyp: "\<exists>r t'. atw_write_loop env len (Suc t) more fin = Some (r, t') \<and> t \<le> t'"
    if "nat (len - more) < nat (len - sent)" for t more fin
    using less.hyps [OF that, of "Suc t" fin] by (meson Suc_leD)
  from d show ?case
  proof (induction d arbitrary: t)
    case 0
    then show ?case
      using hyp by (subst atw_write_loop.simps) (auto simp: Let_def)
  next
    case (Suc d)
    have "\<exists>r t'. atw_write_loop env len (Suc t) sent fin = Some (r, t') \<and> t \<le> t'"
      using Suc.IH [of "Suc t"] Suc.prems by (auto dest: Suc_leD)
    then show ?case
      using hyp by (subst atw_write_loop.simps) (auto simp: Let_def)
  qed
qed

text \<open>A read returns, and with nothing once the T425 is silent.\<close>

lemma atw_read_loop_returns:
  assumes "clock_runs env"
  shows "\<exists>b pos' t'. atw_read_loop env len t pos rd fin = Some (b, pos', t') \<and> t \<le> t' \<and>
    ((\<forall>j\<ge>t. e_rd env j = 0) \<longrightarrow> b = rd)"
proof -
  obtain d where "fin < e_clk env (t + d)" by (rule clock_passes [OF assms])
  then show ?thesis
  proof (induction d arbitrary: t pos rd)
    case 0
    then show ?case by (subst atw_read_loop.simps) (simp add: Let_def)
  next
    case (Suc d)
    define k where "k = min (e_rd env t) (len - length rd)"
    define rd' where "rd' = rd @ map (e_byte env) [pos..<pos + k]"
    obtain b pos' t' where loop: "atw_read_loop env len (Suc t) (pos + k) rd' fin = Some (b, pos', t')" "Suc t \<le> t'"
      "(\<forall>j\<ge>Suc t. e_rd env j = 0) \<longrightarrow> b = rd'"
      using Suc.IH [of "Suc t" "pos + k" rd'] Suc.prems by auto
    have "(\<forall>j\<ge>t. e_rd env j = 0) \<longrightarrow> rd' = rd" by (simp add: rd'_def k_def)
    with loop show ?case
      by (subst atw_read_loop.simps) (auto simp: Let_def simp flip: k_def rd'_def)
  qed
qed

lemma atw_write_returns:
  assumes "clock_runs env"
  obtains r s' where "atw_write env b s = Some (r, s')" "a_tick s < a_tick s'"
  using atw_write_loop_returns [OF assms, of "int (length b)" "Suc (a_tick s)" 0 "e_clk env (a_tick s) + 5 * e_cps env"]
  by (auto simp: atw_write_def log_ev_def)

lemma atw_read_returns:
  assumes "clock_runs env"
  obtains b s' where "atw_read env n ms s = Some (b, s')" "a_tick s < a_tick s'"
    "(\<forall>j\<ge>a_tick s. e_rd env j = 0) \<longrightarrow> b = []"
proof -
  obtain b pos' t' where "atw_read_loop env n (Suc (a_tick s)) (a_pos s) [] (e_clk env (a_tick s) + cdiv (ms * e_cps env) 1000)
      = Some (b, pos', t')" "Suc (a_tick s) \<le> t'" "(\<forall>j\<ge>Suc (a_tick s). e_rd env j = 0) \<longrightarrow> b = []"
    using atw_read_loop_returns [OF assms] by blast
  then show thesis
    by (intro that [of b "log_ev (Got b) (s\<lparr>a_pos := pos', a_tick := t'\<rparr>)"]) (auto simp: atw_read_def log_ev_def)
qed

text \<open>The start-up loop reads two bytes or ends, so it ends when the T425 falls silent.\<close>

lemma atw_boot_loop_returns:
  assumes clk: "clock_runs env" and "\<not> talks_on env"
  shows "atw_boot_loop env s \<noteq> None"
proof -
  obtain N where N: "\<And>j. N \<le> j \<Longrightarrow> e_rd env j = 0" using assms(2) unfolding talks_on_def by fastforce
  show ?thesis
  proof (induction "N - a_tick s" arbitrary: s rule: less_induct)
    case less
    obtain hd s1 where hd: "atw_read env 2 5000 s = Some (hd, s1)" "a_tick s < a_tick s1"
      "(\<forall>j\<ge>a_tick s. e_rd env j = 0) \<longrightarrow> hd = []"
      by (rule atw_read_returns [OF clk, of 2 5000 s])
    obtain mark s0 where mark: "atw_read env 2 2000 s1 = Some (mark, s0)" by (rule atw_read_returns [OF clk, of 2 2000 s1])
    show ?case
    proof (cases "length hd = 2")
      case True
      then have "a_tick s < N" using hd(3) N by (metis le_trans list.size(3) not_less zero_neq_numeral)
      then have again: "atw_boot_loop env s' \<noteq> None" if "a_tick s1 < a_tick s'" for s'
        using that hd(2) by (intro less.hyps) simp
      have "Option.bind (atw_read env len 2000 s1) (\<lambda>(pkt, s).
         if length pkt \<noteq> len then Some (- 1, s)
         else
           Option.bind (atw_write env (startup_reply pkt) s) (\<lambda>(r, s).
           if r \<noteq> int (length (startup_reply pkt)) then Some (- 1, s) else atw_boot_loop env s)) \<noteq> None" for len
      proof -
        obtain pkt s2 where pkt: "atw_read env len 2000 s1 = Some (pkt, s2)" "a_tick s1 < a_tick s2"
          by (rule atw_read_returns [OF clk, of len 2000 s1])
        obtain r s3 where "atw_write env (startup_reply pkt) s2 = Some (r, s3)" "a_tick s2 < a_tick s3"
          by (rule atw_write_returns [OF clk, of "startup_reply pkt" s2])
        then show ?thesis using pkt again by simp
      qed
      then show ?thesis
        using True by (subst atw_boot_loop.simps) (simp add: hd(1) mark Let_def)
    qed (subst atw_boot_loop.simps, simp add: hd(1))
  qed
qed

lemma atw_boot_returns:
  assumes "clock_runs env" and "\<not> talks_on env"
  shows "atw_boot env s \<noteq> None"
proof -
  obtain r s1 where "atw_write env (the (e_image env)) (log_ev ResetT425 s) = Some (r, s1)"
    by (rule atw_write_returns [OF assms(1), of "the (e_image env)" "log_ev ResetT425 s"])
  then show ?thesis
    using atw_boot_loop_returns [OF assms] by (auto simp: atw_boot_def split: option.splits)
qed

lemma atw_write_ne: "clock_runs env \<Longrightarrow> atw_write env b s \<noteq> None"
  by (erule atw_write_returns [of env b s]) simp

lemma atw_read_ne: "clock_runs env \<Longrightarrow> atw_read env n ms s \<noteq> None"
  by (erule atw_read_returns [of env n ms s]) simp

lemma atw_request_returns: "clock_runs env \<Longrightarrow> atw_request env n p s \<noteq> None"
  by (simp add: atw_request_def bind_eq_None_conv atw_write_ne atw_read_ne split: prod.split del: not_None_eq)

lemma atw_verify_request_returns: "clock_runs env \<Longrightarrow> atw_verify_request env sig pub msg s \<noteq> None"
  by (simp add: atw_verify_request_def bind_eq_None_conv atw_write_ne atw_read_ne split: prod.split del: not_None_eq)

text \<open>Without that it need not end: a T425 that sends requests of one byte that the code does not know, one after the other.\<close>

definition endless_startup :: "atw_env \<Rightarrow> bool" where
  "endless_startup env \<longleftrightarrow> (\<forall>t. 2 \<le> e_rd env t) \<and> (\<forall>t n. e_wr env t n = n) \<and> (\<forall>i. e_byte env i = [1, 0, 7] ! (i mod 3))"

lemma read_at_once:
  assumes "\<And>t. n \<le> e_rd env t" "0 < n"
  obtains t where "atw_read env n ms s = Some (map (e_byte env) [a_pos s..<a_pos s + n],
    log_ev (Got (map (e_byte env) [a_pos s..<a_pos s + n])) (s\<lparr>a_pos := a_pos s + n, a_tick := t\<rparr>))"
proof -
  have "\<exists>t'. atw_read_loop env n t pos [] fin = Some (map (e_byte env) [pos..<pos + n], pos + n, t')" for t pos fin
  proof -
    have "min (e_rd env t) n = n" using assms(1) [of t] by simp
    then show ?thesis
      using assms(2) by (simp add: atw_read_loop.simps [of _ _ t] atw_read_loop.simps [of _ _ "Suc t"] Let_def)
  qed
  then show thesis using that by (fastforce simp: atw_read_def)
qed

lemma write_at_once:
  assumes "\<And>t n. e_wr env t n = n" "0 < length b" "length b \<le> 0x7000"
  obtains t where "atw_write env b s = Some (int (length b), log_ev (Sent b (int (length b))) (s\<lparr>a_tick := t\<rparr>))"
  using assms
  by (auto simp: atw_write_def atw_write_loop.simps [of _ _ _ 0] atw_write_loop.simps [of _ _ _ "int (length b)"] Let_def)

lemma boot_loop_hangs:
  assumes "endless_startup env"
  shows "a_pos s mod 3 = 0 \<Longrightarrow> atw_boot_loop env s = None"
proof -
  have main: "e = env \<longrightarrow> a_pos s mod 3 \<noteq> 0" if "atw_boot_loop e s = Some y" for e s y
    using that
  proof (rule atw_boot_loop.raw_induct [rotated])
    fix f e s y
    assume IH: "\<And>e s y. f e s = Some y \<Longrightarrow> e = env \<longrightarrow> a_pos s mod 3 \<noteq> 0"
      and body: "Option.bind (atw_read e 2 5000 s) (\<lambda>(hd, s).
     if length hd \<noteq> 2 then Some (- 1, s)
     else if hd ! 0 = 0x52 \<and> hd ! 1 = 0x44 then
       Option.bind (atw_read e 2 2000 s) (\<lambda>(mark, s). Some (if length mark = 2 then 0 else - 1, s))
     else
       let len = unat (hd ! 0) + 256 * unat (hd ! 1) in
       if len < 1 \<or> 1024 < len then Some (- 1, s)
       else
         Option.bind (atw_read e len 2000 s) (\<lambda>(pkt, s).
         if length pkt \<noteq> len then Some (- 1, s)
         else
           Option.bind (atw_write e (startup_reply pkt) s) (\<lambda>(r, s).
           if r \<noteq> int (length (startup_reply pkt)) then Some (- 1, s) else f e s))) = Some y"
    show "e = env \<longrightarrow> a_pos s mod 3 \<noteq> 0"
    proof (intro impI notI)
      assume e: "e = env" and pos: "a_pos s mod 3 = 0"
      have env: "2 \<le> e_rd env t" "e_wr env t n = n" "e_byte env i = [1, 0, 7] ! (i mod 3)" for t n i
        using assms by (auto simp: endless_startup_def)
      have one: "1 \<le> e_rd env t" for t using env(1) [of t] by simp
      obtain t1 where t1: "atw_read env 2 5000 s = Some ([1, 0], log_ev (Got [1, 0]) (s\<lparr>a_pos := a_pos s + 2, a_tick := t1\<rparr>))"
        by (rule read_at_once [of 2 env 5000 s, OF env(1)])
          (use pos in \<open>simp_all add: env(3) upt_rec [of "a_pos s"] mod_Suc\<close>)
      define s1 where "s1 = log_ev (Got [1, 0]) (s\<lparr>a_pos := a_pos s + 2, a_tick := t1\<rparr>)"
      have t1: "atw_read env 2 5000 s = Some ([1, 0], s1)" unfolding s1_def by (rule t1)
      have p1: "a_pos s1 mod 3 = 2" using pos by (simp add: s1_def log_ev_def mod_Suc)
      obtain t2 where t2: "atw_read env 1 2000 s1 = Some ([7], log_ev (Got [7]) (s1\<lparr>a_pos := a_pos s1 + 1, a_tick := t2\<rparr>))"
        by (rule read_at_once [of 1 env 2000 s1, OF one]) (use p1 in \<open>simp_all add: env(3)\<close>)
      define s2 where "s2 = log_ev (Got [7]) (s1\<lparr>a_pos := a_pos s1 + 1, a_tick := t2\<rparr>)"
      have t2: "atw_read env 1 2000 s1 = Some ([7], s2)" unfolding s2_def by (rule t2)
      have p2: "a_pos s2 mod 3 = 0" using p1 by (simp add: s2_def log_ev_def mod_Suc)
      have reply: "startup_reply [7] = [1, 0, 1]" by (simp add: startup_reply_def)
      obtain t3 where t3: "atw_write env [1, 0, 1] s2 = Some (3, log_ev (Sent [1, 0, 1] 3) (s2\<lparr>a_tick := t3\<rparr>))"
        by (rule write_at_once [OF env(2), of "[1, 0, 1]" s2]) simp_all
      have "f env (log_ev (Sent [1, 0, 1] 3) (s2\<lparr>a_tick := t3\<rparr>)) = Some y"
        using body t1 t2 t3 unfolding e by (simp add: reply)
      from IH [OF this] p2 show False by (simp add: log_ev_def)
    qed
  qed
  show "a_pos s mod 3 = 0 \<Longrightarrow> atw_boot_loop env s = None" using main [of env s] by (cases "atw_boot_loop env s") auto
qed

section \<open>What a call does to the link\<close>

text \<open>The events of one call, given whether the lock is held: the link may only be used while it is.\<close>

fun held :: "bool \<Rightarrow> link_ev list \<Rightarrow> bool option" where
  "held h [] = Some h"
| "held h (Claimed # es) = (if h then None else held True es)"
| "held h (Released # es) = (if h then held False es else None)"
| "held h (_ # es) = (if h then held h es else None)"

lemma held_append [simp]: "held h (xs @ ys) = Option.bind (held h xs) (\<lambda>h. held h ys)"
  by (induction h xs rule: held.induct) auto

text \<open>One step: when it returns it has extended the log by events a holder of the lock may do, and those satisfy \<open>Q\<close>.\<close>

definition link_step :: "atw \<Rightarrow> ('a \<times> atw) option \<Rightarrow> ('a \<Rightarrow> atw \<Rightarrow> link_ev list \<Rightarrow> bool) \<Rightarrow> bool" where
  "link_step s f Q \<longleftrightarrow>
     (\<forall>r s'. f = Some (r, s') \<longrightarrow> (\<exists>evs. a_log s' = a_log s @ evs \<and> held True evs = Some True \<and> Q r s' evs))"

lemma link_step_bind:
  assumes "link_step s f Q" "\<And>r s' evs. Q r s' evs \<Longrightarrow> link_step s' (g r s') (\<lambda>r' s'' evs'. R r' s'' (evs @ evs'))"
  shows "link_step s (Option.bind f (\<lambda>(r, s). g r s)) R"
  unfolding link_step_def
proof (intro allI impI)
  fix r' s'' assume "Option.bind f (\<lambda>(r, s). g r s) = Some (r', s'')"
  then obtain r s' where f: "f = Some (r, s')" and g: "g r s' = Some (r', s'')" by (auto simp: bind_eq_Some_conv)
  obtain evs where e: "a_log s' = a_log s @ evs" "held True evs = Some True" "Q r s' evs"
    using assms(1) f unfolding link_step_def by blast
  then obtain evs' where "a_log s'' = a_log s' @ evs'" "held True evs' = Some True" "R r' s'' (evs @ evs')"
    using assms(2) g unfolding link_step_def by blast
  then show "\<exists>evs. a_log s'' = a_log s @ evs \<and> held True evs = Some True \<and> R r' s'' evs"
    using e by (intro exI [of _ "evs @ evs'"]) simp
qed

lemma link_step_return:
  assumes "Q r s' []" "a_log s' = a_log s"
  shows "link_step s (Some (r, s')) Q"
  using assms unfolding link_step_def by simp

lemma link_step_weaken:
  assumes "link_step s f Q" "\<And>r s' evs. Q r s' evs \<Longrightarrow> R r s' evs"
  shows "link_step s f R"
  using assms unfolding link_step_def by blast

lemma link_step_event:
  assumes "held True [e] = Some True" "link_step (log_ev e s) f (\<lambda>r s' evs. Q r s' (e # evs))"
  shows "link_step s f Q"
proof -
  have "held True (e # evs) = held True evs" for evs
    using assms(1) held_append [of True "[e]" evs] by simp
  then show ?thesis
    using assms(2) unfolding link_step_def log_ev_def by fastforce
qed

lemma link_step_write: "link_step s (atw_write env b s) (\<lambda>r s' evs. evs = [Sent b r])"
  by (auto simp: link_step_def atw_write_def log_ev_def)

lemma link_step_read: "link_step s (atw_read env n ms s) (\<lambda>b s' evs. evs = [Got b])"
  by (auto simp: link_step_def atw_read_def log_ev_def)

text \<open>The start-up loop, however often it goes round.\<close>

lemma boot_body_step:
  assumes again: "\<And>s. link_step s (again s) (\<lambda>b s' evs. True)"
  shows "link_step s (Option.bind (atw_read env 2 5000 s) (\<lambda>(hd, s).
     if length hd \<noteq> 2 then Some (- 1, s)
     else if hd ! 0 = 0x52 \<and> hd ! 1 = 0x44 then
       Option.bind (atw_read env 2 2000 s) (\<lambda>(mark, s). Some (if length mark = 2 then 0 else - 1, s))
     else
       let len = unat (hd ! 0) + 256 * unat (hd ! 1) in
       if len < 1 \<or> 1024 < len then Some (- 1, s)
       else
         Option.bind (atw_read env len 2000 s) (\<lambda>(pkt, s).
         if length pkt \<noteq> len then Some (- 1, s)
         else
           Option.bind (atw_write env (startup_reply pkt) s) (\<lambda>(r, s).
           if r \<noteq> int (length (startup_reply pkt)) then Some (- 1, s) else again s)))) (\<lambda>b s' evs. True)"
  unfolding Let_def
  by (rule link_step_bind [OF link_step_read])
    (auto intro!: link_step_return again link_step_bind [OF link_step_read] link_step_bind [OF link_step_write])

lemma atw_boot_loop_step: "link_step s (atw_boot_loop env s) (\<lambda>b s' evs. True)"
proof -
  have "\<exists>evs. a_log (snd y) = a_log s @ evs \<and> held True evs = Some True" if "atw_boot_loop env s = Some y" for env s y
    using that
  proof (rule atw_boot_loop.raw_induct [rotated], goal_cases)
    case (1 f env s y)
    have "link_step s (f env s) (\<lambda>b s' evs. True)" for s
      using 1(1) [of env s] by (fastforce simp: link_step_def)
    from boot_body_step [OF this, of s env] 1(2) show ?case
      unfolding link_step_def by (metis prod.collapse)
  qed
  then show ?thesis by (fastforce simp: link_step_def)
qed

lemma atw_boot_step: "link_step s (atw_boot env s) (\<lambda>b s' evs. True)"
proof -
  have "link_step s (Option.bind (atw_write env img (log_ev ResetT425 s)) (\<lambda>(r, s).
          if r \<noteq> int (length img) then Some (- 1, s) else atw_boot_loop env s)) (\<lambda>b s' evs. True)" for img
    by (rule link_step_event [OF _ link_step_bind [OF link_step_write]])
      (auto intro: atw_boot_loop_step link_step_return)
  then show ?thesis
    by (auto simp: atw_boot_def intro: link_step_return split: option.splits)
qed

section \<open>A request to the server\<close>

text \<open>
  What \<open>probe_or_boot\<close> needs of a request: it returns while the clock runs, and an answer is what was read right after
  its own bytes were sent whole.
\<close>

definition answered :: "(bytes \<Rightarrow> 'a option) \<Rightarrow> bytes \<Rightarrow> 'a \<Rightarrow> link_ev list \<Rightarrow> bool" where
  "answered decode req v evs \<longleftrightarrow>
     (\<exists>pre reply. evs = pre @ [Sent req (int (length req)), Got reply] \<and> decode reply = Some v)"

locale link_request =
  fixes env :: atw_env and request :: "atw \<Rightarrow> ('a option \<times> atw) option" and req :: bytes
    and decode :: "bytes \<Rightarrow> 'a option" and ready :: bool
  assumes request_returns: "clock_runs env \<Longrightarrow> request s \<noteq> None"
  and request_step: "ready \<Longrightarrow>
    link_step s (request s) (\<lambda>r s' evs. \<forall>v. r = Some v \<longrightarrow> answered decode req v evs)"
begin

definition good_answer :: "'a option \<Rightarrow> atw \<Rightarrow> link_ev list \<Rightarrow> bool" where
  "good_answer r s' evs \<longleftrightarrow>
     (case r of None \<Rightarrow> atw_state s' = - 1 | Some v \<Rightarrow> atw_state s' = 1 \<and> answered decode req v evs)"

lemma answered_append: "answered decode req v evs \<Longrightarrow> answered decode req v (evs0 @ evs)"
  unfolding answered_def by (metis append_assoc)

lemma good_answer_append: "good_answer r s' evs \<Longrightarrow> good_answer r s' (evs0 @ evs)"
  unfolding good_answer_def by (auto intro: answered_append split: option.splits)

lemma boot_and_retry_step:
  assumes ready
  shows "link_step s (boot_and_retry env request s) good_answer"
proof -
  have retry: "link_step s (Option.bind (request s) (\<lambda>(r, s). case r of
         None \<Rightarrow> Some (None, s\<lparr>atw_state := - 1\<rparr>)
       | Some v \<Rightarrow> Some (Some v, s\<lparr>a_fs := t4_loaded_set atw_server (a_fs s), atw_state := 1\<rparr>)))
     (\<lambda>r s' evs'. good_answer r s' (evs @ evs'))" for s evs
    by (rule link_step_bind [OF request_step [OF assms]])
      (auto simp: good_answer_def intro!: link_step_return intro: answered_append split: option.splits)
  show ?thesis
    unfolding boot_and_retry_def
    by (rule link_step_bind [OF atw_boot_step])
      (auto simp: good_answer_def [of None] intro: link_step_return retry)
qed

lemma probe_or_boot_step:
  assumes ready
  shows "link_step s (probe_or_boot env request s) good_answer"
proof -
  have "link_step s (Option.bind (request s) (\<lambda>(r, s).
        case r of None \<Rightarrow> boot_and_retry env request s | Some v \<Rightarrow> Some (Some v, s\<lparr>atw_state := 1\<rparr>))) good_answer"
    by (rule link_step_bind [OF request_step [OF assms]])
      (auto simp: good_answer_def [of "Some _"] intro!: link_step_return
         intro: link_step_weaken [OF boot_and_retry_step [OF assms]] good_answer_append answered_append
         split: option.splits)
  then show ?thesis
    using boot_and_retry_step [OF assms] by (simp add: probe_or_boot_def)
qed

text \<open>The call of a process that holds the lock, between its claim and its release.\<close>

lemma locked_call:
  assumes ready "probe_or_boot env request s = Some (r, s')"
  obtains mid where "a_log s' = a_log s @ mid" "held True mid = Some True" "good_answer r s' mid"
  using probe_or_boot_step [OF assms(1), of s] assms(2) unfolding link_step_def by blast

lemma locked_call_returns:
  assumes "clock_runs env" "\<not> talks_on env"
  shows "probe_or_boot env request s \<noteq> None"
  unfolding probe_or_boot_def boot_and_retry_def
  by (simp add: bind_eq_None_conv request_returns assms atw_boot_returns split: prod.split option.split del: not_None_eq)

end

definition decode_x :: "bytes \<Rightarrow> bytes option" where
  "decode_x b = (if length b = 32 then Some b else None)"

definition decode_v :: "bytes \<Rightarrow> int option" where
  "decode_v b = (if length b = 1 then Some (if b ! 0 \<noteq> 0 then 1 else 0) else None)"

lemma answer_read:
  "decode reply = Some v \<Longrightarrow> n = int (length req) \<Longrightarrow> answered decode req v [Sent req n, Got reply]"
  unfolding answered_def by blast

lemma length_x_request: "length n = 32 \<Longrightarrow> length p = 32 \<Longrightarrow> length (x_request n p) = 65"
  by (simp add: x_request_def)

lemma x_request_step:
  assumes "length n = 32" "length p = 32"
  shows "link_step s (atw_request env n p s)
    (\<lambda>r s' evs. \<forall>v. r = Some v \<longrightarrow> answered decode_x (x_request n p) v evs)"
  unfolding atw_request_def
  by (rule link_step_bind [OF link_step_write])
    (use assms in \<open>auto simp: length_x_request decode_x_def
       intro!: link_step_return link_step_bind [OF link_step_read] answer_read\<close>)

lemma length_v_request: "length sig = 64 \<Longrightarrow> length pub = 32 \<Longrightarrow> length (v_request sig pub msg) = 99 + length msg"
  by (simp add: v_request_def)

lemma v_request_step:
  assumes "length sig = 64" "length pub = 32"
  shows "link_step s (map_option (\<lambda>(r, s). (if r < 0 then None else Some r, s)) (atw_verify_request env sig pub msg s))
    (\<lambda>r s' evs. \<forall>v. r = Some v \<longrightarrow> answered decode_v (v_request sig pub msg) v evs)"
proof -
  have "link_step s (atw_verify_request env sig pub msg s)
     (\<lambda>r s' evs. 0 \<le> r \<longrightarrow> answered decode_v (v_request sig pub msg) r evs)"
    unfolding atw_verify_request_def
    by (cases "1024 < length msg")
      (use assms in \<open>auto simp: decode_v_def length_v_request split: if_splits
       intro!: link_step_return link_step_bind [OF link_step_write] link_step_bind [OF link_step_read]
         answer_read\<close>)
  then show ?thesis
    unfolding link_step_def by force
qed

interpretation x_req: link_request env "atw_request env n p" "x_request n p" decode_x
    "length n = 32 \<and> length p = 32" for env n p
  by unfold_locales (auto intro: x_request_step simp: atw_request_returns simp del: not_None_eq)

interpretation v_req: link_request env
    "\<lambda>s. map_option (\<lambda>(r, s). (if r < 0 then None else Some r, s)) (atw_verify_request env sig pub msg s)"
    "v_request sig pub msg" decode_v "length sig = 64 \<and> length pub = 32" for env sig pub msg
  by unfold_locales (auto intro: v_request_step simp: atw_verify_request_returns simp del: not_None_eq)

section \<open>A whole call\<close>

text \<open>
  How a call ends that ttjobd did not take: without a touch of the link, or between one claim and one release, with
  an answer to its own request or the offload switched off for good.
\<close>

definition direct_call :: "(bytes \<Rightarrow> 'a option) \<Rightarrow> bytes \<Rightarrow> atw \<Rightarrow> 'a option \<Rightarrow> atw \<Rightarrow> link_ev list \<Rightarrow> bool" where
  "direct_call decode req s r s' evs \<longleftrightarrow>
     evs = [] \<and> r = None \<or>
     0 \<le> atw_state s \<and>
     (\<exists>mid. evs = Claimed # mid @ [Released] \<and> held True mid = Some True \<and>
       (case r of None \<Rightarrow> atw_state s' = - 1 | Some v \<Rightarrow> atw_state s' = 1 \<and> answered decode req v mid))"

lemma direct_call_held: "direct_call decode req s r s' evs \<Longrightarrow> held False evs = Some False"
  unfolding direct_call_def by auto

lemma offline_step:
  assumes "atw_offline env s = (off, s1)"
  shows "a_log s1 = a_log s \<and> (\<not> off \<longrightarrow> 0 \<le> atw_state s)"
  using assms by (auto simp: atw_offline_def Let_def split: if_splits)

lemma claim_step:
  assumes "atw_claim env s = (ok, s1)"
  shows "a_log s1 = a_log s @ (if ok then [Claimed] else [])"
  using assms by (auto simp: atw_claim_def log_ev_def split: prod.splits if_splits)

lemma via_ttjobd_log: "atw_via_ttjobd env opc inp cap s = (d, s1) \<Longrightarrow> a_log s1 = a_log s \<and> atw_state s1 = atw_state s"
  by (auto simp: atw_via_ttjobd_def split: if_splits prod.splits)

lemma atw_release_step [simp]: "a_log (atw_release env s) = a_log s @ [Released]" "atw_state (atw_release env s) = atw_state s"
  by (simp_all add: atw_release_def log_ev_def)

text \<open>A system without ttjobd, a free lock, a clock that ticks and a server that has answered with the bytes \<open>x\<close>.\<close>

definition demo_atw_env :: "bytes \<Rightarrow> atw_env" where
  "demo_atw_env x = \<lparr>e_no_atw = False, e_alloc = True, e_fpga = True, e_image = None, e_wr = (\<lambda>t n. n),
     e_rd = (\<lambda>t. if t < 100 then 32 else 0), e_byte = (\<lambda>i. if i < length x then x ! i else 0), e_clk = int, e_cps = 1000, e_kern = demo_kern, e_me = 13,
     e_lib = \<lparr>c_connect = (\<lambda>t. None), c_write = (\<lambda>t. True), c_ready = (\<lambda>t m. True), c_alloc = (\<lambda>t. True)\<rparr>\<rparr>"

definition demo_atw :: atw where
  "demo_atw = \<lparr>atw_state = 0, a_fs = demo_fs\<lparr>f_lock := None\<rparr>, a_lib = lib_init, a_pos = 0, a_tick = 0, a_log = []\<rparr>"

lemma demo_clock_runs: "clock_runs (demo_atw_env x)"
proof -
  have "\<exists>j\<ge>i. t < int j" for t i
    by (rule exI [of _ "i + nat (\<bar>t\<bar> + 1)"]) linarith
  then show ?thesis by (simp add: clock_runs_def demo_atw_env_def)
qed

lemma demo_alloc: "e_alloc (demo_atw_env x)"
  by (simp add: demo_atw_env_def)

lemma demo_claimed:
  assumes "int (length inp) \<le> JOB_BIG"
  obtains s1 s3 where "atw_via_ttjobd (demo_atw_env x) opc inp cap demo_atw = (None, s1)"
    "atw_offline (demo_atw_env x) s1 = (False, s1)" "atw_claim (demo_atw_env x) s1 = (True, s3)" "a_pos s3 = 0" "a_tick s3 = 0"
    "t4_loaded_is atw_server (a_fs s3) = - 1"
proof -
  let ?s1 = "snd (atw_via_ttjobd (demo_atw_env x) opc inp cap demo_atw)"
  let ?s3 = "snd (atw_claim (demo_atw_env x) ?s1)"
  have via: "atw_via_ttjobd (demo_atw_env x) opc inp cap demo_atw = (None, ?s1)" and in1: "a_pos ?s1 = 0" "a_tick ?s1 = 0"
    and fs1: "a_fs ?s1 = demo_fs\<lparr>f_lock := None\<rparr>" and st1: "atw_state ?s1 = 0"
    using assms by (simp_all add: atw_via_ttjobd_def demo_atw_env_def demo_atw_def ttjob_submit_def ttjob_connect_def lib_init_def tock_def)
  have take: "t4lock_take demo_kern 13 (demo_fs\<lparr>f_lock := None\<rparr>) = (fresh_lock demo_kern 13 (demo_fs\<lparr>f_lock := None\<rparr>), TDone 1)"
    by (rule take_free) (simp_all add: demo_kern_def)
  have "atw_offline (demo_atw_env x) ?s1 = (False, ?s1)" using st1 by (simp add: atw_offline_def demo_atw_env_def)
  moreover have "atw_claim (demo_atw_env x) ?s1 = (True, ?s3)" "a_pos ?s3 = 0" "a_tick ?s3 = 0" "t4_loaded_is atw_server (a_fs ?s3) = - 1"
    using take fs1 in1
    by (simp_all add: atw_claim_def demo_atw_env_def log_ev_def t4_loaded_is_def fresh_lock_def demo_fs_def)
  ultimately show thesis using that via by blast
qed

lemma demo_write:
  assumes "0 < length b" "length b \<le> 0x7000"
  shows "atw_write (demo_atw_env x) b s = Some (int (length b), log_ev (Sent b (int (length b))) (s\<lparr>a_tick := a_tick s + 2\<rparr>))"
  using assms
  by (simp add: atw_write_def demo_atw_env_def atw_write_loop.simps [of _ _ _ 0] atw_write_loop.simps [of _ _ _ "int (length b)"] Let_def)

lemma demo_read:
  assumes "0 < length x" "length x \<le> 32" "a_pos s = 0" "a_tick s < 98" "1000 \<le> ms"
  shows "atw_read (demo_atw_env x) (length x) ms s = Some (x, log_ev (Got x) (s\<lparr>a_pos := length x, a_tick := a_tick s + 2\<rparr>))"
proof -
  have "1000 \<le> cdiv (ms * 1000) 1000" using assms(5) by (simp add: cdiv_def)
  moreover have "map (\<lambda>i. if i < length x then x ! i else 0) [0..<length x] = x"
    by (rule nth_equalityI) simp_all
  ultimately show ?thesis
    using assms
    by (simp add: atw_read_def demo_atw_env_def atw_read_loop.simps [of _ _ _ _ "[]"] atw_read_loop.simps [of _ _ _ _ x] Let_def min_def)
qed

text \<open>C9. A call of \<open>atw_x25519\<close> that does not return has not been taken by ttjobd, and either the clock stands still or the
  T425 sends bytes for ever. In every call that returns: if ttjobd took the job its answer is the result and the link is
  not touched. Otherwise the link is touched only between the claim of the T425 lock and its release, not at all
  once the offload is off, and a result is the 32 bytes read right after the 65 bytes of this request were sent
  whole; without one the offload is switched off.\<close>

theorem atw_x25519_link:
  assumes "length n = 32" and "length p = 32"
  shows "case atw_x25519 env n p s of
      None \<Rightarrow> fst (atw_via_ttjobd env OP_X25519 (n @ p) 32 s) = None \<and> (\<not> clock_runs env \<or> talks_on env)
    | Some (r, s') \<Rightarrow> \<exists>evs. a_log s' = a_log s @ evs \<and> held False evs = Some False \<and>
        (case fst (atw_via_ttjobd env OP_X25519 (n @ p) 32 s) of
           Some d \<Rightarrow> r = d \<and> evs = []
         | None \<Rightarrow> direct_call decode_x (x_request n p) s r s' evs)"
proof -
  obtain d s1 where via: "atw_via_ttjobd env OP_X25519 (n @ p) 32 s = (d, s1)" by fastforce
  obtain off s2 where off: "atw_offline env s1 = (off, s2)" by fastforce
  obtain ok s3 where claim: "atw_claim env s2 = (ok, s3)" by fastforce
  note steps = via_ttjobd_log [OF via] offline_step [OF off] claim_step [OF claim]
  show ?thesis
  proof (cases "d = None \<and> \<not> off \<and> ok")
    case True
    show ?thesis
    proof (cases "probe_or_boot env (atw_request env n p) s3")
      case None
      then have "\<not> clock_runs env \<or> talks_on env" using x_req.locked_call_returns by blast
      then show ?thesis using True None assms via off claim by (simp add: atw_x25519_def atw_x25519_locked_def)
    next
      case (Some rs)
      then obtain r s4 where call: "probe_or_boot env (atw_request env n p) s3 = Some (r, s4)" by (cases rs) simp
      obtain mid where "a_log s4 = a_log s3 @ mid" "held True mid = Some True" "x_req.good_answer n p r s4 mid"
        using x_req.locked_call [OF _ call] assms by blast
      then show ?thesis
        using True call assms via off claim steps
        by (auto simp: atw_x25519_def atw_x25519_locked_def direct_call_def x_req.good_answer_def split: option.splits)
    qed
  next
    case False
    then show ?thesis
      using assms via off claim steps by (auto simp: atw_x25519_def direct_call_def split: option.splits)
  qed
qed

theorem atw_x25519_link_witness:
  "\<exists>s'. atw_x25519 (demo_atw_env (replicate 32 5)) (replicate 32 9) (replicate 32 7) demo_atw = Some (Some (replicate 32 5), s') \<and>
     held False (a_log s') = Some False"
proof -
  let ?env = "demo_atw_env (replicate 32 5)"
  have n: "length (replicate 32 (9 :: u8)) = 32" "length (replicate 32 (7 :: u8)) = 32" by simp_all
  have "map_option fst (atw_x25519 ?env (replicate 32 9) (replicate 32 7) demo_atw) = Some (Some (replicate 32 5))"
    by (rule demo_claimed [of "replicate 32 9 @ replicate 32 7" "replicate 32 5" OP_X25519 32])
      (simp_all add: JOB_BIG_def atw_x25519_def atw_x25519_locked_def probe_or_boot_def atw_request_def demo_write
         demo_read [of "replicate 32 5", simplified] length_x_request log_ev_def)
  then show ?thesis
    using atw_x25519_link [OF n, where env = ?env and s = demo_atw] by (auto simp: demo_atw_def)
qed

text \<open>C31. \<open>atw_ed25519_verify\<close> likewise does not return only where ttjobd has not taken the job and the clock stands still or
  the T425 sends for ever; in every call that returns it has used the link only between the claim of the lock
  and its release, and says valid or invalid only from one byte read right after this request was sent whole,
  or from ttjobd; a message over 1024 bytes is never sent to the link.\<close>

theorem atw_verify_link:
  assumes "length sig = 64" and "length pub = 32"
  shows "case atw_ed25519_verify env sig pub msg s of
      None \<Rightarrow> (96 + int (length msg) \<le> JOB_MAX \<and> e_alloc env \<longrightarrow>
          fst (atw_via_ttjobd env OP_ED25519V (sig @ pub @ msg) 1 s) = None) \<and> (\<not> clock_runs env \<or> talks_on env)
    | Some (r, s') \<Rightarrow> \<exists>evs. a_log s' = a_log s @ evs \<and> held False evs = Some False \<and>
        (case if 96 + int (length msg) \<le> JOB_MAX \<and> e_alloc env
              then fst (atw_via_ttjobd env OP_ED25519V (sig @ pub @ msg) 1 s) else None of
           Some d \<Rightarrow> r = (case d of Some v \<Rightarrow> uint (v ! 0) | None \<Rightarrow> - 1) \<and> evs = []
         | None \<Rightarrow> direct_call decode_v (v_request sig pub msg) s (if r < 0 then None else Some r) s' evs \<and>
             (evs = [] \<or> length msg \<le> 1024))"
proof -
  let ?f = "\<lambda>s. map_option (\<lambda>(r, s). (if r < 0 then None else Some r, s)) (atw_verify_request env sig pub msg s)"
  obtain d s1 where via: "(if 96 + int (length msg) \<le> JOB_MAX \<and> e_alloc env
      then atw_via_ttjobd env OP_ED25519V (sig @ pub @ msg) 1 s else (None, s)) = (d, s1)" by fastforce
  have d: "(if 96 + int (length msg) \<le> JOB_MAX \<and> e_alloc env
      then fst (atw_via_ttjobd env OP_ED25519V (sig @ pub @ msg) 1 s) else None) = d"
    and via_log: "a_log s1 = a_log s \<and> atw_state s1 = atw_state s"
    using via via_ttjobd_log by (auto split: if_splits)
  obtain off s2 where off: "atw_offline env s1 = (off, s2)" by fastforce
  obtain ok s3 where claim: "atw_claim env s2 = (ok, s3)" by fastforce
  have taken: "take 64 sig @ take 32 pub @ msg = sig @ pub @ msg" using assms by simp
  have whole: "atw_ed25519_verify env sig pub msg s = (case d of
      Some e \<Rightarrow> Some (case e of Some v \<Rightarrow> uint (v ! 0) | None \<Rightarrow> - 1, s1)
    | None \<Rightarrow> (if off \<or> 1024 < length msg then Some (- 1, s2) else if \<not> ok then Some (- 1, s3)
        else Option.bind (probe_or_boot env ?f s3) (\<lambda>(r, s). Some (case r of Some v \<Rightarrow> v | None \<Rightarrow> - 1, atw_release env s))))"
    unfolding atw_ed25519_verify_def Let_def taken via by (cases d) (simp_all add: off claim)
  note logs = via_log offline_step [OF off] claim_step [OF claim]
  show ?thesis
  proof (cases "d = None \<and> \<not> off \<and> length msg \<le> 1024 \<and> ok")
    case True
    show ?thesis
    proof (cases "probe_or_boot env ?f s3")
      case None
      then have "\<not> clock_runs env \<or> talks_on env" using v_req.locked_call_returns by blast
      then show ?thesis using True None d unfolding whole by (auto split: if_splits)
    next
      case (Some rs)
      then obtain r s4 where call: "probe_or_boot env ?f s3 = Some (r, s4)" by (cases rs) simp
      obtain mid where mid: "a_log s4 = a_log s3 @ mid" "held True mid = Some True" "v_req.good_answer sig pub msg r s4 mid"
        using v_req.locked_call [OF _ call] assms by blast
      have ans: "(if (case r of Some v \<Rightarrow> v | None \<Rightarrow> - 1) < 0 then None else Some (case r of Some v \<Rightarrow> v | None \<Rightarrow> - 1)) = r"
        using mid(3) by (auto simp: v_req.good_answer_def answered_def decode_v_def split: option.splits if_splits)
      have direct: "direct_call decode_v (v_request sig pub msg) s r (atw_release env s4) (Claimed # mid @ [Released])"
        using True logs mid by (auto simp: direct_call_def v_req.good_answer_def split: option.splits)
      have log: "a_log (atw_release env s4) = a_log s @ Claimed # mid @ [Released]" using True logs mid by simp
      show ?thesis
        using True call direct direct_call_held [OF direct] log unfolding whole d
        by (auto simp: ans intro!: exI [of _ "Claimed # mid @ [Released]"])
    qed
  next
    case False
    then show ?thesis
      using logs unfolding whole d by (auto simp: direct_call_def split: option.splits)
  qed
qed

theorem atw_verify_link_witness:
  "\<exists>s'. atw_ed25519_verify (demo_atw_env [1]) (replicate 64 9) (replicate 32 7) [1, 2, 3] demo_atw = Some (1, s') \<and>
     held False (a_log s') = Some False"
proof -
  let ?env = "demo_atw_env [1]"
  have n: "length (replicate 64 (9 :: u8)) = 64" "length (replicate 32 (7 :: u8)) = 32" by simp_all
  have "map_option fst (atw_ed25519_verify ?env (replicate 64 9) (replicate 32 7) [1, 2, 3] demo_atw) = Some 1"
    by (rule demo_claimed [of "replicate 64 9 @ replicate 32 7 @ [1, 2, 3]" "[1]" OP_ED25519V 1])
      (simp_all add: JOB_BIG_def JOB_MAX_def atw_ed25519_verify_def probe_or_boot_def atw_verify_request_def demo_write
         demo_read [of "[1]", simplified] length_v_request log_ev_def demo_alloc)
  then show ?thesis
    using atw_verify_link [OF n, where env = ?env and msg = "[1, 2, 3]" and s = demo_atw] by (auto simp: demo_atw_def)
qed

end
