(* ===== verification/Xserv.thy ===== *)
theory Xserv
  imports Atw Jobexec
begin

text \<open>
  The server on the T425, \<open>x25519bench/xserv.c\<close> and its successor \<open>x25519bench/ed25519/xserv2.c\<close>. A channel is the
  list of the bytes still to be read: one round of the server's loop takes its request from it and gives the reply
  and the rest, or nothing when it waits for bytes that are not there, and the run on an input is all it sends. Shown:
  it answers a client's requests one by one, with the answers ttjobd's nodes give to the same jobs.
\<close>

section \<open>The code\<close>

definition link_in :: "nat \<Rightarrow> bytes \<Rightarrow> (bytes \<times> bytes) option" where
  "link_in n inp = (if length inp < n then None else Some (take n inp, drop n inp))"

definition clamp :: "bytes \<Rightarrow> bytes" where
  "clamp e = (let e = e[0 := e ! 0 AND 248]; e = e[31 := e ! 31 AND 127] in e[31 := e ! 31 OR 64])"

definition ready :: bytes where
  "ready = map of_char ''RDY0''"

definition xserv_round :: "bytes \<Rightarrow> (bytes \<times> bytes) option" where
  "xserv_round inp =
     Option.bind (link_in 64 inp) (\<lambda>(req, inp).
     let e = clamp (take 32 req); out = c25519_smult (drop 32 req) e in Some (f25519_normalize out, inp))"

lemma xserv_round_shorter: "xserv_round inp = Some (out, rest) \<Longrightarrow> length rest < length inp"
  by (auto simp: xserv_round_def link_in_def Let_def Option.bind_eq_Some_conv split: if_splits)

function xserv_loop :: "bytes \<Rightarrow> bytes" where
  "xserv_loop inp = (case xserv_round inp of None \<Rightarrow> [] | Some (out, rest) \<Rightarrow> out @ xserv_loop rest)"
  by pat_completeness auto
termination by (relation "measure length") (auto dest: xserv_round_shorter)

declare xserv_loop.simps [simp del]

definition xserv_main :: "bytes \<Rightarrow> bytes" where
  "xserv_main inp = ready @ xserv_loop inp"

definition xserv2_round :: "bytes \<Rightarrow> (bytes \<times> bytes) option" where
  "xserv2_round inp =
     Option.bind (link_in 1 inp) (\<lambda>(opc, inp).
     if opc ! 0 = 0x58 then
       Option.bind (link_in 64 inp) (\<lambda>(xreq, inp).
       let e = clamp (take 32 xreq); out = c25519_smult (drop 32 xreq) e in Some (f25519_normalize out, inp))
     else if opc ! 0 = 0x56 then
       Option.bind (link_in 2 inp) (\<lambda>(vhdr, inp).
       let n = 256 * unat (vhdr ! 0) + unat (vhdr ! 1); n = (if 1024 < n then 0 else n) in
       Option.bind (link_in 64 inp) (\<lambda>(sig, inp).
       Option.bind (link_in 32 inp) (\<lambda>(pub, inp).
       Option.bind (link_in n inp) (\<lambda>(msg, inp).
       Option.bind (edsign_verify pair_ops sig pub msg) (\<lambda>v. Some ([if v \<noteq> 0 then 1 else 0], inp))))))
     else Some ([], inp))"

lemma xserv2_round_shorter: "xserv2_round inp = Some (out, rest) \<Longrightarrow> length rest < length inp"
  by (auto simp: xserv2_round_def link_in_def Let_def Option.bind_eq_Some_conv split: if_splits)

text \<open>All the server sends for an input, before it waits for more.\<close>

function xserv2_loop :: "bytes \<Rightarrow> bytes" where
  "xserv2_loop inp = (case xserv2_round inp of None \<Rightarrow> [] | Some (out, rest) \<Rightarrow> out @ xserv2_loop rest)"
  by pat_completeness auto
termination by (relation "measure length") (auto dest: xserv2_round_shorter)

declare xserv2_loop.simps [simp del]

definition xserv2_main :: "bytes \<Rightarrow> bytes" where
  "xserv2_main inp = ready @ xserv2_loop inp"

section \<open>Requests and answers\<close>

text \<open>The two calls a client makes, the bytes it sends for one, and the job it would give to ttjobd instead.\<close>

datatype call = CallX bytes bytes | CallV bytes bytes bytes

fun call_ok :: "call \<Rightarrow> bool" where
  "call_ok (CallX n p) \<longleftrightarrow> length n = 32 \<and> length p = 32"
| "call_ok (CallV sig pub msg) \<longleftrightarrow> length sig = 64 \<and> length pub = 32 \<and> length msg \<le> 1024"

fun request_of :: "call \<Rightarrow> bytes" where
  "request_of (CallX n p) = x_request n p"
| "request_of (CallV sig pub msg) = v_request sig pub msg"

fun job_of :: "call \<Rightarrow> u8 \<times> bytes" where
  "job_of (CallX n p) = (OP_X25519, n @ p)"
| "job_of (CallV sig pub msg) = (OP_ED25519V, sig @ pub @ msg)"

fun answer_size :: "call \<Rightarrow> nat" where
  "answer_size (CallX n p) = 32"
| "answer_size (CallV sig pub msg) = 1"

definition node_answer :: "cfg \<Rightarrow> kernels \<Rightarrow> heap_report \<Rightarrow> call \<Rightarrow> (u8 + bytes) option" where
  "node_answer c k r call = job_exec c k r (fst (job_of call)) 0 (snd (job_of call)) 32"

lemma clamp_prepare: "clamp e = c25519_prepare e"
  by (simp add: clamp_def c25519_prepare_def Let_def)

lemma link_in_append: "length a = n \<Longrightarrow> link_in n (a @ b) = Some (a, b)"
  by (simp add: link_in_def)

lemma link_in_cons: "link_in (Suc 0) (x # b) = Some ([x], b)"
  by (simp add: link_in_def)

text \<open>The first server: one answer for each 64 bytes, whatever they are.\<close>

lemma xserv_answers:
  "list_all (\<lambda>req. length req = 64) reqs \<Longrightarrow> xserv_main (concat reqs) = ready @ concat (map x25519_job reqs)"
proof (induction reqs)
  case Nil
  then show ?case by (simp add: xserv_main_def xserv_loop.simps xserv_round_def link_in_def)
next
  case (Cons req reqs)
  then have "xserv_round (req @ concat reqs) = Some (x25519_job req, concat reqs)"
    by (simp add: xserv_round_def link_in_append x25519_job_def clamp_prepare Let_def)
  with Cons show ?case by (simp add: xserv_main_def xserv_loop.simps [of "req @ _"])
qed

lemma x_round:
  assumes "length n = 32" "length p = 32"
  shows "xserv2_round (x_request n p @ rest) = Some (x25519_job (n @ p), rest)"
proof -
  have "link_in 64 (n @ p @ rest) = Some (n @ p, rest)"
    using assms link_in_append [of "n @ p" 64 rest] by simp
  then show ?thesis
    using assms by (simp add: xserv2_round_def x_request_def link_in_cons x25519_job_def clamp_prepare Let_def)
qed

lemma builds_agree:
  assumes "length sig = 64" "length pub = 32" "length m \<le> 1024"
  shows "edsign_verify pair_ops sig pub m = edsign_verify native_ops sig pub m"
proof -
  have m: "length m < 2 ^ 32 - 64" using assms(3) by simp
  obtain z where n: "fprime_from_bytes (fips_sha512 (take 32 sig @ pub @ m)) ed25519_order = Some z"
    "edsign_verify native_ops sig pub m = Some (if snd (upp pub) = 1 \<and> snd (upp (take 32 sig)) = 1 \<and>
        eqp (bval (sm_pack (drop 32 sig))) (bval (pp (ed25519_add (ed25519_smult (fst (upp pub)) z) (fst (upp (take 32 sig))))))
      then 1 else 0)"
    by (rule native.verify_val [OF assms(1,2) m])
  obtain z' where p: "fprime_from_bytes (fips_sha512 (take 32 sig @ pub @ m)) ed25519_order = Some z'"
    "edsign_verify pair_ops sig pub m = Some (if snd (upp pub) = 1 \<and> snd (upp (take 32 sig)) = 1 \<and>
        eqp (bval (sm_pack (drop 32 sig))) (bval (pp (ed25519_add (ed25519_smult (fst (upp pub)) z') (fst (upp (take 32 sig))))))
      then 1 else 0)"
    by (rule pair.verify_val [OF assms(1,2) m])
  have "z' = z" using n(1) p(1) by simp
  with n(2) p(2) show ?thesis by simp
qed

lemma length_bytes: "length msg \<le> 1024 \<Longrightarrow>
  256 * unat (of_nat (length msg div 256) :: u8) + unat (of_nat (length msg) :: u8) = length msg"
  by (simp add: unat_of_nat take_bit_eq_mod)

lemma v_round:
  assumes "length sig = 64" "length pub = 32" "length msg \<le> 1024"
    and "edsign_verify native_ops sig pub msg = Some v"
  shows "xserv2_round (v_request sig pub msg @ rest) = Some ([if v \<noteq> 0 then 1 else 0], rest)"
proof -
  let ?h = "[of_nat (length msg div 256), of_nat (length msg)] :: bytes"
  have "link_in 2 (?h @ sig @ pub @ msg @ rest) = Some (?h, sig @ pub @ msg @ rest)"
    by (rule link_in_append) simp
  then show ?thesis
    using assms builds_agree [OF assms(1-3)]
    by (simp add: xserv2_round_def v_request_def link_in_cons link_in_append length_bytes Let_def)
qed

lemma call_round:
  assumes "call_ok call"
  obtains ans where "xserv2_round (request_of call @ rest) = Some (ans, rest)" "node_answer c k r call = Some (Inr ans)"
    "length ans = answer_size call"
proof (cases call)
  case (CallX n p)
  then have n: "length n = 32" "length p = 32" using assms by simp_all
  show ?thesis
    by (rule that [of "x25519_job (n @ p)"])
      (simp_all add: CallX n x_round node_answer_def job_exec_def wire_ops guarded_def x25519_job_def)
next
  case (CallV sig pub msg)
  then have n: "length sig = 64" "length pub = 32" "length msg \<le> 1024" using assms by simp_all
  obtain v where v: "edsign_verify native_ops sig pub msg = Some v" using edsign_verify_total by blast
  show ?thesis
    by (rule that [of "[if v \<noteq> 0 then 1 else 0]"])
      (simp_all add: CallV n v v_round [OF n v] node_answer_def job_exec_def wire_ops Let_def)
qed

text \<open>C26. The server answers a stream of requests in order, each with the bytes a node of ttjobd's network computes for
  the same job (so a client may use either), 32 for an X25519 call and one for a check, and leaves what follows
  them on the channel for the next round.\<close>

theorem xserv2_serves:
  assumes "list_all call_ok calls"
  shows "\<exists>answers. xserv2_main (concat (map request_of calls) @ rest) = ready @ concat answers @ xserv2_loop rest \<and>
    map (node_answer c k r) calls = map (Some \<circ> Inr) answers \<and>
    map length answers = map answer_size calls"
  using assms
proof (induction calls)
  case (Cons call calls)
  then obtain answers where ih:
    "xserv2_main (concat (map request_of calls) @ rest) = ready @ concat answers @ xserv2_loop rest"
    "map (node_answer c k r) calls = map (Some \<circ> Inr) answers"
    "map length answers = map answer_size calls" by auto
  obtain ans where "xserv2_round (request_of call @ concat (map request_of calls) @ rest) =
      Some (ans, concat (map request_of calls) @ rest)" "node_answer c k r call = Some (Inr ans)"
    "length ans = answer_size call"
    using Cons.prems call_round [where call = call and c = c and k = k and r = r
        and rest = "concat (map request_of calls) @ rest"] by auto
  then show ?case
    using ih by (intro exI [of _ "ans # answers"])
      (simp add: xserv2_main_def xserv2_loop.simps [of "request_of call @ _"])
qed (simp add: xserv2_main_def)

theorem xserv2_serves_witness:
  "\<exists>ans. xserv2_main (x_request (replicate 32 1) f25519_one) = ready @ ans \<and> length ans = 32"
proof -
  have "call_ok (CallX (replicate 32 1) f25519_one)" by simp
  then have a: "\<exists>ans. xserv2_main (x_request (replicate 32 1) f25519_one) = ready @ ans @ xserv2_loop [] \<and> length ans = 32"
    using xserv2_serves [of "[CallX (replicate 32 1) f25519_one]" "[]" demo_cfg demo_kernels demo_report] by auto
  have "xserv2_loop [] = []" by (simp add: xserv2_loop.simps xserv2_round_def link_in_def)
  then show ?thesis using a by auto
qed

text \<open>A check of more than 1024 bytes is taken for one of no bytes, and its message is then read as requests.\<close>

lemma oversize_desynchronizes:
  assumes "length sig = 64" "length pub = 32" "1024 < length msg" "length msg < 65536"
  shows "\<exists>ans. xserv2_round (v_request sig pub msg @ rest) = Some (ans, msg @ rest)"
proof -
  let ?h = "[of_nat (length msg div 256), of_nat (length msg)] :: bytes"
  obtain v where v: "edsign_verify pair_ops sig pub [] = Some v" using edsign_verify_total by blast
  have "link_in 2 (?h @ sig @ pub @ msg @ rest) = Some (?h, sig @ pub @ msg @ rest)"
    by (rule link_in_append) simp
  moreover have "256 * unat (of_nat (length msg div 256) :: u8) + unat (of_nat (length msg) :: u8) = length msg"
    using assms(4) by (simp add: unat_of_nat take_bit_eq_mod less_mult_imp_div_less)
  ultimately show ?thesis
    using assms v by (simp add: xserv2_round_def v_request_def link_in_cons link_in_append link_in_def [of 0] Let_def)
qed

end
