(* ===== verification/Pngenc.thy ===== *)
theory Pngenc
  imports Prelude
begin

text \<open>
  The PNG encoder of the picture kernels, \<open>sam-yum-tt/src/pngenc.c\<close>, and \<open>pngserv.c\<close> that offers it as a kernel. The output
  buffer is a list of bytes that \<open>blit\<close> writes to, so the overlap of the compressed stream with the chunks laid over it is
  in the model. zlib is a parameter: the three calls of \<open>deflate\<close> as functions on a state of its own, and \<open>crc32\<close>.
  Arithmetic on sizes wraps as a 32-bit \<open>long\<close>. Shown: a reader written from the PNG specification, which shares no
  definition with the encoder, gets back the picture from the file, which stays inside its buffer, and the filter chosen
  for a row is the cheapest.
\<close>

section \<open>The code\<close>

definition long32 :: "int \<Rightarrow> int" where
  "long32 x = sint (word_of_int x :: u32)"

definition is_blank :: "u8 \<Rightarrow> bool" where
  "is_blank c \<longleftrightarrow> c \<in> {0x20, 0x09, 0x0a, 0x0d}"

definition is_num :: "u8 \<Rightarrow> bool" where
  "is_num c \<longleftrightarrow> 0x30 \<le> c \<and> c \<le> 0x39"

fun pe_digits :: "int \<Rightarrow> bytes \<Rightarrow> int \<times> bytes" where
  "pe_digits v [] = (v, [])"
| "pe_digits v (c # cs) = (if is_num c \<and> v < 100000 then pe_digits (v * 10 + (uint c - 48)) cs else (v, c # cs))"

definition pe_field :: "bytes \<Rightarrow> (int \<times> bytes) option" where
  "pe_field s = (let s = dropWhile is_blank s in if s = [] \<or> \<not> is_num (hd s) then None else Some (pe_digits 0 s))"

text \<open>Width, height, channels and the offset of the first pixel.\<close>

definition pe_header :: "bytes \<Rightarrow> (int \<times> int \<times> nat \<times> nat) option" where
  "pe_header p =
     (if length p < 11 \<or> p ! 0 \<noteq> 0x50 \<or> (p ! 1 \<noteq> 0x35 \<and> p ! 1 \<noteq> 0x36) then None
      else
        Option.bind (pe_field (drop 2 p)) (\<lambda>(w, s).
        Option.bind (pe_field s) (\<lambda>(h, s).
        Option.bind (pe_field s) (\<lambda>(maxval, s).
        let pos = length p - length s; ch = (if p ! 1 = 0x36 then 3 else 1) in
        if w < 1 \<or> h < 1 \<or> maxval < 1 \<or> 255 < maxval \<or> int (length p) - (int pos + 1) \<noteq> long32 (w * h * int ch) then None
        else Some (w, h, ch, pos + 1)))))"

definition PE_IDAT :: nat where
  "PE_IDAT = 8192"

definition pe_zbound :: "int \<Rightarrow> int" where
  "pe_zbound raw = long32 (raw + cdiv raw 1000 + 64)"

definition pe_frame :: "int \<Rightarrow> int" where
  "pe_frame zb = 12 * (cdiv zb (int PE_IDAT) + 2)"

definition pe_cap :: "bytes \<Rightarrow> int" where
  "pe_cap pnm = (case pe_header pnm of
     None \<Rightarrow> - 1
   | Some (w, h, ch, off) \<Rightarrow>
       let zb = pe_zbound (long32 ((w * int ch + 1) * h)) in long32 (8 + 25 + pe_frame zb + zb + 12))"

text \<open>The chunk whose data already lies at \<open>p + 8\<close>.\<close>

definition pe_chunk :: "(bytes \<Rightarrow> u32) \<Rightarrow> bytes \<Rightarrow> nat \<Rightarrow> bytes \<Rightarrow> nat \<Rightarrow> bytes \<times> nat" where
  "pe_chunk crc32 out p t len =
     (let out = blit out p (be4 (of_nat len));
          out = blit out (p + 4) t;
          crc = crc32 (take (len + 4) (drop (p + 4) out))
      in (blit out (p + 8 + len) (be4 crc), p + 8 + len + 4))"

definition paeth :: "int \<Rightarrow> int \<Rightarrow> int \<Rightarrow> int" where
  "paeth a b c =
     (let p = a + b - c; pa = \<bar>p - a\<bar>; pb = \<bar>p - b\<bar>; pc = \<bar>p - c\<bar>
      in if pa \<le> pb \<and> pa \<le> pc then a else if pb \<le> pc then b else c)"

definition predictor :: "nat \<Rightarrow> int \<Rightarrow> int \<Rightarrow> int \<Rightarrow> int" where
  "predictor f a b c = (if f = 0 then 0 else if f = 1 then a else if f = 2 then b else if f = 3 then (a + b) div 2 else paeth a b c)"

definition left_of :: "nat \<Rightarrow> bytes \<Rightarrow> nat \<Rightarrow> int" where
  "left_of bpp row i = (if bpp \<le> i then uint (row ! (i - bpp)) else 0)"

definition above :: "bytes option \<Rightarrow> nat \<Rightarrow> int" where
  "above prev i = (case prev of None \<Rightarrow> 0 | Some p \<Rightarrow> uint (p ! i))"

definition above_left :: "nat \<Rightarrow> bytes option \<Rightarrow> nat \<Rightarrow> int" where
  "above_left bpp prev i = (case prev of None \<Rightarrow> 0 | Some p \<Rightarrow> left_of bpp p i)"

definition filter_row :: "nat \<Rightarrow> bytes \<Rightarrow> bytes option \<Rightarrow> nat \<Rightarrow> bytes" where
  "filter_row f row prev bpp =
     of_nat f # map (\<lambda>i. row ! i - of_int (predictor f (left_of bpp row i) (above prev i) (above_left bpp prev i))) [0..<length row]"

definition row_cost :: "bytes \<Rightarrow> nat" where
  "row_cost xs = sum_list (map (\<lambda>x. if x < 128 then unat x else 256 - unat x) (tl xs))"

definition pe_filter :: "bytes \<Rightarrow> bytes option \<Rightarrow> nat \<Rightarrow> bytes" where
  "pe_filter row prev bpp =
     fst (foldl (\<lambda>(best, bestsum) f. let tmp = filter_row f row prev bpp; sum = row_cost tmp in
                  if sum < bestsum then (tmp, sum) else (best, bestsum))
       (filter_row 0 row prev bpp, row_cost (filter_row 0 row prev bpp)) [1, 2, 3, 4])"

text \<open>What the code uses of zlib: \<open>deflateInit2\<close> with the room for the stream, one row given to \<open>deflate\<close> (nothing when it
  is not taken whole), and the stream when it ends.\<close>

record 's deflater =
  z_init :: "int \<Rightarrow> int \<Rightarrow> 's option"
  z_feed :: "'s \<Rightarrow> bytes \<Rightarrow> 's option"
  z_finish :: "'s \<Rightarrow> bytes option"

fun feed_rows :: "'s deflater \<Rightarrow> 's \<Rightarrow> bytes list \<Rightarrow> 's option" where
  "feed_rows zl s [] = Some s"
| "feed_rows zl s (r # rs) = Option.bind (z_feed zl s r) (\<lambda>s. feed_rows zl s rs)"

definition png_row :: "bytes \<Rightarrow> nat \<Rightarrow> nat \<Rightarrow> nat \<Rightarrow> bytes" where
  "png_row pnm off len y = take len (drop (off + y * len) pnm)"

definition png_rows :: "bytes \<Rightarrow> nat \<Rightarrow> nat \<Rightarrow> nat \<Rightarrow> nat \<Rightarrow> bytes list" where
  "png_rows pnm off len h bpp =
     map (\<lambda>y. pe_filter (png_row pnm off len y) (if y = 0 then None else Some (png_row pnm off len (y - 1))) bpp) [0..<h]"

text \<open>The chunks of 8192 bytes, laid over the stream at \<open>z\<close> from the front.\<close>

function idat_loop :: "(bytes \<Rightarrow> u32) \<Rightarrow> bytes \<Rightarrow> nat \<Rightarrow> nat \<Rightarrow> nat \<Rightarrow> nat \<Rightarrow> bytes \<times> nat" where
  "idat_loop crc32 out p z zlen k =
     (if k < zlen then
        let c = (if zlen - k < PE_IDAT then zlen - k else PE_IDAT);
            out = blit out (p + 8) (take c (drop (z + k) out));
            (out, p) = pe_chunk crc32 out p (map of_char ''IDAT'') c
        in idat_loop crc32 out p z zlen (k + PE_IDAT)
      else (out, p))"
  by pat_completeness auto
termination by (relation "measure (\<lambda>(crc32, out, p, z, zlen, k). zlen - k)") (auto simp: PE_IDAT_def)

declare idat_loop.simps [simp del]

definition png_signature :: bytes where
  "png_signature = 137 # map of_char ''PNG'' @ [13, 10, 26, 10]"

definition pe_encode ::
    "'s deflater \<Rightarrow> (bytes \<Rightarrow> u32) \<Rightarrow> bool \<Rightarrow> bytes \<Rightarrow> int \<Rightarrow> bytes \<Rightarrow> (nat \<times> bytes) option" where
  "pe_encode zl crc32 mem_ok pnm level out =
     (case pe_header pnm of
        None \<Rightarrow> None
      | Some (w, h, ch, off) \<Rightarrow>
          if level < 0 \<or> 9 < level \<or> int (length out) < pe_cap pnm \<or> \<not> mem_ok then None
          else
            let len = nat w * ch; cap = int (length out);
                out = blit out 0 png_signature;
                out = blit out 16 (be4 (word_of_int w));
                out = blit out 20 (be4 (word_of_int h));
                out = blit out 24 [8, if ch = 3 then 2 else 0, 0, 0, 0];
                (out, p) = pe_chunk crc32 out 8 (map of_char ''IHDR'') 13;
                z = p + nat (pe_frame (pe_zbound (long32 ((int len + 1) * h))))
            in Option.bind (z_init zl level (cap - int z)) (\<lambda>s.
               Option.bind (feed_rows zl s (png_rows pnm off len (nat h) ch)) (\<lambda>s.
               Option.bind (z_finish zl s) (\<lambda>stream.
               let out = blit out z stream;
                   (out, p) = idat_loop crc32 out p z (length stream) 0;
                   (out, p) = pe_chunk crc32 out p (map of_char ''IEND'') 0
               in Some (p, out)))))"

definition pngserv_kernel :: "'s deflater \<Rightarrow> (bytes \<Rightarrow> u32) \<Rightarrow> bool \<Rightarrow> u8 \<Rightarrow> int \<Rightarrow> bytes \<Rightarrow> bytes \<Rightarrow> (nat \<times> bytes) option" where
  "pngserv_kernel zl crc32 mem_ok opc level inp out =
     (if opc \<noteq> of_char CHR ''p'' then None else pe_encode zl crc32 mem_ok inp level out)"

definition pngserv_out_cap :: "u8 \<Rightarrow> int \<Rightarrow> bytes \<Rightarrow> int" where
  "pngserv_out_cap opc level inp = (if opc \<noteq> of_char CHR ''p'' \<or> level < 0 \<or> 9 < level then 0 else pe_cap inp)"

section \<open>A reader of PNG files\<close>

definition be_read :: "bytes \<Rightarrow> nat" where
  "be_read = foldl (\<lambda>a b. 256 * a + unat b) 0"

function read_chunks :: "(bytes \<Rightarrow> u32) \<Rightarrow> bytes \<Rightarrow> (bytes \<times> bytes) list option" where
  "read_chunks crc32 b =
     (if b = [] then Some []
      else
        let n = be_read (take 4 b); t = take 4 (drop 4 b); d = take n (drop 8 b) in
        if length b < 12 + n \<or> be_read (take 4 (drop (8 + n) b)) \<noteq> unat (crc32 (t @ d)) then None
        else map_option (\<lambda>cs. (t, d) # cs) (read_chunks crc32 (drop (12 + n) b)))"
  by pat_completeness auto
termination by (relation "measure (\<lambda>(crc32, b). length b)") auto

declare read_chunks.simps [simp del]

text \<open>
  Section 9 of the PNG specification, on bytes. \<open>a\<close> is the byte to the left, \<open>b\<close> the one above, \<open>c\<close> the one above that to
  the left; outside the picture a byte is 0. Paeth's predictor is the neighbour nearest to \<open>a + b - c\<close>, the first in
  this order where two are as near.
\<close>

definition png_paeth :: "u8 \<Rightarrow> u8 \<Rightarrow> u8 \<Rightarrow> u8" where
  "png_paeth a b c = arg_min_list (\<lambda>x. \<bar>uint a + uint b - uint c - uint x\<bar>) [a, b, c]"

definition png_predict :: "nat \<Rightarrow> u8 \<Rightarrow> u8 \<Rightarrow> u8 \<Rightarrow> u8" where
  "png_predict f a b c = [0, a, b, of_nat ((unat a + unat b) div 2), png_paeth a b c] ! f"

definition byte_at :: "bytes \<Rightarrow> int \<Rightarrow> u8" where
  "byte_at row i = (if 0 \<le> i \<and> i < int (length row) then row ! nat i else 0)"

text \<open>The original row, byte by byte from what has been restored so far and the row above.\<close>

definition unfilter :: "nat \<Rightarrow> nat \<Rightarrow> bytes \<Rightarrow> bytes \<Rightarrow> bytes" where
  "unfilter f bpp prior xs =
     foldl (\<lambda>row i. row @ [xs ! i + png_predict f (byte_at row (int i - int bpp)) (byte_at prior (int i)) (byte_at prior (int i - int bpp))])
       [] [0..<length xs]"

fun unfilter_rows :: "nat \<Rightarrow> nat \<Rightarrow> nat \<Rightarrow> bytes \<Rightarrow> bytes \<Rightarrow> bytes option" where
  "unfilter_rows len bpp 0 prior raw = (if raw = [] then Some [] else None)"
| "unfilter_rows len bpp (Suc h) prior raw =
     (if length raw < Suc len \<or> 4 < raw ! 0 then None
      else let row = unfilter (unat (raw ! 0)) bpp prior (take len (tl raw))
           in map_option (\<lambda>rows. row @ rows) (unfilter_rows len bpp h row (drop (Suc len) raw)))"

definition png_read :: "(bytes \<Rightarrow> u32) \<Rightarrow> (bytes \<Rightarrow> bytes option) \<Rightarrow> bytes \<Rightarrow> (nat \<times> nat \<times> nat \<times> bytes) option" where
  "png_read crc32 inflate file =
     (if take 8 file \<noteq> [0x89, 0x50, 0x4e, 0x47, 0x0d, 0x0a, 0x1a, 0x0a] then None
      else case read_chunks crc32 (drop 8 file) of
        Some ((t, ihdr) # cs) \<Rightarrow>
          let w = be_read (take 4 ihdr); h = be_read (take 4 (drop 4 ihdr)); ch = (if ihdr ! 9 = 2 then 3 else 1) in
          if t \<noteq> map of_char ''IHDR'' \<or> drop 8 ihdr \<notin> {[8, 0, 0, 0, 0], [8, 2, 0, 0, 0]} \<or> cs = [] \<or>
            last cs \<noteq> (map of_char ''IEND'', []) \<or> \<not> list_all (\<lambda>c. fst c = map of_char ''IDAT'') (butlast cs) then None
          else Option.bind (inflate (concat (map snd (butlast cs)))) (\<lambda>raw.
               map_option (\<lambda>pixels. (w, h, ch, pixels)) (unfilter_rows (w * ch) ch h [] raw))
      | _ \<Rightarrow> None)"

section \<open>Filters\<close>

lemma filter_row_parts [simp]:
  "length (filter_row f row prev bpp) = Suc (length row)"
  "hd (filter_row f row prev bpp) = of_nat f" "filter_row f row prev bpp ! 0 = of_nat f"
  by (simp_all add: filter_row_def)

text \<open>The prediction of the encoder is the one of the specification.\<close>

lemma paeth_is_png: "of_int (paeth (uint a) (uint b) (uint c)) = png_paeth a b c"
  by (simp add: paeth_def png_paeth_def Let_def)

lemma predictor_is_png: "f \<le> 4 \<Longrightarrow> of_int (predictor f (uint a) (uint b) (uint c)) = png_predict f a b c"
proof -
  have "(of_int ((uint a + uint b) div 2) :: u8) = of_nat ((unat a + unat b) div 2)"
  proof -
    have "(uint a + uint b) div 2 = int ((unat a + unat b) div 2)" by (simp add: zdiv_int)
    then show ?thesis by (simp only: of_int_of_nat_eq)
  qed
  moreover assume "f \<le> 4"
  then have "f = 0 \<or> f = 1 \<or> f = 2 \<or> f = 3 \<or> f = 4" by linarith
  ultimately show ?thesis by (auto simp: predictor_def png_predict_def paeth_is_png nth_Cons' [of _ _ 3] nth_Cons' [of _ _ 4])
qed

definition prior_of :: "bytes option \<Rightarrow> bytes" where
  "prior_of prev = (case prev of None \<Rightarrow> [] | Some p \<Rightarrow> p)"

lemma neighbours:
  assumes "i < n" "0 < bpp" "\<And>p. prev = Some p \<Longrightarrow> length p = n"
  shows "left_of bpp row i = uint (byte_at (take i row) (int i - int bpp)) \<or> length row < i"
    and "above prev i = uint (byte_at (prior_of prev) (int i))"
    and "above_left bpp prev i = uint (byte_at (prior_of prev) (int i - int bpp))"
  using assms
  by (auto simp: left_of_def above_def above_left_def byte_at_def prior_of_def nat_diff_distrib' split: option.split)

lemma unfilter_filter:
  assumes "0 < bpp" "f \<le> 4" "\<And>p. prev = Some p \<Longrightarrow> length p = length row"
  shows "unfilter f bpp (prior_of prev) (tl (filter_row f row prev bpp)) = row"
proof -
  let ?x = "tl (filter_row f row prev bpp)"
  have "foldl (\<lambda>row i. row @ [?x ! i + png_predict f (byte_at row (int i - int bpp)) (byte_at (prior_of prev) (int i))
      (byte_at (prior_of prev) (int i - int bpp))]) [] [0..<n] = take n row" if "n \<le> length row" for n
    using that
  proof (induction n)
    case (Suc n)
    then have n: "n < length row" by simp
    have "left_of bpp row n = uint (byte_at (take n row) (int n - int bpp))"
      using neighbours(1) [OF n assms(1,3)] n by fastforce
    then have "?x ! n + png_predict f (byte_at (take n row) (int n - int bpp)) (byte_at (prior_of prev) (int n))
      (byte_at (prior_of prev) (int n - int bpp)) = row ! n"
      using n neighbours(2,3) [OF n assms(1,3)] by (simp add: filter_row_def flip: predictor_is_png [OF assms(2)])
    then show ?case
      using Suc n by (simp add: take_Suc_conv_app_nth)
  qed simp
  from this [of "length row"] show ?thesis by (simp add: unfilter_def filter_row_def)
qed

text \<open>The choice of the filter: one of the five, none of them cheaper, and every earlier one dearer.\<close>

definition cheapest :: "(nat \<Rightarrow> bytes) \<Rightarrow> nat \<Rightarrow> nat \<Rightarrow> bool" where
  "cheapest r n f \<longleftrightarrow> f \<le> n \<and> (\<forall>g\<le>n. row_cost (r f) \<le> row_cost (r g)) \<and> (\<forall>g<f. row_cost (r f) < row_cost (r g))"

lemma cheapest_step:
  assumes "cheapest r n f"
  shows "cheapest r (Suc n) (if row_cost (r (Suc n)) < row_cost (r f) then Suc n else f)"
  using assms unfolding cheapest_def by (auto simp: le_Suc_eq not_less less_Suc_eq_le)

lemma pe_filter_cheapest:
  "\<exists>f. cheapest (\<lambda>f. filter_row f row prev bpp) 4 f \<and> pe_filter row prev bpp = filter_row f row prev bpp"
proof -
  let ?r = "\<lambda>f. filter_row f row prev bpp"
  let ?step = "\<lambda>(best, bestsum) f. let tmp = ?r f; sum = row_cost tmp in if sum < bestsum then (tmp, sum) else (best, bestsum)"
  have "\<exists>f. cheapest ?r n f \<and> foldl ?step (?r 0, row_cost (?r 0)) [1..<Suc n] = (?r f, row_cost (?r f))" for n
  proof (induction n)
    case 0
    then show ?case by (auto simp: cheapest_def)
  next
    case (Suc n)
    then obtain f where f: "cheapest ?r n f" "foldl ?step (?r 0, row_cost (?r 0)) [1..<Suc n] = (?r f, row_cost (?r f))" by blast
    have "[1..<Suc (Suc n)] = [1..<Suc n] @ [Suc n]" by simp
    then have "foldl ?step (?r 0, row_cost (?r 0)) [1..<Suc (Suc n)] = ?step (?r f, row_cost (?r f)) (Suc n)"
      using f(2) by (simp only: foldl_append foldl.simps)
    then show ?case using cheapest_step [OF f(1)] by (intro exI [of _ "if row_cost (?r (Suc n)) < row_cost (?r f) then Suc n else f"]) (simp add: Let_def)
  qed
  from this [of 4] obtain f where f: "cheapest ?r 4 f" "foldl ?step (?r 0, row_cost (?r 0)) [1..<Suc 4] = (?r f, row_cost (?r f))"
    by blast
  have "[1..<Suc 4] = [1, 2, 3, 4::nat]" by (simp add: upt_rec)
  with f show ?thesis by (auto simp: pe_filter_def)
qed

lemma pe_filter_shape:
  obtains f where "f \<le> 4" "pe_filter row prev bpp = filter_row f row prev bpp"
  using pe_filter_cheapest [of row prev bpp] by (auto simp: cheapest_def)

lemma unfilter_row:
  assumes "0 < bpp"
  shows "length (pe_filter row prev bpp) = Suc (length row)" "\<not> 4 < pe_filter row prev bpp ! 0"
    "(\<And>p. prev = Some p \<Longrightarrow> length p = length row) \<Longrightarrow>
     unfilter (unat (pe_filter row prev bpp ! 0)) bpp (prior_of prev) (tl (pe_filter row prev bpp)) = row"
proof -
  obtain f where f: "f \<le> 4" "pe_filter row prev bpp = filter_row f row prev bpp" by (rule pe_filter_shape)
  have n: "unat (of_nat f :: u8) = f" using f(1) by (simp add: unat_of_nat take_bit_eq_mod)
  then show "length (pe_filter row prev bpp) = Suc (length row)"
    "(\<And>p. prev = Some p \<Longrightarrow> length p = length row) \<Longrightarrow>
     unfilter (unat (pe_filter row prev bpp ! 0)) bpp (prior_of prev) (tl (pe_filter row prev bpp)) = row"
    using unfilter_filter [OF assms f(1)] by (simp_all add: f(2))
  show "\<not> 4 < pe_filter row prev bpp ! 0" using f(1) n by (simp add: f(2) word_less_nat_alt)
qed

lemma unfilter_all:
  assumes "0 < bpp" and "off + (y + h) * len \<le> length pnm"
  shows "unfilter_rows len bpp h (prior_of (if y = 0 then None else Some (png_row pnm off len (y - 1))))
      (concat (map (\<lambda>y. pe_filter (png_row pnm off len y) (if y = 0 then None else Some (png_row pnm off len (y - 1))) bpp) [y..<y + h])) =
    Some (take (h * len) (drop (off + y * len) pnm))"
  using assms(2)
proof (induction h arbitrary: y)
  case (Suc h)
  let ?prev = "if y = 0 then None else Some (png_row pnm off len (y - 1))"
  let ?f = "pe_filter (png_row pnm off len y) ?prev bpp"
  have len: "length (png_row pnm off len y) = len" using Suc.prems by (simp add: png_row_def algebra_simps)
  have "length (png_row pnm off len (y - 1)) = len" using Suc.prems by (cases y) (simp_all add: png_row_def algebra_simps)
  then have prev: "length p = length (png_row pnm off len y)" if "?prev = Some p" for p
    using that len by (auto split: if_splits)
  note row = unfilter_row(1,2) [OF assms(1), of "png_row pnm off len y" ?prev] unfilter_row(3) [OF assms(1) prev]
  have tl: "take len (tl (?f @ xs)) = tl ?f" for xs
    using row(1) len by (cases ?f) simp_all
  have split: "[y..<y + Suc h] = y # [Suc y..<Suc y + h]" by (simp add: upt_rec)
  have next_row: "prior_of (Some (png_row pnm off len y)) = png_row pnm off len y" by (simp add: prior_of_def)
  have "take (len + h * len) (drop (off + y * len) pnm) = png_row pnm off len y @ take (h * len) (drop (off + Suc y * len) pnm)"
    by (simp add: png_row_def take_add add.commute add.left_commute)
  then show ?case
    using Suc.IH [of "Suc y"] Suc.prems row len tl next_row
    unfolding split by (simp add: nth_append algebra_simps)
qed simp

section \<open>Chunks\<close>

definition chunk :: "(bytes \<Rightarrow> u32) \<Rightarrow> bytes \<Rightarrow> bytes \<Rightarrow> bytes" where
  "chunk crc32 t d = be4 (of_nat (length d)) @ t @ d @ be4 (crc32 (t @ d))"

lemma length_chunk [simp]: "length t = 4 \<Longrightarrow> length (chunk crc32 t d) = 12 + length d"
  by (simp add: chunk_def)

lemma be4_bytes: "be4 v = [ucast (drop_bit 24 v), ucast (drop_bit 16 v), ucast (drop_bit 8 v), ucast v]"
proof -
  have "[0..<4] = [0, 1, 2, 3::nat]" by (simp add: upt_rec)
  then show ?thesis by (simp add: be4_def)
qed

lemma be4_nonempty [simp]: "be4 v \<noteq> []"
  by (simp add: be4_bytes)

lemma be_read_be4: "be_read (be4 v) = unat v"
proof -
  have "v = of_nat (be_read (be4 v))"
  proof -
    have "(of_nat (be_read (be4 v)) :: u32) = push_bit 24 (ucast (ucast (drop_bit 24 v) :: u8)) + push_bit 16 (ucast (ucast (drop_bit 16 v) :: u8))
        + push_bit 8 (ucast (ucast (drop_bit 8 v) :: u8)) + ucast (ucast v :: u8)"
      by (simp add: be_read_def be4_bytes push_bit_eq_mult algebra_simps)
    also have "\<dots> = push_bit 24 (ucast (ucast (drop_bit 24 v) :: u8)) OR push_bit 16 (ucast (ucast (drop_bit 16 v) :: u8))
        OR push_bit 8 (ucast (ucast (drop_bit 8 v) :: u8)) OR ucast (ucast v :: u8)"
      by (subst disjunctive_add; (auto simp: bit_simps or.assoc)?)+
    also have "\<dots> = v" using g4_le32 [of v] by (simp add: g4_bytes_def ac_simps)
    finally show ?thesis by simp
  qed
  moreover have "be_read (be4 v) < 2 ^ 32"
  proof -
    have "256 * (256 * (256 * unat a + unat b) + unat c) + unat d < 4294967296" for a b c d :: u8
      using unat_u8_le [of a] unat_u8_le [of b] unat_u8_le [of c] unat_u8_le [of d]
      unfolding distrib_left mult.assoc [symmetric] by simp
    then show ?thesis by (simp add: be_read_def be4_bytes)
  qed
  moreover have "unat (of_nat m :: u32) = m" if "m < 2 ^ 32" for m
    using that by (simp add: unat_of_nat take_bit_nat_eq_self)
  ultimately show ?thesis by metis
qed

lemma read_chunks_chunk:
  assumes "length t = 4" "length d < 2 ^ 32"
  shows "read_chunks crc32 (chunk crc32 t d @ rest) = map_option (\<lambda>cs. (t, d) # cs) (read_chunks crc32 rest)"
proof -
  have n: "be_read (be4 (of_nat (length d))) = length d"
    using assms(2) by (simp add: be_read_be4 unat_of_nat take_bit_eq_mod)
  show ?thesis
    by (subst read_chunks.simps) (use assms(1) n in \<open>simp add: chunk_def Let_def be_read_be4\<close>)
qed

lemma read_chunks_all:
  assumes "\<forall>(t, d) \<in> set cs. length t = 4 \<and> length d < 2 ^ 32"
  shows "read_chunks crc32 (concat (map (\<lambda>(t, d). chunk crc32 t d) cs)) = Some cs"
  using assms
proof (induction cs)
  case Nil
  then show ?case by (simp add: read_chunks.simps)
next
  case (Cons c cs)
  then show ?case by (cases c) (simp add: read_chunks_chunk)
qed

section \<open>The buffer\<close>

lemma blit_at: "length a = off \<Longrightarrow> length b = length src \<Longrightarrow> blit (a @ b @ c) off src = a @ src @ c"
  by (simp add: blit_def)

lemma split_list_at:
  assumes "n \<le> length xs"
  obtains a b where "xs = a @ b" "length a = n"
  using assms by (metis append_take_drop_id length_take min.absorb2)

lemma pe_chunk_val:
  assumes t: "length t = 4" and room: "p + 12 + length d \<le> length out" and d: "take (length d) (drop (p + 8) out) = d"
  obtains out' where "pe_chunk crc32 out p t (length d) = (out', p + 12 + length d)" "length out' = length out"
    "take (p + 12 + length d) out' = take p out @ chunk crc32 t d"
    "drop (p + 12 + length d) out' = drop (p + 12 + length d) out"
proof -
  obtain a l u c r where out: "out = a @ l @ u @ d @ c @ r" and n: "length a = p" "length l = 4" "length u = 4" "length c = 4"
  proof -
    obtain a x where ax: "out = a @ x" "length a = p" by (rule split_list_at [of p out]) (use room in simp_all)
    obtain l y where ly: "x = l @ y" "length l = 4" by (rule split_list_at [of 4 x]) (use room ax in auto)
    obtain u q where uq: "y = u @ q" "length u = 4" by (rule split_list_at [of 4 y]) (use room ax ly in auto)
    obtain d' w where dw: "q = d' @ w" "length d' = length d" by (rule split_list_at [of "length d" q]) (use room ax ly uq in auto)
    obtain c r where cr: "w = c @ r" "length c = 4" by (rule split_list_at [of 4 w]) (use room ax ly uq dw in auto)
    have "d' = d" using d by (simp add: ax ly uq dw)
    then show thesis using that [of a l u c r] by (simp add: ax ly uq dw cr)
  qed
  let ?l = "be4 (of_nat (length d)) :: bytes" and ?c = "be4 (crc32 (t @ d)) :: bytes"
  have 1: "blit out p ?l = a @ ?l @ u @ d @ c @ r" unfolding out by (rule blit_at) (simp_all add: n)
  have 2: "blit (a @ ?l @ u @ d @ c @ r) (p + 4) t = a @ ?l @ t @ d @ c @ r"
    using blit_at [of "a @ ?l" "p + 4" u t "d @ c @ r"] by (simp add: n t)
  have 3: "take (length d + 4) (drop (p + 4) (a @ ?l @ t @ d @ c @ r)) = t @ d" by (simp add: n t)
  have 4: "blit (a @ ?l @ t @ d @ c @ r) (p + 8 + length d) ?c = a @ ?l @ t @ d @ ?c @ r"
    using blit_at [of "a @ ?l @ t @ d" "p + 8 + length d" c ?c r] by (simp add: n t)
  have "pe_chunk crc32 out p t (length d) = (a @ ?l @ t @ d @ ?c @ r, p + 12 + length d)"
    unfolding pe_chunk_def Let_def 1 2 3 4 by simp
  then show thesis
    by (rule that) (simp_all add: out n t chunk_def)
qed

function pieces :: "bytes \<Rightarrow> bytes list" where
  "pieces xs = (if xs = [] then [] else take PE_IDAT xs # pieces (drop PE_IDAT xs))"
  by pat_completeness auto
termination by (relation "measure length") (auto simp: PE_IDAT_def)

declare pieces.simps [simp del]

lemma pieces_val: "concat (pieces xs) = xs \<and> (\<forall>d \<in> set (pieces xs). length d \<le> PE_IDAT)"
proof (induction xs rule: pieces.induct)
  case (1 xs)
  then show ?case by (subst (1 2) pieces.simps) auto
qed

lemma idat_loop_val:
  assumes "take (length stream - k) (drop (z + k) out) = drop k stream" and "z + length stream \<le> length out"
    and "p + 12 * ((length stream - k + 8191) div 8192) \<le> z + k"
  obtains out' where
    "idat_loop crc32 out p z (length stream) k = (out', p + (length stream - k) + 12 * ((length stream - k + 8191) div 8192))"
    "length out' = length out"
    "take (p + (length stream - k) + 12 * ((length stream - k + 8191) div 8192)) out' =
      take p out @ concat (map (chunk crc32 (map of_char ''IDAT'')) (pieces (drop k stream)))"
  using assms
proof (induction "length stream - k" arbitrary: k p out thesis rule: less_induct)
  case less
  show ?case
  proof (cases "k < length stream")
    case False
    then show ?thesis
      by (intro less.prems(1)) (simp_all add: idat_loop.simps [of crc32 out p z "length stream" k] pieces.simps)
  next
    case True
    define d where "d = take PE_IDAT (drop k stream)"
    have c: "(if length stream - k < PE_IDAT then length stream - k else PE_IDAT) = length d" by (simp add: d_def)
    have dlen: "length d = min (length stream - k) 8192" by (simp add: d_def PE_IDAT_def)
    have "1 \<le> (length stream - k + 8191) div 8192" using True by (simp add: less_eq_div_iff_mult_less_eq)
    then have gap: "p + 12 \<le> z + k" using less.prems(4) by linarith
    have src: "take (length d) (drop (z + k) out) = d"
      using arg_cong [OF less.prems(2), of "take (length d)"] by (auto simp: d_def min_def)
    define out1 where "out1 = blit out (p + 8) d"
    have room: "p + 12 + length d \<le> length out" using gap less.prems(3) True by (simp add: dlen)
    have out1: "length out1 = length out" "take (length d) (drop (p + 8) out1) = d" "take p out1 = take p out"
      "drop (p + 12 + length d) out1 = drop (p + 12 + length d) out"
      using room by (simp_all add: out1_def blit_def ac_simps)
    obtain out2 where out2: "pe_chunk crc32 out1 p (map of_char ''IDAT'') (length d) = (out2, p + 12 + length d)"
      "length out2 = length out1" "take (p + 12 + length d) out2 = take p out1 @ chunk crc32 (map of_char ''IDAT'') d"
      "drop (p + 12 + length d) out2 = drop (p + 12 + length d) out1"
      by (rule pe_chunk_val [of "map of_char ''IDAT''" p d out1]) (use room out1 in simp_all)
    define k' where "k' = k + PE_IDAT"
    define n where "n = (length stream - k + 8191) div 8192"
    define n' where "n' = (length stream - k' + 8191) div 8192"
    have nn: "n = Suc n'"
    proof -
      have "length stream - k + 8191 = (length stream - k - 1) + 8192" using True by simp
      then have "n = Suc ((length stream - k - 1) div 8192)" unfolding n_def by (metis Suc_eq_plus1 div_add_self2 zero_neq_numeral)
      moreover have "(length stream - k - 1) div 8192 = n'"
      proof (cases "8192 \<le> length stream - k")
        case True
        then have "length stream - k' + 8191 = length stream - k - 1" by (simp add: k'_def PE_IDAT_def)
        then show ?thesis by (simp add: n'_def)
      qed (use True in \<open>simp add: n'_def k'_def PE_IDAT_def\<close>)
      ultimately show ?thesis by simp
    qed
    have end': "p + 12 + length d + (length stream - k') + 12 * n' = p + (length stream - k) + 12 * n"
      using True by (simp add: nn dlen k'_def PE_IDAT_def)
    have rest: "take (length stream - k') (drop (z + k') out2) = drop k' stream"
    proof (cases "8192 < length stream - k")
      case True
      then have dl: "length d = 8192" by (simp add: dlen)
      obtain e where e: "z + k = p + 12 + e" using gap le_Suc_ex by blast
      have idx: "z + k' = e + (p + 12 + length d)" using e by (simp add: k'_def PE_IDAT_def dl)
      have "drop (z + k') xs = drop e (drop (p + 12 + length d) xs)" for xs :: bytes
        unfolding idx by simp
      then have "drop (z + k') out2 = drop (z + k') out"
        using out2(4) out1(4) by (simp only:)
      moreover have "take (length stream - k') (drop (z + k') out) = drop PE_IDAT (take (length stream - k) (drop (z + k) out))"
        by (simp add: k'_def drop_take ac_simps)
      ultimately show ?thesis using less.prems(2) by (simp add: k'_def ac_simps)
    qed (simp add: k'_def PE_IDAT_def)
    have pre: "p + 12 + length d + 12 * n' \<le> z + k'"
      using less.prems(4) True unfolding n_def [symmetric] nn by (simp add: dlen k'_def PE_IDAT_def)
    have less': "length stream - k' < length stream - k" using True by (simp add: k'_def PE_IDAT_def)
    have zlen: "z + length stream \<le> length out2" using less.prems(3) out2(2) out1(1) by simp
    show ?thesis
    proof (rule less.hyps [OF less' _ rest zlen pre [unfolded n'_def]], goal_cases)
      case (1 out')
      have "pieces (drop k stream) = d # pieces (drop k' stream)"
        using True by (subst pieces.simps) (simp add: d_def k'_def ac_simps)
      moreover have "idat_loop crc32 out p z (length stream) k = idat_loop crc32 out2 (p + 12 + length d) z (length stream) k'"
        using True src out2(1) by (subst idat_loop.simps) (simp add: c Let_def out1_def [symmetric] k'_def)
      moreover note res = 1 [unfolded end' [unfolded n_def n'_def]]
      ultimately show ?case
        using out1(1,3) out2(2,3) by (intro less.prems(1) [of out']) (simp_all only: res(1), simp_all add: res(2,3))
    qed
  qed
qed

section \<open>The file\<close>

lemma long32_id: "in_long x \<Longrightarrow> long32 x = x"
  by (simp add: long32_def in_long_def signed_of_int signed_take_bit_int_eq_self)

lemma pe_header_val:
  assumes "pe_header p = Some (w, h, ch, off)"
  shows "1 \<le> w" "1 \<le> h" "ch = 1 \<or> ch = 3" "int (length p) - int off = long32 (w * h * int ch)"
  using assms by (auto simp: pe_header_def Let_def Option.bind_eq_Some_conv split: if_splits)

text \<open>What zlib promises of the calls made: rows that are not empty (zlib gives no such promise for a call without
  input) are taken whole, in room for the stored form, and come out of \<open>inflate\<close> again, in a stream that is never longer.\<close>

definition stored_bound :: "int \<Rightarrow> int" where
  "stored_bound raw = raw + raw div 1000 + 64"

definition zlib_ok :: "'s deflater \<Rightarrow> (bytes \<Rightarrow> bytes option) \<Rightarrow> bool" where
  "zlib_ok zl inflate \<longleftrightarrow>
     (\<forall>level room rows. 0 \<le> level \<and> level \<le> 9 \<and> rows \<noteq> [] \<and> [] \<notin> set rows \<and> stored_bound (int (length (concat rows))) \<le> room \<longrightarrow>
       (\<exists>s s' z. z_init zl level room = Some s \<and> feed_rows zl s rows = Some s' \<and> z_finish zl s' = Some z \<and>
         inflate z = Some (concat rows) \<and> int (length z) \<le> stored_bound (int (length (concat rows)))))"

lemma head_val:
  fixes out :: bytes and w h :: bytes
  assumes "41 \<le> length out" and "length w = 4" and "length h = 4" and "length v = 5"
  defines "out' \<equiv> blit (blit (blit (blit out 0 png_signature) 16 w) 20 h) 24 v"
  shows "length out' = length out" "take 8 out' = png_signature" "take 13 (drop 16 out') = w @ h @ v"
proof -
  obtain a x where a: "out = a @ x" "length a = 8" by (rule split_list_at [of 8 out]) (use assms in auto)
  obtain b y where b: "x = b @ y" "length b = 8" by (rule split_list_at [of 8 x]) (use assms a in auto)
  obtain c z where c: "y = c @ z" "length c = 4" by (rule split_list_at [of 4 y]) (use assms a b in auto)
  obtain d u where d: "z = d @ u" "length d = 4" by (rule split_list_at [of 4 z]) (use assms a b c in auto)
  obtain e r where e: "u = e @ r" "length e = 5" by (rule split_list_at [of 5 u]) (use assms a b c d in auto)
  have sig: "length png_signature = 8" by (simp add: png_signature_def)
  have 1: "blit out 0 png_signature = png_signature @ b @ c @ d @ e @ r"
    using blit_at [of "[]" 0 a png_signature x] by (simp add: a b c d e sig)
  have 2: "blit (png_signature @ b @ c @ d @ e @ r) 16 w = png_signature @ b @ w @ d @ e @ r"
    using blit_at [of "png_signature @ b" 16 c w "d @ e @ r"] by (simp add: b c sig assms)
  have 3: "blit (png_signature @ b @ w @ d @ e @ r) 20 h = png_signature @ b @ w @ h @ e @ r"
    using blit_at [of "png_signature @ b @ w" 20 d h "e @ r"] by (simp add: b d sig assms)
  have 4: "blit (png_signature @ b @ w @ h @ e @ r) 24 v = png_signature @ b @ w @ h @ v @ r"
    using blit_at [of "png_signature @ b @ w @ h" 24 e v r] by (simp add: b e sig assms)
  have "out' = png_signature @ b @ w @ h @ v @ r" unfolding out'_def 1 2 3 4 ..
  then show "length out' = length out" "take 8 out' = png_signature" "take 13 (drop 16 out') = w @ h @ v"
    by (simp_all add: a b c d e sig assms)
qed

definition ihdr_data :: "int \<Rightarrow> int \<Rightarrow> nat \<Rightarrow> bytes" where
  "ihdr_data w h ch = be4 (word_of_int w) @ be4 (word_of_int h) @ [8, if ch = 3 then 2 else 0, 0, 0, 0]"

definition png_chunks :: "int \<Rightarrow> int \<Rightarrow> nat \<Rightarrow> bytes \<Rightarrow> (bytes \<times> bytes) list" where
  "png_chunks w h ch stream =
     (map of_char ''IHDR'', ihdr_data w h ch) # map (Pair (map of_char ''IDAT'')) (pieces stream) @ [(map of_char ''IEND'', [])]"

definition png_file :: "(bytes \<Rightarrow> u32) \<Rightarrow> int \<Rightarrow> int \<Rightarrow> nat \<Rightarrow> bytes \<Rightarrow> bytes" where
  "png_file crc32 w h ch stream = png_signature @ concat (map (\<lambda>(t, d). chunk crc32 t d) (png_chunks w h ch stream))"

lemma length_rows:
  assumes "off + h * len \<le> length pnm" "0 < bpp"
  shows "length (concat (png_rows pnm off len h bpp)) = h * Suc len"
proof -
  have "length (pe_filter (png_row pnm off len y) prev bpp) = Suc len" if "y < h" for y prev
  proof -
    have "off + Suc y * len \<le> length pnm" using that assms(1) by (meson Suc_leI add_left_mono le_trans mult_le_mono1)
    then show ?thesis using unfilter_row(1) [OF assms(2)] by (simp add: png_row_def)
  qed
  then have "map length (png_rows pnm off len h bpp) = replicate h (Suc len)"
    by (intro nth_equalityI) (simp_all add: png_rows_def)
  then show ?thesis by (simp add: length_concat sum_list_replicate)
qed

text \<open>The reader on a file of this form.\<close>

lemma png_read_file:
  assumes w: "1 \<le> w" "w < 2 ^ 29" and h: "1 \<le> h" "h < 2 ^ 29" and ch: "ch = 1 \<or> ch = 3"
    and pix: "length pnm = off + nat h * (nat w * ch)"
    and z: "inflate stream = Some (concat (png_rows pnm off (nat w * ch) (nat h) ch))"
  shows "png_read crc32 inflate (png_file crc32 w h ch stream) = Some (nat w, nat h, ch, drop off pnm)"
proof -
  have sig: "length png_signature = 8" by (simp add: png_signature_def)
  have len13: "length (ihdr_data w h ch) = 13" by (simp add: ihdr_data_def)
  have cs: "\<forall>(t, d) \<in> set (png_chunks w h ch stream). length t = 4 \<and> length d < 2 ^ 32"
    using pieces_val [of stream] len13 by (auto simp: png_chunks_def PE_IDAT_def)
  have rd: "unat (word_of_int x :: u32) = nat x" if "1 \<le> x" "x < 2 ^ 29" for x
    using that by (simp add: unsigned_of_int take_bit_int_eq_self)
  have f: "be_read (take 4 (ihdr_data w h ch)) = nat w" "be_read (take 4 (drop 4 (ihdr_data w h ch))) = nat h"
    "drop 8 (ihdr_data w h ch) = [8, if ch = 3 then 2 else 0, 0, 0, 0]" "ihdr_data w h ch ! 9 = (if ch = 3 then 2 else 0)"
    using w h by (simp_all add: ihdr_data_def be_read_be4 rd nth_append)
  have pos: "0 < ch" using ch by auto
  have "unfilter_rows (nat w * ch) ch (nat h) [] (concat (png_rows pnm off (nat w * ch) (nat h) ch)) =
      Some (take (nat h * (nat w * ch)) (drop off pnm))"
    using unfilter_all [OF pos, of off 0 "nat h" "nat w * ch" pnm] pix by (simp add: png_rows_def prior_of_def)
  moreover have "take (nat h * (nat w * ch)) (drop off pnm) = drop off pnm" using pix by simp
  moreover have "concat (map (snd \<circ> Pair (map of_char ''IDAT'' :: bytes)) (pieces stream)) = stream"
    using pieces_val [of stream] by (simp add: comp_def)
  moreover have "list_all (\<lambda>c. fst c = (map of_char ''IDAT'' :: bytes)) (map (Pair (map of_char ''IDAT'')) (pieces stream))"
    by (simp add: list.pred_map comp_def list_all_iff)
  moreover have "take 8 (png_file crc32 w h ch stream) = png_signature"
    "read_chunks crc32 (drop 8 (png_file crc32 w h ch stream)) = Some (png_chunks w h ch stream)"
    by (simp_all add: png_file_def sig read_chunks_all [OF cs])
  ultimately show ?thesis
    using ch z by (auto simp: png_read_def png_chunks_def png_signature_def f butlast_append)
qed

section \<open>Encoding\<close>

lemma sizes:
  assumes "pe_header pnm = Some (w, h, ch, off)" and "w * h * int ch < 2 ^ 29"
  defines "len \<equiv> nat w * ch"
  shows "w < 2 ^ 29" "h < 2 ^ 29" "length pnm = off + nat h * len" "long32 ((int len + 1) * h) = int (nat h * Suc len)"
    "pe_zbound (int (nat h * Suc len)) = stored_bound (int (nat h * Suc len))"
    "pe_cap pnm = 45 + pe_frame (stored_bound (int (nat h * Suc len))) + stored_bound (int (nat h * Suc len))"
proof -
  note v = pe_header_val [OF assms(1)]
  have wh: "w \<le> w * h * int ch" "h \<le> w * h * int ch"
  proof -
    have "1 \<le> int ch" using v(3) by auto
    then have "w * 1 * 1 \<le> w * h * int ch" "1 * h * 1 \<le> w * h * int ch" using v(1,2) by (intro mult_mono; simp)+
    then show "w \<le> w * h * int ch" "h \<le> w * h * int ch" by simp_all
  qed
  then show "w < 2 ^ 29" "h < 2 ^ 29" using assms(2) by linarith+
  have P: "1 \<le> w * h * int ch" using wh(1) v(1) by (rule order_trans [rotated])
  have "in_long (w * h * int ch)" unfolding in_long_def
  proof
    show "- (2 ^ 31) \<le> w * h * int ch" using P by (rule order_trans [rotated]) simp
    show "w * h * int ch < 2 ^ 31" using assms(2) by (rule order.strict_trans) simp
  qed
  then have p: "int (length pnm) - int off = w * h * int ch" using v(4) by (simp add: long32_id)
  have "int (nat h * len) = w * h * int ch" using v(1,2) by (simp add: len_def)
  then show "length pnm = off + nat h * len" using p by linarith
  have raw: "(int len + 1) * h = int (nat h * Suc len)" using v(2) by (simp add: algebra_simps)
  have e: "int (nat h * Suc len) = h + w * h * int ch" using v(1,2) by (simp add: len_def algebra_simps)
  have small_nat: "in_long (int m)" if "int m < 2 ^ 30" for m using that by (simp add: in_long_def)
  have "int (nat h * Suc len) < 2 ^ 30" using wh(2) assms(2) unfolding e by simp
  then have rb: "0 \<le> int (nat h * Suc len)" "int (nat h * Suc len) < 2 ^ 30" by (simp_all only: of_nat_0_le_iff)
  show r: "long32 ((int len + 1) * h) = int (nat h * Suc len)" unfolding raw by (rule long32_id [OF small_nat [OF rb(2)]])
  define R where "R = int (nat h * Suc len)"
  have R: "0 \<le> R" "R < 2 ^ 30" using rb by (simp_all add: R_def)
  have sb: "0 \<le> stored_bound R" "stored_bound R \<le> 1075000000" using R by (simp_all add: stored_bound_def)
  then have zb: "pe_zbound R = stored_bound R" using R by (simp add: pe_zbound_def stored_bound_def long32_id in_long_def)
  then show "pe_zbound (int (nat h * Suc len)) = stored_bound (int (nat h * Suc len))" by (simp add: R_def)
  have fr: "0 \<le> pe_frame (stored_bound R)" "pe_frame (stored_bound R) \<le> 2000000"
    using sb by (simp_all add: pe_frame_def PE_IDAT_def)
  have "pe_cap pnm = long32 (8 + 25 + pe_frame (stored_bound R) + stored_bound R + 12)"
    using r zb v(1) by (simp add: pe_cap_def assms(1) R_def len_def Let_def)
  also have "\<dots> = 8 + 25 + pe_frame (stored_bound R) + stored_bound R + 12"
    using sb fr by (intro long32_id) (simp add: in_long_def)
  finally show "pe_cap pnm = 45 + pe_frame (stored_bound (int (nat h * Suc len))) + stored_bound (int (nat h * Suc len))"
    by (simp add: R_def)
qed

lemma pe_encode_val:
  assumes hdr: "pe_header pnm = Some (w, h, ch, off)" and small: "w * h * int ch < 2 ^ 29"
    and level: "0 \<le> level" "level \<le> 9" and cap: "pe_cap pnm \<le> int (length out)" and zl: "zlib_ok zl inflate"
  obtains n out' stream where "pe_encode zl crc32 True pnm level out = Some (n, out')" "n \<le> length out" "length out' = length out"
    "take n out' = png_file crc32 w h ch stream"
    "inflate stream = Some (concat (png_rows pnm off (nat w * ch) (nat h) ch))"
proof -
  define len where "len = nat w * ch"
  note v = pe_header_val [OF hdr] and s = sizes [OF hdr small, folded len_def]
  define zb where "zb = stored_bound (int (nat h * Suc len))"
  define fr where "fr = nat (pe_frame zb)"
  have pos: "0 < ch" using v(3) by auto
  have rows: "length (concat (png_rows pnm off len (nat h) ch)) = nat h * Suc len"
    by (rule length_rows [OF _ pos]) (use s(3) in simp)
  have some: "png_rows pnm off len (nat h) ch \<noteq> []" "[] \<notin> set (png_rows pnm off len (nat h) ch)"
  proof -
    have "[] \<noteq> pe_filter row prev ch" for row prev using unfilter_row(1) [OF pos, of row prev] by auto
    then show "png_rows pnm off len (nat h) ch \<noteq> []" "[] \<notin> set (png_rows pnm off len (nat h) ch)"
      using v(2) by (auto simp: png_rows_def)
  qed
  have "0 \<le> stored_bound (int n)" for n by (simp add: stored_bound_def)
  then have zb: "0 \<le> zb" unfolding zb_def by blast
  have fr: "int fr = 12 * (zb div 8192 + 2)" using zb by (simp add: fr_def pe_frame_def PE_IDAT_def)
  have room: "45 + int fr + zb \<le> int (length out)" using cap zb unfolding s(6) [folded zb_def] by (simp add: fr_def pe_frame_def PE_IDAT_def)
  define hw where "hw = (be4 (word_of_int w) :: bytes)"
  define hh where "hh = (be4 (word_of_int h) :: bytes)"
  define v5 where "v5 = ([8, if ch = 3 then 2 else 0, 0, 0, 0] :: bytes)"
  define out1 where "out1 = blit (blit (blit (blit out 0 png_signature) 16 hw) 20 hh) 24 v5"
  have o1: "length out1 = length out" "take 8 out1 = png_signature" "take 13 (drop 16 out1) = ihdr_data w h ch"
    using head_val [of out hw hh v5] room zb fr by (simp_all add: out1_def hw_def hh_def v5_def ihdr_data_def)
  have l13: "length (ihdr_data w h ch) = 13" by (simp add: ihdr_data_def)
  obtain out2 where o2: "pe_chunk crc32 out1 8 (map of_char ''IHDR'') 13 = (out2, 33)" "length out2 = length out1"
    "take 33 out2 = png_signature @ chunk crc32 (map of_char ''IHDR'') (ihdr_data w h ch)"
    by (rule pe_chunk_val [of "map of_char ''IHDR''" 8 "ihdr_data w h ch" out1]) (use l13 o1 room zb fr in simp_all)
  have "stored_bound (int (length (concat (png_rows pnm off len (nat h) ch)))) \<le> int (length out) - int (33 + fr)"
    using room unfolding rows zb_def [symmetric] by simp
  then obtain s0 s1 stream where z: "z_init zl level (int (length out) - int (33 + fr)) = Some s0"
    "feed_rows zl s0 (png_rows pnm off len (nat h) ch) = Some s1" "z_finish zl s1 = Some stream"
    "inflate stream = Some (concat (png_rows pnm off len (nat h) ch))" "int (length stream) \<le> zb"
    using zl level some unfolding zlib_ok_def rows zb_def by (metis rows)
  define out3 where "out3 = blit out2 (33 + fr) stream"
  have o3: "length out3 = length out" "take 33 out3 = take 33 out2" "take (length stream) (drop (33 + fr) out3) = stream"
    using room z(5) o1(1) o2(2) by (simp_all add: out3_def blit_def)
  define c where "c = (length stream + 8191) div 8192"
  have c: "int c \<le> zb div 8192 + 1" using z(5) unfolding c_def by (simp add: zdiv_int)
  obtain out4 where o4: "idat_loop crc32 out3 33 (33 + fr) (length stream) 0 = (out4, 33 + length stream + 12 * c)"
    "length out4 = length out3"
    "take (33 + length stream + 12 * c) out4 = take 33 out3 @ concat (map (chunk crc32 (map of_char ''IDAT'')) (pieces stream))"
    by (rule idat_loop_val [of stream 0 "33 + fr" out3 33 crc32]) (use o3 room z(5) c fr in \<open>simp_all add: c_def\<close>)
  define p where "p = 33 + length stream + 12 * c"
  have end_room: "p + 12 \<le> length out" using room z(5) c fr by (simp add: p_def)
  obtain out5 where o5: "pe_chunk crc32 out4 p (map of_char ''IEND'') 0 = (out5, p + 12)" "length out5 = length out4"
    "take (p + 12) out5 = take p out4 @ chunk crc32 (map of_char ''IEND'') []"
    by (rule pe_chunk_val [of "map of_char ''IEND''" p "[]" out4]) (use end_room o4 o3 in simp_all)
  have frz: "nat (pe_frame (pe_zbound (long32 ((int len + 1) * h)))) = fr"
    unfolding s(4,5) by (simp only: fr_def zb_def)
  have "pe_encode zl crc32 True pnm level out = Some (p + 12, out5)"
    using level cap z o2 o4 o5 unfolding pe_encode_def hdr
    by (simp add: Let_def frz del: of_nat_mult int_nat_eq flip: len_def hw_def hh_def v5_def out1_def out3_def p_def)
  moreover have "take (p + 12) out5 = png_file crc32 w h ch stream"
    using o5(3) o4(3) o3(2) o2(3) by (simp add: p_def png_file_def png_chunks_def comp_def)
  ultimately show thesis
    using that end_room o5(2) o4(2) o3(1) z(4) by (simp add: len_def)
qed

section \<open>Properties\<close>

text \<open>C12. The encoder loses nothing: for every raw picture whose pixels take less than \<open>2 ^ 29\<close> bytes, every level and a
  buffer of at least \<open>pe_cap\<close> bytes, encoding succeeds, stays inside the buffer, and a reader of PNG files, with the filters of
  the specification, gets from the bytes it says it wrote the width, the height, the channels and exactly the pixels of the picture, although the chunks
  are laid over the stream they are cut from. (Hypotheses: zlib's own round trip and its bound on the stream; memory.)\<close>

theorem png_roundtrip:
  assumes "pe_header pnm = Some (w, h, ch, off)" and "w * h * int ch < 2 ^ 29" and "0 \<le> level" and "level \<le> 9"
    and "pe_cap pnm \<le> int (length out)" and "zlib_ok zl inflate"
  shows "\<exists>n out'. pe_encode zl crc32 True pnm level out = Some (n, out') \<and> n \<le> length out \<and> length out' = length out \<and>
    png_read crc32 inflate (take n out') = Some (nat w, nat h, ch, drop off pnm) \<and>
    length (drop off pnm) = nat w * nat h * ch"
proof -
  note v = pe_header_val [OF assms(1)] and s = sizes [OF assms(1,2)]
  obtain n out' stream where e: "pe_encode zl crc32 True pnm level out = Some (n, out')" "n \<le> length out" "length out' = length out"
    "take n out' = png_file crc32 w h ch stream" "inflate stream = Some (concat (png_rows pnm off (nat w * ch) (nat h) ch))"
    by (rule pe_encode_val [OF assms])
  have "png_read crc32 inflate (take n out') = Some (nat w, nat h, ch, drop off pnm)"
    unfolding e(4) using v(1) s(1) v(2) s(2) v(3) s(3) e(5) by (rule png_read_file)
  then show ?thesis using e(1-3) s(3) by (simp add: ac_simps)
qed

definition storer :: "(bytes \<times> int) deflater" where
  "storer = \<lparr>z_init = (\<lambda>level room. Some ([], room)), z_feed = (\<lambda>s r. Some (fst s @ r, snd s)),
     z_finish = (\<lambda>s. if int (length (fst s)) \<le> snd s then Some (fst s) else None)\<rparr>"

lemma storer_ok: "zlib_ok storer Some"
  unfolding zlib_ok_def
proof (intro allI impI)
  fix level room :: int and rows :: "bytes list"
  assume "0 \<le> level \<and> level \<le> 9 \<and> rows \<noteq> [] \<and> [] \<notin> set rows \<and> stored_bound (int (length (concat rows))) \<le> room"
  moreover have bound: "int n \<le> stored_bound (int n)" for n by (simp add: stored_bound_def)
  ultimately have room: "int (length (concat rows)) \<le> room" using order_trans by blast
  have feed: "feed_rows storer (a, room) rows = Some (a @ concat rows, room)" for a room rows
    by (induction rows arbitrary: a) (simp_all add: storer_def)
  have "z_init storer level room = Some ([], room)" "z_finish storer (concat rows, room) = Some (concat rows)"
    using room by (simp_all add: storer_def)
  then show "\<exists>s s' z. z_init storer level room = Some s \<and> feed_rows storer s rows = Some s' \<and> z_finish storer s' = Some z \<and>
      Some z = Some (concat rows) \<and> int (length z) \<le> stored_bound (int (length (concat rows)))"
    using feed [of "[]" room rows] bound by auto
qed

definition demo_pgm :: bytes where
  "demo_pgm = map of_char ''P5 2 1 255'' @ [0x0a, 7, 9]"

theorem png_roundtrip_witness:
  "\<exists>n out'. pe_encode storer (\<lambda>_. 0) True demo_pgm 6 (replicate 200 0) = Some (n, out') \<and>
     png_read (\<lambda>_. 0) Some (take n out') = Some (2, 1, 1, [7, 9])"
proof -
  have hdr: "pe_header demo_pgm = Some (2, 1, 1, 11)" by code_simp
  have "pe_cap demo_pgm \<le> int (length (replicate 200 (0 :: u8)))" by code_simp
  moreover have "drop 11 demo_pgm = [7, 9]" by code_simp
  ultimately show ?thesis
    using png_roundtrip [OF hdr _ _ _ _ storer_ok, of 6 "replicate 200 0" "\<lambda>_. 0"] by auto
qed

text \<open>Where the product of the sizes does not fit a \<open>long\<close>, a header is accepted that has no pixels behind it.\<close>

lemma header_overflow: "pe_header (map of_char ''P5 65536 65536 255'' @ [0x0a]) = Some (65536, 65536, 1, 19)"
  by code_simp

end
