(* ===== verification/Spec2Isabelle.thy ===== *)
theory Spec2Isabelle
  imports Prelude Adler F25519 F25519b C25519 Jobwire Ttjobd TtjobdInv TtjobdProps Jobheap Chacha20 Sha256 Jobexec Node0 Jobnet JobnetInv JobnetProps
    T4lock Libttjob Ttkbdd TtkbddProps TtkbddNet Pkgmodel Runner Ttmqtt Sha512 Fprime Ed25519 Edsign Atw Xserv Pngenc
begin

text \<open>
  Verification of the system software of an Atari TT030 with an ATW800/2 transputer board. Paths are those below
  the repository's root.

  \<^bold>\<open>The program.\<close> The 68030 gives work to three transputers: a T425 (node 0) on the board and two TRAMs (nodes 1 and 2)
  behind it. A client (\<open>sam-job-tt/libttjob.c\<close>) sends jobs over a socket to the daemon \<open>ttjobd\<close>, which owns the link
  and the T425 lock (\<open>sam-yum-tt/src/t4lock.c\<close>), queues them and writes requests to the resident image
  (\<open>sam-job-tt/llvm\<close>), whose processes route them to the nodes; each node runs kernels: checksum, SHA-256, ChaCha20,
  X25519, Ed25519. Without the daemon, Dropbear's client (\<open>staging/DROPBEAR/atwx25519.c\<close>) takes the lock itself
  and speaks to the crypto server \<open>xserv2.c\<close> on the T425. Beside this run the keyboard daemon \<open>ttkbdd\<close>, the MQTT client
  \<open>ttmqtt\<close> and the GEM package manager \<open>ttpkg\<close>.

  \<^bold>\<open>Kernels.\<close>
  \<^item> \<open>Prelude\<close>: bytes, words, C division, blocks and padding, the lemma collections shared by all theories.
  \<^item> \<open>Adler\<close>: \<open>sam-yum-tt/src/t4adler.c\<close>. The unrolled sum with delayed reduction equals the bytewise reference
    (\<open>t4_adler32_eq_ad\<close>) and detects every change of one byte. Locale \<open>checksum\<close>, interpreted by \<open>t4_adler32\<close>.
  \<^item> \<open>F25519\<close>, \<open>F25519b\<close>: the field modulo \<open>2^255 - 19\<close>, once on 32-bit words (\<open>src/x25519bench/fe32/f25519.c\<close>) and once
    on bytes (\<open>c25519/f25519.c\<close>). Every routine is its operation modulo \<open>p\<close>, no accumulator overflows, and the two
    agree. Locale \<open>field_rep\<close>, interpreted by both (\<open>fe32\<close>, \<open>fe8\<close>).
  \<^item> \<open>C25519\<close>: \<open>c25519/c25519.c\<close>, the Montgomery ladder, a multiple of the input point.
  \<^item> \<open>Chacha20\<close>, \<open>Sha256\<close>: \<open>sam-job-tt/llvm/chacha20.c\<close> is counter mode over its block function and undoes itself;
    \<open>sam-yum-tt/src/sha256.c\<close> in any split into updates is SHA-256 as FIPS 180-4 has it, stated apart from the code, with the
    constants as fractions of roots of the first primes.
  \<^item> \<open>Sha512\<close>: \<open>fe32/sha512_32.c\<close> in its two builds, which are the two interpretations (\<open>native\<close>, \<open>pair\<close>) of the locale
    \<open>word64\<close>; in it the compression function, padding and output are proved once to be those of FIPS 180-4.
  \<^item> \<open>Fprime\<close>: \<open>ed25519/fprime.c\<close>, arithmetic modulo any 255-bit number, and where its inversion is wrong.
  \<^item> \<open>Ed25519\<close>: \<open>ed25519/ed25519.c\<close> and \<open>morph25519.c\<close>. Addition and doubling follow the addition law of the twisted
    Edwards curve, scalar multiplication is a multiple; packing what was unpacked from a string gives the string back, and unpacking
    answers 1 exactly when the \<open>x\<close> it found solves the curve equation. That it finds one for every packed point (the
    correctness of the square root) is not proved.
  \<^item> \<open>Edsign\<close>: \<open>ed25519/edsign.c\<close>. Hashing, signing and verification, total and alike in both builds of SHA-512.

  \<^item> \<open>Pngenc\<close>: \<open>sam-yum-tt/src/pngenc.c\<close>, the PNG kernel. A reader written from the PNG specification, with filters of its
    own, gets every picture back from the encoder's buffer; zlib is a parameter with its round trip and bound as
    hypothesis.

  \<^bold>\<open>Jobs.\<close>
  \<^item> \<open>Jobwire\<close>: the layout of \<open>sam-job-tt/jobwire.h\<close>; packing and reading the header fields are inverse.
  \<^item> \<open>Ttjobd\<close>, \<open>TtjobdInv\<close>, \<open>TtjobdProps\<close>: the daemon \<open>ttjobd.c\<close> as a state record (clients, the queue, the nodes, the
    link) with one function per function of the code and the reachable states of its main loop. The invariant ties
    queued and running jobs to open clients and marks; the properties are about replies, estimates and leases. Locale
    \<open>reply_channel\<close> is what answering needs of a descriptor.
  \<^item> \<open>Jobheap\<close>: the allocator \<open>llvm/jobheap.c\<close> as an address-level free list. Blocks never overlap, a job's end
    gives back all it took. Locale \<open>allocator\<close>, interpreted by the wrapped \<open>malloc\<close>.
  \<^item> \<open>Jobexec\<close>: \<open>llvm/jobexec.c\<close> and \<open>job_reply\<close> of \<open>jobnode.c\<close>, from a request to the bytes of its reply, read back
    field by field; a payload that was too big or damaged is refused. It calls the
    kernels above; the third-party ones are parameters.
  \<^item> \<open>Node0\<close>: the buffers of a job on node 0 (\<open>llvm/root.c\<close>): after any job the heap is as before.
  \<^item> \<open>Jobnet\<close>, \<open>JobnetInv\<close>, \<open>JobnetProps\<close>: all processes of the image and the link as a step relation over every
    interleaving. Its invariant places each outstanding request with one process; no deadlock, every job answered
    rightly, every run without new requests ends.
  \<^item> \<open>T4lock\<close>: \<open>t4lock.c\<close> as a machine of system calls: exclusive when run alone; two takes that overlap can
    both succeed (\<open>t4lock_race\<close>).
  \<^item> \<open>Libttjob\<close>: \<open>libttjob.c\<close> and \<open>ttlease.c\<close>: each id gets its own reply, whatever the order.
  \<^item> \<open>Atw\<close>: Dropbear's client on a live link, an endless sequence of bytes from the T425. A call that returns has used the
    link only under the lock, and its answer is an answer to its own request. It returns when the clock runs and the T425
    falls silent at some time; the start-up loop has no deadline of its own, so a T425 that keeps sending start-up requests
    holds it for ever (\<open>boot_loop_hangs\<close>). Locale \<open>link_request\<close>, interpreted by both kinds of request.
  \<^item> \<open>Xserv\<close>: the servers \<open>xserv.c\<close> and \<open>xserv2.c\<close>; their answers are those of a job node to the same job, so the two
    ways \<open>Atw\<close> can take lead to the same result.

  \<^bold>\<open>Around.\<close>
  \<^item> \<open>Ttkbdd\<close>, \<open>TtkbddProps\<close>, \<open>TtkbddNet\<close>: \<open>src/ttkbdd.c\<close> as a trace of events on the TT. Pacing, nothing held after a
    session, the handshake and the sealed records of the network protocol.
  \<^item> \<open>Pkgmodel\<close>, \<open>Runner\<close>: \<open>src/ttpkg/pkgmodel.c\<close> (versions compared as words and numbers up to the lengths
    the code holds, index, installed marks) and \<open>runner.c\<close> (allowed
    commands, the life of the child).
  \<^item> \<open>Ttmqtt\<close>: \<open>src/ttmqtt.c\<close>, packets and the subscribe loop.

  \<^bold>\<open>Conventions and bounds.\<close> Bytes are \<open>8 word\<close>, C integers words of their width or \<open>int\<close> with the range stated where a
  property needs it. What the system answers is an environment read at a counter, so a property is about
  any answers. Loops are recursions with a proved measure; those with no bound of their own are partial functions, with the
  conditions under which they return (\<open>Atw\<close>). \<open>t4lock_take\<close> makes at most seven calls, the iteration count of the
  model; the ladder runs 255 rounds, scalar multiplication 256, as in the code. A FIPS 180-4 statement holds for messages
  whose length a 32-bit \<open>size_t\<close> holds.

  \<^bold>\<open>Not modelled.\<close> Vendored code: Monocypher and Dropbear's shim to it (\<open>staging/DROPBEAR\<close>), the CBHD SCSI drivers
  (\<open>staging/DRIVERS\<close>), FreeMiNT examples. Output to the screen: the GEM window program \<open>ttpkg.c\<close>, the programs
  of \<open>src/atwbg\<close>, \<open>src/bootlog\<close>, \<open>vdibench\<close>. Programs that touch hardware registers and nothing else: \<open>src/atwide\<close>,
  \<open>sam-rom-tt\<close>, \<open>kbdinj\<close>, \<open>ttmon\<close>, \<open>ttsound\<close>, \<open>ramtest\<close>. Wrappers around third-party libraries, parameters of \<open>Jobexec\<close>:
  \<open>compkern\<close>, \<open>pmshim\<close>, \<open>bcshim\<close>, \<open>lhaserv\<close>, \<open>jpegserv\<close>. The first image (\<open>sam-job-tt/t4\<close>), which the one modelled
  replaced, the experiments in \<open>fr2boot\<close> and \<open>sam-tram-tt\<close>, benchmarks, and test programs. In \<open>ttkbdd\<close> and
  \<open>ttmqtt\<close> the command line's help texts and the sockets' set-up.
\<close>

end
